(* ===== verification/Zip_Prelude.thy ===== *)
theory Zip_Prelude
  imports Main "HOL-Library.Word" "HOL-Library.Monad_Syntax"
begin

text \<open>
  The vocabulary every component shares: machine integers, the errors of the package, results,
  and the little-endian buffers \<open>readBuf\<close> (reader.go) and \<open>writeBuf\<close> (writer.go).

  A Go \<open>[]byte\<close> or \<open>string\<close> is a \<open>byte list\<close>; \<open>uintN\<close> is \<open>N word\<close>; \<open>int\<close> and \<open>int64\<close> are
  \<open>int\<close>, with the wrap-around written out (\<open>add64\<close>, \<open>int64_of\<close>) where a conversion or a sum can
  leave the range. A function that can fail returns \<open>zip_error + 'a\<close>. A run-time panic of Go
  (a slice index out of range) is the error \<open>GoPanic\<close>, so that its absence is a theorem.
\<close>

unbundle bit_operations_syntax

named_theorems wire \<open>how the wire primitives read and write bytes\<close>
named_theorems io_law \<open>what the reading and writing loops do\<close>

section \<open>Machine integers\<close>

type_synonym byte = "8 word"
type_synonym u16 = "16 word"
type_synonym u32 = "32 word"
type_synonym u64 = "64 word"

definition uint16max :: "'a::numeral" where "uint16max = 65535"
definition uint32max :: "'a::numeral" where "uint32max = 4294967295"

lemmas go_limits [simp] = uint16max_def uint32max_def

text \<open>\<open>int64(x)\<close> of a \<open>uint64\<close>, and \<open>uint64(x)\<close> of an \<open>int64\<close>; sums of \<open>int64\<close> values wrap.\<close>

definition int64_of :: "u64 \<Rightarrow> int" where "int64_of w = sint w"
definition uint64_of :: "int \<Rightarrow> u64" where "uint64_of i = word_of_int i"
definition add64 :: "int \<Rightarrow> int \<Rightarrow> int" where "add64 a b = int64_of (uint64_of (a + b))"

definition in_int64 :: "int \<Rightarrow> bool" where
  "in_int64 i \<longleftrightarrow> - (2 ^ 63) \<le> i \<and> i < 2 ^ 63"

lemma int64_uint64_of: "in_int64 i \<Longrightarrow> int64_of (uint64_of i) = i"
  by (simp add: int64_of_def uint64_of_def in_int64_def int_word_sint)

lemma add64_exact: "in_int64 (a + b) \<Longrightarrow> add64 a b = a + b"
  by (simp add: add64_def int64_uint64_of)

lemma uint64_of_nat: "uint64_of (int n) = of_nat n"
  by (simp add: uint64_of_def)

lemma int64_of_small:
  assumes "unat (w::u64) < 2 ^ 63"
  shows "int64_of w = int (unat w)"
proof -
  have "int (unat w) < int (2 ^ 63)" using assms by (subst of_nat_less_iff)
  then have "in_int64 (uint w)"
    by (auto simp: in_int64_def intro: order_trans [OF _ uint_ge_0])
  then show ?thesis using int64_uint64_of [of "uint w"] by (simp add: uint64_of_def)
qed

lemma int64_of_range: "in_int64 (int64_of w)"
  using sint_range_size [of w] by (simp add: in_int64_def int64_of_def word_size)

section \<open>Errors and results\<close>

text \<open>
  The sentinel errors of the package, the errors of \<open>io\<close> it tests for, one constructor for each
  \<open>errors.New\<close> or \<open>fmt.Errorf\<close> it builds on the spot, \<open>IOError n\<close> for whatever a caller's reader or
  writer returns, and \<open>GoPanic\<close>.
\<close>

datatype zip_error =
    ErrFormat | ErrAlgorithm | ErrChecksum | ErrXXH3
  | ErrDecryption | ErrPassword | ErrAuthentication
  | ErrEOF | ErrUnexpectedEOF | ErrShortWrite | ErrNegativeOffset
  | ErrLongName | ErrLongExtra | ErrLongComment
  | ErrTooManyFiles u64 int | ErrCommentLength
  | ErrClosedTwice | ErrFileClosedTwice | ErrWriteClosed
  | ErrWriteAfterClose | ErrReadAfterClose
  | ErrDuplicateHeader | ErrDetached | ErrNotDetached
  | ErrStoreLevel | ErrEncryptMethod | ErrPasswordRequired | ErrEncryptionRequired
  | ErrLevel int | ErrSalt | ErrSaltWrite | ErrAuthcodeWrite
  | ErrKeySize nat
  | ErrRawAES | ErrNoDescriptor | ErrBackwards | ErrNilHeader
  | IOError nat | GoPanic

type_synonym 'a result = "zip_error + 'a"

definition bindR :: "'a result \<Rightarrow> ('a \<Rightarrow> 'b result) \<Rightarrow> 'b result" where
  "bindR m f = (case m of Inl e \<Rightarrow> Inl e | Inr x \<Rightarrow> f x)"

lemma bindR_simps [simp]: "bindR (Inl e) f = Inl e" "bindR (Inr x) f = f x"
  by (simp_all add: bindR_def)

lemma bindR_Inr_iff: "bindR m f = Inr y \<longleftrightarrow> (\<exists>x. m = Inr x \<and> f x = Inr y)"
  by (cases m) auto

definition no_panic :: "'a result \<Rightarrow> bool" where
  "no_panic r \<longleftrightarrow> r \<noteq> Inl GoPanic"

lemma no_panic_simps [simp]:
  "no_panic (Inr x)" "no_panic (Inl e) \<longleftrightarrow> e \<noteq> GoPanic"
  by (simp_all add: no_panic_def)

lemma no_panic_bindR:
  "no_panic m \<Longrightarrow> (\<And>x. m = Inr x \<Longrightarrow> no_panic (f x)) \<Longrightarrow> no_panic (bindR m f)"
  by (cases m) (auto simp: no_panic_def)

text \<open>A slice operation that would panic is \<open>None\<close> where it happens; here it becomes a result.\<close>

definition or_panic :: "'a option \<Rightarrow> 'a result" where
  "or_panic m = (case m of None \<Rightarrow> Inl GoPanic | Some x \<Rightarrow> Inr x)"

lemma or_panic_simps [simp]: "or_panic None = Inl GoPanic" "or_panic (Some x) = Inr x"
  by (simp_all add: or_panic_def)

section \<open>Little-endian integers\<close>

text \<open>
  \<open>binary.LittleEndian.PutUintN\<close> and \<open>UintN\<close>, as the shifts and ors of the Go library. \<open>le_put\<close> and
  \<open>le_get\<close> are the width-independent reference they are equal to.
\<close>

definition put16 :: "u16 \<Rightarrow> byte list" where
  "put16 v = [ucast v, ucast (drop_bit 8 v)]"

definition put32 :: "u32 \<Rightarrow> byte list" where
  "put32 v = [ucast v, ucast (drop_bit 8 v), ucast (drop_bit 16 v), ucast (drop_bit 24 v)]"

definition put64 :: "u64 \<Rightarrow> byte list" where
  "put64 v = [ucast v, ucast (drop_bit 8 v), ucast (drop_bit 16 v), ucast (drop_bit 24 v),
     ucast (drop_bit 32 v), ucast (drop_bit 40 v), ucast (drop_bit 48 v), ucast (drop_bit 56 v)]"

definition get16 :: "byte list \<Rightarrow> u16" where
  "get16 b = ucast (b ! 0) OR push_bit 8 (ucast (b ! 1))"

definition get32 :: "byte list \<Rightarrow> u32" where
  "get32 b = ucast (b ! 0) OR push_bit 8 (ucast (b ! 1)) OR push_bit 16 (ucast (b ! 2))
     OR push_bit 24 (ucast (b ! 3))"

definition get64 :: "byte list \<Rightarrow> u64" where
  "get64 b = ucast (b ! 0) OR push_bit 8 (ucast (b ! 1)) OR push_bit 16 (ucast (b ! 2))
     OR push_bit 24 (ucast (b ! 3)) OR push_bit 32 (ucast (b ! 4)) OR push_bit 40 (ucast (b ! 5))
     OR push_bit 48 (ucast (b ! 6)) OR push_bit 56 (ucast (b ! 7))"

fun le_put :: "nat \<Rightarrow> 'a::len word \<Rightarrow> byte list" where
  "le_put 0 v = []"
| "le_put (Suc k) v = ucast v # le_put k (drop_bit 8 v)"

fun le_get :: "byte list \<Rightarrow> 'a::len word" where
  "le_get [] = 0"
| "le_get (b # bs) = ucast b OR push_bit 8 (le_get bs)"

lemma length_le_put [simp]: "length (le_put k v) = k"
  by (induction k arbitrary: v) auto

lemma le_get_step:
  "ucast (ucast v :: byte) OR push_bit 8 (take_bit n (drop_bit 8 v)) = take_bit (8 + n) (v :: 'a::len word)"
proof (rule bit_word_eqI)
  fix i
  assume "i < LENGTH('a)"
  then show "bit (ucast (ucast v :: byte) OR push_bit 8 (take_bit n (drop_bit 8 v))) i
      \<longleftrightarrow> bit (take_bit (8 + n) v) i"
    by (cases "i < 8") (auto simp: bit_simps)
qed

lemma le_get_put: "le_get (le_put k v) = take_bit (8 * k) (v :: 'a::len word)"
proof (induction k arbitrary: v)
  case (Suc k)
  then show ?case using le_get_step [of v "8 * k"] by simp
qed simp

lemma ucast_take_bit: "8 \<le> n \<Longrightarrow> ucast (take_bit n v) = (ucast (v :: 'a::len word) :: byte)"
  by (intro bit_word_eqI) (auto simp: bit_simps)

lemma le_put_take_bit: "8 * k \<le> n \<Longrightarrow> le_put k (take_bit n (v :: 'a::len word)) = le_put k v"
proof (induction k arbitrary: v n)
  case (Suc k)
  then show ?case
    using Suc.IH [of "n - 8"] by (simp add: drop_bit_take_bit ucast_take_bit)
qed simp

lemma ucast_cons:
  "8 \<le> LENGTH('a) \<Longrightarrow> ucast (ucast b OR push_bit 8 w :: 'a::len word) = (b :: byte)"
  by (intro bit_word_eqI) (auto simp: bit_simps)

lemma drop_bit_cons:
  "drop_bit 8 (ucast (b :: byte) OR push_bit 8 w :: 'a::len word) = take_bit (LENGTH('a) - 8) w"
  by (intro bit_word_eqI) (auto simp: bit_simps dest: bit_imp_le_length)

lemma le_put_get:
  "8 * length bs \<le> LENGTH('a) \<Longrightarrow> le_put (length bs) (le_get bs :: 'a::len word) = bs"
proof (induction bs)
  case (Cons b bs)
  then have "le_put (length bs) (le_get bs :: 'a word) = bs" by simp
  with Cons.prems show ?case
    by (simp add: ucast_cons drop_bit_cons le_put_take_bit del: drop_bit_or)
qed simp

lemma put_le: "put16 v = le_put 2 v" "put32 w = le_put 4 w" "put64 x = le_put 8 x"
  by (simp_all add: put16_def put32_def put64_def eval_nat_numeral)

lemma get16_le: "2 \<le> length b \<Longrightarrow> get16 b = le_get (take 2 b)"
  by (cases b; cases "tl b") (auto simp: get16_def push_bit_or numeral_2_eq_2)

lemma get32_le: "4 \<le> length b \<Longrightarrow> get32 b = le_get (take 4 b)"
  by (auto simp: get32_def push_bit_or eval_nat_numeral Suc_le_length_iff ac_simps)

lemma get64_le: "8 \<le> length b \<Longrightarrow> get64 b = le_get (take 8 b)"
  by (auto simp: get64_def push_bit_or eval_nat_numeral Suc_le_length_iff ac_simps)

lemma length_put [wire, simp]:
  "length (put16 v) = 2" "length (put32 w) = 4" "length (put64 x) = 8"
  by (simp_all add: put_le)

lemma get_put [wire, simp]:
  "get16 (put16 v @ r) = v" "get32 (put32 w @ r) = w" "get64 (put64 x @ r) = x"
  by (simp_all add: put_le get16_le get32_le get64_le le_get_put take_bit_word_eq_self)

lemma get_put_exact [wire, simp]:
  "get16 (put16 v) = v" "get32 (put32 w) = w" "get64 (put64 x) = x"
  by (metis append_Nil2 get_put(1), metis append_Nil2 get_put(2), metis append_Nil2 get_put(3))

lemma put_get:
  "length b = 2 \<Longrightarrow> put16 (get16 b) = b"
  "length b = 4 \<Longrightarrow> put32 (get32 b) = b"
  "length b = 8 \<Longrightarrow> put64 (get64 b) = b"
  using le_put_get [of b, where 'a = 16] le_put_get [of b, where 'a = 32]
    le_put_get [of b, where 'a = 64]
  by (auto simp: put_le get16_le get32_le get64_le)

section \<open>\<open>readBuf\<close> (reader.go)\<close>

text \<open>
  A \<open>readBuf\<close> is the slice that is left; each method returns the value at its front and the rest,
  and panics (\<open>None\<close>) where the slice is too short.
\<close>

definition rb_uint8 :: "byte list \<Rightarrow> (byte \<times> byte list) option" where
  "rb_uint8 b = (if 1 \<le> length b then Some (b ! 0, drop 1 b) else None)"

definition rb_uint16 :: "byte list \<Rightarrow> (u16 \<times> byte list) option" where
  "rb_uint16 b = (if 2 \<le> length b then Some (get16 b, drop 2 b) else None)"

definition rb_uint32 :: "byte list \<Rightarrow> (u32 \<times> byte list) option" where
  "rb_uint32 b = (if 4 \<le> length b then Some (get32 b, drop 4 b) else None)"

definition rb_uint64 :: "byte list \<Rightarrow> (u64 \<times> byte list) option" where
  "rb_uint64 b = (if 8 \<le> length b then Some (get64 b, drop 8 b) else None)"

text \<open>The slice expressions \<open>b[n:]\<close> and \<open>b[:n]\<close>.\<close>

definition slice_from :: "nat \<Rightarrow> byte list \<Rightarrow> byte list option" where
  "slice_from n b = (if n \<le> length b then Some (drop n b) else None)"

definition slice_to :: "nat \<Rightarrow> byte list \<Rightarrow> byte list option" where
  "slice_to n b = (if n \<le> length b then Some (take n b) else None)"

lemma rb_put [wire, simp]:
  "rb_uint16 (put16 v @ r) = Some (v, r)" "rb_uint16 (put16 v) = Some (v, [])"
  "rb_uint32 (put32 w @ r) = Some (w, r)" "rb_uint32 (put32 w) = Some (w, [])"
  "rb_uint64 (put64 x @ r) = Some (x, r)" "rb_uint64 (put64 x) = Some (x, [])"
  by (simp_all add: rb_uint16_def rb_uint32_def rb_uint64_def)

lemma slice_append [wire, simp]:
  "n = length a \<Longrightarrow> slice_from n (a @ r) = Some r"
  "n = length a \<Longrightarrow> slice_to n (a @ r) = Some a"
  by (simp_all add: slice_from_def slice_to_def)

lemma rb_enough:
  "1 \<le> length b \<Longrightarrow> rb_uint8 b = Some (b ! 0, drop 1 b)"
  "2 \<le> length b \<Longrightarrow> rb_uint16 b = Some (get16 b, drop 2 b)"
  "4 \<le> length b \<Longrightarrow> rb_uint32 b = Some (get32 b, drop 4 b)"
  "8 \<le> length b \<Longrightarrow> rb_uint64 b = Some (get64 b, drop 8 b)"
  "n \<le> length b \<Longrightarrow> slice_from n b = Some (drop n b)"
  "n \<le> length b \<Longrightarrow> slice_to n b = Some (take n b)"
  by (simp_all add: rb_uint8_def rb_uint16_def rb_uint32_def rb_uint64_def slice_from_def
      slice_to_def)

section \<open>\<open>writeBuf\<close> (writer.go)\<close>

text \<open>
  A \<open>writeBuf\<close> is a slice of a fixed array: \<open>(done, b)\<close> is the array split at the slice's start, so
  that the array is \<open>done @ b\<close>. Writing past its end panics.
\<close>

type_synonym wbuf = "byte list \<times> byte list"

definition wb_make :: "nat \<Rightarrow> wbuf" where
  "wb_make n = ([], replicate n 0)"

definition wb_put :: "byte list \<Rightarrow> wbuf \<Rightarrow> wbuf option" where
  "wb_put bs wb = (case wb of (d, b) \<Rightarrow>
     if length bs \<le> length b then Some (d @ bs, drop (length bs) b) else None)"

definition wb_uint8 :: "byte \<Rightarrow> wbuf \<Rightarrow> wbuf option" where "wb_uint8 v = wb_put [v]"
definition wb_uint16 :: "u16 \<Rightarrow> wbuf \<Rightarrow> wbuf option" where "wb_uint16 v = wb_put (put16 v)"
definition wb_uint32 :: "u32 \<Rightarrow> wbuf \<Rightarrow> wbuf option" where "wb_uint32 v = wb_put (put32 v)"
definition wb_uint64 :: "u64 \<Rightarrow> wbuf \<Rightarrow> wbuf option" where "wb_uint64 v = wb_put (put64 v)"

text \<open>\<open>b = b[n:]\<close>: the skipped bytes keep what the array holds.\<close>

definition wb_skip :: "nat \<Rightarrow> wbuf \<Rightarrow> wbuf option" where
  "wb_skip n wb = (case wb of (d, b) \<Rightarrow>
     if n \<le> length b then Some (d @ take n b, drop n b) else None)"

text \<open>\<open>buf[:]\<close> and \<open>buf[:len(buf)-len(b)]\<close>.\<close>

definition wb_all :: "wbuf \<Rightarrow> byte list" where "wb_all wb = fst wb @ snd wb"
definition wb_written :: "wbuf \<Rightarrow> byte list" where "wb_written wb = fst wb"

lemma wb_room [wire]:
  "1 \<le> n \<Longrightarrow> wb_uint8 b (d, replicate n 0) = Some (d @ [b], replicate (n - 1) 0)"
  "2 \<le> n \<Longrightarrow> wb_uint16 v (d, replicate n 0) = Some (d @ put16 v, replicate (n - 2) 0)"
  "4 \<le> n \<Longrightarrow> wb_uint32 w (d, replicate n 0) = Some (d @ put32 w, replicate (n - 4) 0)"
  "8 \<le> n \<Longrightarrow> wb_uint64 x (d, replicate n 0) = Some (d @ put64 x, replicate (n - 8) 0)"
  "k \<le> n \<Longrightarrow> wb_skip k (d, replicate n 0) = Some (d @ replicate k 0, replicate (n - k) 0)"
  by (simp_all add: wb_uint8_def wb_uint16_def wb_uint32_def wb_uint64_def wb_put_def wb_skip_def
      min_def)

end
