(* ===== verification/Zip_IO.thy ===== *)
theory Zip_IO
  imports Zip_Prelude
begin

text \<open>
  The \<open>io\<close> interfaces. A writer is a function \<open>wr w p = (n, err, w')\<close> on its own state, a reader a
  function \<open>rd s n\<close> that returns at most \<open>n\<close> bytes, an optional error and the next state, or
  \<open>None\<close> when the call never returns. The readers and writers of the package take the function of
  the one they wrap as an argument, as the Go values hold an interface.

  Concrete ends of a pipeline: \<open>sink\<close>, a destination that may run out of room; \<open>creader\<close>, a source
  that hands out its bytes in arbitrary chunks before its final error; \<open>readerAt\<close>, random access to
  a file of which only a prefix may be readable. \<open>countWriter\<close> (writer.go) is here too, since every
  component writes through one.
\<close>

section \<open>Writers\<close>

type_synonym 'w write_fn = "'w \<Rightarrow> byte list \<Rightarrow> nat \<times> zip_error option \<times> 'w"

text \<open>
  The contract of \<open>io.Writer\<close>: a call without error took all of \<open>p\<close>; a call with an error took the
  \<open>n\<close> bytes it reports. \<open>good\<close> singles out the states from which no call fails.
\<close>

locale io_writer =
  fixes wr :: "'w write_fn" and out :: "'w \<Rightarrow> byte list" and good :: "'w \<Rightarrow> bool"
  assumes write_ok: "wr w p = (n, None, w') \<Longrightarrow> n = length p \<and> out w' = out w @ p"
    and write_err: "wr w p = (n, Some e, w') \<Longrightarrow>
      n \<le> length p \<and> out w' = out w @ take n p"
    and write_good: "good w \<Longrightarrow> \<exists>n w'. wr w p = (n, None, w') \<and> good w'"

context io_writer
begin

lemma write_any:
  assumes "wr w p = (n, e, w')"
  shows "n \<le> length p \<and> out w' = out w @ take n p \<and> (e = None \<longrightarrow> n = length p)
    \<and> (good w \<longrightarrow> e = None \<and> good w')"
proof (cases e)
  case None
  with assms write_ok [of w p n w'] write_good [of w p] show ?thesis by auto
next
  case (Some x)
  with assms write_err [of w p n x w'] write_good [of w p] show ?thesis by auto
qed

end

text \<open>A destination: \<open>sink_room = None\<close> never fails (a \<open>bytes.Buffer\<close>).\<close>

record sink =
  sink_data :: "byte list"
  sink_room :: "nat option"

definition sink_write :: "sink write_fn" where
  "sink_write s p = (case sink_room s of
     None \<Rightarrow> (length p, None, s\<lparr>sink_data := sink_data s @ p\<rparr>)
   | Some r \<Rightarrow>
       if length p \<le> r
       then (length p, None, s\<lparr>sink_data := sink_data s @ p, sink_room := Some (r - length p)\<rparr>)
       else (r, Some (IOError 0), s\<lparr>sink_data := sink_data s @ take r p, sink_room := Some 0\<rparr>))"

definition sink_good :: "sink \<Rightarrow> bool" where
  "sink_good s \<longleftrightarrow> sink_room s = None"

interpretation snk: io_writer sink_write sink_data sink_good
proof
  fix w p n w'
  assume "sink_write w p = (n, None, w')"
  then show "n = length p \<and> sink_data w' = sink_data w @ p"
    by (auto simp: sink_write_def split: option.splits if_splits)
next
  fix w p n e w'
  assume "sink_write w p = (n, Some e, w')"
  then show "n \<le> length p \<and> sink_data w' = sink_data w @ take n p"
    by (auto simp: sink_write_def split: option.splits if_splits)
next
  fix w p
  assume "sink_good w"
  then show "\<exists>n w'. sink_write w p = (n, None, w') \<and> sink_good w'"
    by (simp add: sink_write_def sink_good_def)
qed

definition empty_sink :: sink where
  "empty_sink = \<lparr>sink_data = [], sink_room = None\<rparr>"

lemma empty_sink_simps [simp]:
  "sink_data empty_sink = []" "sink_good empty_sink"
  by (simp_all add: empty_sink_def sink_good_def)

text \<open>
  A sequence of \<open>if _, err := w.Write(p); err != nil { return err }\<close>.
\<close>

fun write_seq :: "'w write_fn \<Rightarrow> byte list list \<Rightarrow> 'w \<Rightarrow> zip_error option \<times> 'w" where
  "write_seq wr [] w = (None, w)"
| "write_seq wr (p # ps) w = (case wr w p of
     (n, Some e, w') \<Rightarrow> (Some e, w')
   | (n, None, w') \<Rightarrow> write_seq wr ps w')"

context io_writer
begin

lemma write_seq_ok:
  "write_seq wr ps w = (None, w') \<Longrightarrow> out w' = out w @ concat ps"
  by (induction ps arbitrary: w) (auto split: prod.splits option.splits dest: write_ok)

lemma write_seq_prefix:
  "write_seq wr ps w = (e, w') \<Longrightarrow> \<exists>k. out w' = out w @ take k (concat ps)"
proof (induction ps arbitrary: w)
  case (Cons p ps)
  show ?case
  proof (cases "wr w p")
    case (fields n err w1)
    show ?thesis
    proof (cases err)
      case None
      then have "out w1 = out w @ p" using fields write_ok by blast
      moreover obtain k where "out w' = out w1 @ take k (concat ps)"
        using Cons fields None by force
      ultimately have "out w' = out w @ take (length p + k) (concat (p # ps))" by simp
      then show ?thesis by blast
    next
      case (Some e1)
      with fields Cons.prems obtain k where "out w' = out w @ take k p"
        using write_err [of w p n e1 w1] by auto
      then have "out w' = out w @ take (min k (length p)) (concat (p # ps))"
        by (simp add: min_def)
      then show ?thesis by blast
    qed
  qed
qed auto

lemma write_seq_good:
  "good w \<Longrightarrow> \<exists>w'. write_seq wr ps w = (None, w') \<and> good w' \<and> out w' = out w @ concat ps"
proof (induction ps arbitrary: w)
  case (Cons p ps)
  from write_good [OF Cons.prems, of p] obtain n w1 where w1: "wr w p = (n, None, w1)" "good w1"
    by blast
  with Cons.IH [of w1] write_ok [OF w1(1)] show ?case by auto
qed auto

end

text \<open>
  The same contract for a writer that transforms what it is given: \<open>rel w acc\<close> says that the writer
  is in a state in which it has taken exactly the bytes \<open>acc\<close> since it was made. Every \<open>io_writer\<close>
  is one, for any bytes already there.
\<close>

locale accepting =
  fixes wr :: "'w write_fn" and rel :: "'w \<Rightarrow> byte list \<Rightarrow> bool" and good :: "'w \<Rightarrow> bool"
  assumes accept_ok: "rel w acc \<Longrightarrow> wr w p = (n, None, w') \<Longrightarrow> n = length p \<and> rel w' (acc @ p)"
    and accept_good: "rel w acc \<Longrightarrow> good w \<Longrightarrow> \<exists>n w'. wr w p = (n, None, w') \<and> good w'"
begin

lemma write_seq_accept:
  "rel w acc \<Longrightarrow> good w \<Longrightarrow>
     \<exists>w'. write_seq wr ps w = (None, w') \<and> good w' \<and> rel w' (acc @ concat ps)"
proof (induction ps arbitrary: w acc)
  case (Cons p ps)
  from accept_good [OF Cons.prems, of p] obtain n w1 where
    w1: "wr w p = (n, None, w1)" "good w1" by blast
  with accept_ok [OF Cons.prems(1) w1(1)] Cons.IH [of w1 "acc @ p"] show ?case by auto
qed auto

lemma write_accept:
  "rel w acc \<Longrightarrow> good w \<Longrightarrow>
     \<exists>w'. wr w p = (length p, None, w') \<and> good w' \<and> rel w' (acc @ p)"
  using accept_good accept_ok by metis

end

sublocale io_writer \<subseteq> plain: accepting wr "\<lambda>w acc. out w = base @ acc" good for base
  by unfold_locales (auto dest: write_ok write_good)

subsection \<open>\<open>countWriter\<close> (writer.go)\<close>

record 'w countWriter =
  cw_w :: 'w
  cw_count :: int

definition countWriter_Write :: "'w write_fn \<Rightarrow> 'w countWriter write_fn" where
  "countWriter_Write wr w p = (case wr (cw_w w) p of
     (n, err, w') \<Rightarrow> (n, err, w\<lparr>cw_w := w', cw_count := add64 (cw_count w) (int n)\<rparr>))"

text \<open>A counting writer keeps the contract of the writer it wraps.\<close>

locale counted_writer = io_writer wr out good
  for wr :: "'w write_fn" and out :: "'w \<Rightarrow> byte list" and good :: "'w \<Rightarrow> bool"

sublocale counted_writer \<subseteq>
  cnt: io_writer "countWriter_Write wr" "\<lambda>w. out (cw_w w)" "\<lambda>w. good (cw_w w)"
proof
  fix w p n w'
  assume "countWriter_Write wr w p = (n, None, w')"
  then show "n = length p \<and> out (cw_w w') = out (cw_w w) @ p"
    by (auto simp: countWriter_Write_def split: prod.splits dest: write_ok)
next
  fix w p n e w'
  assume "countWriter_Write wr w p = (n, Some e, w')"
  then show "n \<le> length p \<and> out (cw_w w') = out (cw_w w) @ take n p"
    by (auto simp: countWriter_Write_def split: prod.splits dest: write_err)
next
  fix w :: "'w countWriter" and p
  assume "good (cw_w w)"
  then show "\<exists>n w'. countWriter_Write wr w p = (n, None, w') \<and> good (cw_w w')"
    using write_good [of "cw_w w" p] by (auto simp: countWriter_Write_def)
qed

context counted_writer
begin

lemma count_ok:
  "countWriter_Write wr w p = (n, None, w') \<Longrightarrow> cw_count w' = add64 (cw_count w) (int (length p))"
  by (auto simp: countWriter_Write_def split: prod.splits dest: write_ok)

end

interpretation csnk: counted_writer sink_write sink_data sink_good
  by unfold_locales

section \<open>Readers\<close>

type_synonym 's read_fn = "'s \<Rightarrow> nat \<Rightarrow> (byte list \<times> zip_error option \<times> 's) option"

text \<open>
  The contract of \<open>io.Reader\<close>, for a source with finitely many bytes \<open>stream s\<close> followed by the error
  \<open>fin s\<close>: a call returns at most as many bytes as asked for, the next of the stream; it reports
  the final error once nothing is left, and every call without error makes progress.
\<close>

locale io_reader =
  fixes rd :: "'s read_fn" and inv :: "'s \<Rightarrow> bool" and stream :: "'s \<Rightarrow> byte list"
    and fin :: "'s \<Rightarrow> zip_error" and rank :: "'s \<Rightarrow> nat"
  assumes read_returns: "inv s \<Longrightarrow> 0 < n \<Longrightarrow> \<exists>d e s'. rd s n = Some (d, e, s')"
    and read_law: "inv s \<Longrightarrow> 0 < n \<Longrightarrow> rd s n = Some (d, e, s') \<Longrightarrow>
      inv s' \<and> length d \<le> n \<and> stream s = d @ stream s' \<and> fin s' = fin s \<and> rank s' \<le> rank s"
    and read_end: "inv s \<Longrightarrow> 0 < n \<Longrightarrow> rd s n = Some (d, Some err, s') \<Longrightarrow>
      err = fin s \<and> stream s' = []"
    and read_more: "inv s \<Longrightarrow> 0 < n \<Longrightarrow> rd s n = Some (d, None, s') \<Longrightarrow> rank s' < rank s"

text \<open>
  A source that returns its chunks one by one, splitting those that do not fit (an empty chunk is a
  \<open>Read\<close> of \<open>0, nil\<close>), and then its final error for ever; with \<open>cr_eager\<close> the error comes with the
  last bytes.
\<close>

record creader =
  cr_chunks :: "byte list list"
  cr_end :: zip_error
  cr_eager :: bool

definition creader_Read :: "creader read_fn" where
  "creader_Read r n = Some (case cr_chunks r of
     [] \<Rightarrow> ([], Some (cr_end r), r)
   | c # cs \<Rightarrow>
       if length c \<le> n
       then (c, (if cs = [] \<and> cr_eager r then Some (cr_end r) else None), r\<lparr>cr_chunks := cs\<rparr>)
       else (take n c, None, r\<lparr>cr_chunks := drop n c # cs\<rparr>))"

definition creader_stream :: "creader \<Rightarrow> byte list" where
  "creader_stream r = concat (cr_chunks r)"

definition creader_rank :: "creader \<Rightarrow> nat" where
  "creader_rank r = length (concat (cr_chunks r)) + length (cr_chunks r)"

interpretation cr: io_reader creader_Read "\<lambda>_. True" creader_stream cr_end creader_rank
proof (unfold_locales, goal_cases)
  case (1 s n)
  then show ?case by (simp add: creader_Read_def split: list.splits)
next
  case (2 s n d e s')
  then show ?case
    by (auto simp: creader_Read_def creader_stream_def creader_rank_def split: list.splits if_splits)
next
  case (3 s n d err s')
  then show ?case
    by (auto simp: creader_Read_def creader_stream_def split: list.splits if_splits)
next
  case (4 s n d s')
  then show ?case
    by (auto simp: creader_Read_def creader_rank_def split: list.splits if_splits)
qed

text \<open>A source over given bytes: \<open>bytes.Reader\<close>, or the section of a file.\<close>

definition bytes_creader :: "byte list \<Rightarrow> zip_error \<Rightarrow> creader" where
  "bytes_creader bs e =
     \<lparr>cr_chunks = (if bs = [] then [] else [bs]), cr_end = e, cr_eager = False\<rparr>"

lemma bytes_creader_simps [simp]:
  "creader_stream (bytes_creader bs e) = bs" "cr_end (bytes_creader bs e) = e"
  by (simp_all add: bytes_creader_def creader_stream_def)

subsection \<open>\<open>io.ReadFull\<close>\<close>

partial_function (option) readFull_loop ::
  "'s read_fn \<Rightarrow> nat \<Rightarrow> byte list \<Rightarrow> 's \<Rightarrow> (byte list \<times> zip_error option \<times> 's) option" where
  "readFull_loop rd need acc s =
     (if length acc < need then do {
        (d, e, s') \<leftarrow> rd s (need - length acc);
        (case e of
           None \<Rightarrow> readFull_loop rd need (acc @ d) s'
         | Some err \<Rightarrow> Some (acc @ d, Some err, s'))
      } else Some (acc, None, s))"

definition io_ReadFull ::
  "'s read_fn \<Rightarrow> nat \<Rightarrow> 's \<Rightarrow> (byte list \<times> zip_error option \<times> 's) option" where
  "io_ReadFull rd need s = do {
     (d, e, s') \<leftarrow> readFull_loop rd need [] s;
     Some (d, (if need \<le> length d then None
               else if 0 < length d \<and> e = Some ErrEOF then Some ErrUnexpectedEOF
               else e), s') }"

definition readFull_err :: "nat \<Rightarrow> byte list \<Rightarrow> zip_error \<Rightarrow> zip_error option" where
  "readFull_err need bs e =
     (if need \<le> length bs then None
      else if 0 < length bs \<and> e = ErrEOF then Some ErrUnexpectedEOF else Some e)"

context io_reader
begin

lemma readFull_loop_spec:
  "inv s \<Longrightarrow> length acc \<le> need \<Longrightarrow> \<exists>e s'.
     readFull_loop rd need acc s = Some (acc @ take (need - length acc) (stream s), e, s')
     \<and> inv s' \<and> fin s' = fin s \<and> rank s' \<le> rank s \<and> stream s' = drop (need - length acc) (stream s)
     \<and> (length acc + length (stream s) < need \<longrightarrow> e = Some (fin s))"
proof (induction "rank s" arbitrary: s acc rule: less_induct)
  case less
  show ?case
  proof (cases "length acc < need")
    case False
    with less.prems show ?thesis by (simp add: readFull_loop.simps)
  next
    case True
    let ?n = "need - length acc"
    from True less.prems obtain d e s' where r: "rd s ?n = Some (d, e, s')"
      using read_returns by (metis zero_less_diff)
    with True less.prems have l: "inv s'" "length d \<le> ?n" "stream s = d @ stream s'" "fin s' = fin s"
        "rank s' \<le> rank s"
      using read_law [OF _ _ r] by auto
    show ?thesis
    proof (cases e)
      case (Some err)
      with r True less.prems have "err = fin s" "stream s' = []"
        using read_end by (metis zero_less_diff)+
      with r True l Some show ?thesis
        by (subst (1) readFull_loop.simps) auto
    next
      case None
      with r True less.prems have "rank s' < rank s" using read_more by (metis zero_less_diff)
      moreover have "length (acc @ d) \<le> need" using l True by simp
      ultimately obtain e2 s2 where
        "readFull_loop rd need (acc @ d) s' =
           Some ((acc @ d) @ take (need - length (acc @ d)) (stream s'), e2, s2)"
        "inv s2" "fin s2 = fin s'" "rank s2 \<le> rank s'" "stream s2 = drop (need - length (acc @ d)) (stream s')"
        "length (acc @ d) + length (stream s') < need \<longrightarrow> e2 = Some (fin s')"
        using less.hyps l(1) by blast
      with r True l None show ?thesis
        by (subst (1) readFull_loop.simps) auto
    qed
  qed
qed

lemma ReadFull_spec [io_law]:
  assumes "inv s"
  obtains s' where
    "io_ReadFull rd n s = Some (take n (stream s), readFull_err n (stream s) (fin s), s')"
    "inv s'" "fin s' = fin s" "rank s' \<le> rank s" "stream s' = drop n (stream s)"
proof -
  obtain e s' where *:
    "readFull_loop rd n [] s = Some (take n (stream s), e, s')"
    "inv s'" "fin s' = fin s" "rank s' \<le> rank s" "stream s' = drop n (stream s)"
    "length (stream s) < n \<longrightarrow> e = Some (fin s)"
    using readFull_loop_spec [OF assms, of "[]" n] by auto
  then have "io_ReadFull rd n s = Some (take n (stream s), readFull_err n (stream s) (fin s), s')"
    by (auto simp: io_ReadFull_def readFull_err_def min_def)
  with * that show ?thesis by blast
qed

end

subsection \<open>\<open>io.LimitedReader\<close>\<close>

record 's limited =
  lim_R :: 's
  lim_N :: int

definition limited_Read :: "'s read_fn \<Rightarrow> 's limited read_fn" where
  "limited_Read rd l n =
     (if lim_N l \<le> 0 then Some ([], Some ErrEOF, l)
      else do {
        (d, e, r) \<leftarrow> rd (lim_R l) (min n (nat (lim_N l)));
        Some (d, e, l\<lparr>lim_R := r, lim_N := lim_N l - int (length d)\<rparr>) })"

text \<open>
  Over a source that ends in \<open>io.EOF\<close>, a limited reader is a source of the first \<open>N\<close> bytes.
\<close>

locale limited_source = io_reader rd inv stream fin rank
  for rd :: "'s read_fn" and inv :: "'s \<Rightarrow> bool" and stream :: "'s \<Rightarrow> byte list"
    and fin :: "'s \<Rightarrow> zip_error" and rank :: "'s \<Rightarrow> nat"

sublocale limited_source \<subseteq> lim: io_reader "limited_Read rd"
  "\<lambda>l. inv (lim_R l) \<and> fin (lim_R l) = ErrEOF"
  "\<lambda>l. take (nat (lim_N l)) (stream (lim_R l))" "\<lambda>_. ErrEOF" "\<lambda>l. rank (lim_R l)"
proof (unfold_locales, goal_cases)
  case (1 l n)
  then show ?case
    using read_returns [of "lim_R l" "min n (nat (lim_N l))"] by (auto simp: limited_Read_def)
next
  case (2 l n d e l')
  show ?case
  proof (cases "lim_N l \<le> 0")
    case False
    with 2 obtain r where r: "rd (lim_R l) (min n (nat (lim_N l))) = Some (d, e, r)"
      and l': "l' = l\<lparr>lim_R := r, lim_N := lim_N l - int (length d)\<rparr>"
      by (auto simp: limited_Read_def bind_eq_Some_conv split: prod.splits)
    from False 2 have "inv r \<and> length d \<le> min n (nat (lim_N l)) \<and> stream (lim_R l) = d @ stream r
        \<and> fin r = fin (lim_R l) \<and> rank r \<le> rank (lim_R l)"
      by (intro read_law [OF _ _ r]) auto
    moreover have "nat (lim_N l - int (length d)) = nat (lim_N l) - length d" by simp
    ultimately show ?thesis using 2 l' by simp
  qed (use 2 in \<open>auto simp: limited_Read_def\<close>)
next
  case (3 l n d err l')
  show ?case
  proof (cases "lim_N l \<le> 0")
    case False
    with 3 obtain r where r: "rd (lim_R l) (min n (nat (lim_N l))) = Some (d, Some err, r)"
      and l': "l' = l\<lparr>lim_R := r, lim_N := lim_N l - int (length d)\<rparr>"
      by (auto simp: limited_Read_def bind_eq_Some_conv split: prod.splits)
    from False 3 have "err = fin (lim_R l) \<and> stream r = []"
      by (intro read_end [OF _ _ r]) auto
    with 3 l' show ?thesis by simp
  qed (use 3 in \<open>auto simp: limited_Read_def\<close>)
next
  case (4 l n d l')
  show ?case
  proof (cases "lim_N l \<le> 0")
    case False
    with 4 obtain r where r: "rd (lim_R l) (min n (nat (lim_N l))) = Some (d, None, r)"
      and l': "l' = l\<lparr>lim_R := r, lim_N := lim_N l - int (length d)\<rparr>"
      by (auto simp: limited_Read_def bind_eq_Some_conv split: prod.splits)
    from False 4 have "rank r < rank (lim_R l)"
      by (intro read_more [OF _ _ r]) auto
    with l' show ?thesis by simp
  qed (use 4 in \<open>auto simp: limited_Read_def\<close>)
qed

interpretation lcr: limited_source creader_Read "\<lambda>_. True" creader_stream cr_end creader_rank
  by unfold_locales

section \<open>\<open>io.Copy\<close>\<close>

text \<open>
  The loop of \<open>io.Copy\<close> with a buffer of \<open>k\<close> bytes (32 KiB, less for a short \<open>LimitedReader\<close>): the
  result is the count, the error (\<open>None\<close> at \<open>io.EOF\<close>) and the two ends' states.
\<close>

partial_function (option) io_Copy ::
  "'w write_fn \<Rightarrow> 's read_fn \<Rightarrow> nat \<Rightarrow> nat \<Rightarrow> 'w \<Rightarrow> 's
     \<Rightarrow> (nat \<times> zip_error option \<times> 'w \<times> 's) option" where
  "io_Copy wr rd k written w s = do {
     (d, er, s') \<leftarrow> rd s k;
     (let (nw, ew, w') = (if d = [] then (0, None, w) else wr w d)
      in case ew of
           Some e \<Rightarrow> Some (written + nw, Some e, w', s')
         | None \<Rightarrow>
             if nw \<noteq> length d then Some (written + nw, Some ErrShortWrite, w', s')
             else (case er of
                 None \<Rightarrow> io_Copy wr rd k (written + nw) w' s'
               | Some e \<Rightarrow> Some (written + nw, (if e = ErrEOF then None else Some e), w', s')))
   }"

locale io_pipe =
  src: io_reader rd inv stream fin rank + dst: io_writer wr out good
  for rd :: "'s read_fn" and inv :: "'s \<Rightarrow> bool" and stream :: "'s \<Rightarrow> byte list"
    and fin :: "'s \<Rightarrow> zip_error" and rank :: "'s \<Rightarrow> nat"
    and wr :: "'w write_fn" and out :: "'w \<Rightarrow> byte list" and good :: "'w \<Rightarrow> bool"
begin

text \<open>
  Copying always returns. Without error, everything was copied and the source ended in \<open>io.EOF\<close>;
  with one, a prefix of the source was. A destination that cannot fail gets everything.
\<close>

lemma write_piece:
  obtains nw ew w' where "(if d = [] then (0, None, w) else wr w d) = (nw, ew, w')"
    "ew = None \<Longrightarrow> nw = length d \<and> out w' = out w @ d"
    "ew \<noteq> None \<Longrightarrow> \<exists>k. out w' = out w @ take k d"
    "good w \<Longrightarrow> ew = None \<and> good w'"
proof (cases "d = []")
  case True
  then show ?thesis using that by force
next
  case False
  obtain nw ew w' where w: "wr w d = (nw, ew, w')" by (cases "wr w d") auto
  show ?thesis
  proof (rule that)
    show "(if d = [] then (0, None, w) else wr w d) = (nw, ew, w')" using False w by simp
    show "ew = None \<Longrightarrow> nw = length d \<and> out w' = out w @ d"
      using w dst.write_ok by blast
    show "ew \<noteq> None \<Longrightarrow> \<exists>k. out w' = out w @ take k d"
      using w dst.write_err by blast
    show "good w \<Longrightarrow> ew = None \<and> good w'"
      using w dst.write_good [of w d] by auto
  qed
qed

lemma Copy_spec [io_law]:
  "inv s \<Longrightarrow> 0 < k \<Longrightarrow> \<exists>n e w' s'. io_Copy wr rd k m w s = Some (n, e, w', s')
     \<and> (e = None \<longrightarrow> out w' = out w @ stream s \<and> fin s = ErrEOF \<and> n = m + length (stream s)
          \<and> inv s' \<and> stream s' = [])
     \<and> (\<exists>j. out w' = out w @ take j (stream s))
     \<and> (good w \<longrightarrow> good w' \<and> out w' = out w @ stream s \<and> inv s' \<and> stream s' = []
          \<and> e = (if fin s = ErrEOF then None else Some (fin s)))"
proof (induction "rank s" arbitrary: s m w rule: less_induct)
  case less
  from less.prems obtain d er s' where r: "rd s k = Some (d, er, s')"
    using src.read_returns by blast
  with less.prems have l: "inv s'" "stream s = d @ stream s'" "fin s' = fin s"
    using src.read_law by blast+
  obtain nw ew w' where p: "(if d = [] then (0, None, w) else wr w d) = (nw, ew, w')"
    "ew = None \<Longrightarrow> nw = length d \<and> out w' = out w @ d"
    "ew \<noteq> None \<Longrightarrow> \<exists>k. out w' = out w @ take k d"
    "good w \<Longrightarrow> ew = None \<and> good w'"
    using write_piece by blast
  show ?case
  proof (cases ew)
    case (Some e)
    then have "io_Copy wr rd k m w s = Some (m + nw, Some e, w', s')"
      using r p(1) by (subst io_Copy.simps) simp
    moreover obtain j where "out w' = out w @ take j d" using Some p(3) by blast
    then have "out w' = out w @ take (min j (length d)) (stream s)"
      using l(2) by (simp add: min_def)
    ultimately show ?thesis using Some p(4) by blast
  next
    case None
    with p(2) have n: "nw = length d" "out w' = out w @ d" by auto
    show ?thesis
    proof (cases er)
      case (Some e)
      with r less.prems have "e = fin s" "stream s' = []" using src.read_end by blast+
      moreover have "io_Copy wr rd k m w s =
          Some (m + nw, (if e = ErrEOF then None else Some e), w', s')"
        using r p(1) None Some n by (subst io_Copy.simps) simp
      moreover have "out w' = out w @ take (length d) (stream s)" using l(2) n by simp
      then have "\<exists>j. out w' = out w @ take j (stream s)" by blast
      ultimately show ?thesis using l(1,2) n p(4) None by simp
    next
      case er: None
      then have "rank s' < rank s" using r less.prems src.read_more by blast
      from less.hyps [OF this l(1) less.prems(2), of "m + nw" w']
      obtain n2 e2 w2 s2 where c: "io_Copy wr rd k (m + nw) w' s' = Some (n2, e2, w2, s2)"
        "e2 = None \<longrightarrow> out w2 = out w' @ stream s' \<and> fin s' = ErrEOF \<and> n2 = m + nw + length (stream s')
          \<and> inv s2 \<and> stream s2 = []"
        "\<exists>j. out w2 = out w' @ take j (stream s')"
        "good w' \<longrightarrow> good w2 \<and> out w2 = out w' @ stream s' \<and> inv s2 \<and> stream s2 = []
          \<and> e2 = (if fin s' = ErrEOF then None else Some (fin s'))"
        by blast
      have "io_Copy wr rd k m w s = Some (n2, e2, w2, s2)"
        using r p(1) None er n c(1) by (subst io_Copy.simps) simp
      moreover have "e2 = None \<longrightarrow> out w2 = out w @ stream s \<and> fin s = ErrEOF
          \<and> n2 = m + length (stream s) \<and> inv s2 \<and> stream s2 = []"
        using c(2) by (simp only: l n length_append append_assoc add.assoc simp_thms)
      moreover obtain j where "out w2 = out w' @ take j (stream s')" using c(3) by blast
      then have "out w2 = out w @ take (length d + j) (stream s)" using l n by simp
      then have "\<exists>j. out w2 = out w @ take j (stream s)" by blast
      moreover have "good w \<longrightarrow> good w2 \<and> out w2 = out w @ stream s \<and> inv s2 \<and> stream s2 = []
          \<and> e2 = (if fin s = ErrEOF then None else Some (fin s))"
        using c(4) p(4) by (simp only: l n append_assoc) blast
      ultimately show ?thesis by blast
    qed
  qed
qed

end

interpretation crs: io_pipe creader_Read "\<lambda>_. True" creader_stream cr_end creader_rank
  sink_write sink_data sink_good
  by unfold_locales

end
