(* ===== verification/Zip_Section.thy ===== *)
theory Zip_Section
  imports Zip_IO
begin

text \<open>
  Random access: \<open>io.ReaderAt\<close> and \<open>io.SectionReader\<close>, through which reader.go and crypto.go see an
  archive. \<open>ReadAt\<close> neither moves nor changes anything, so a \<open>ReaderAt\<close> is a function from a length
  and an offset to the bytes read and an optional error.
\<close>

type_synonym read_at = "nat \<Rightarrow> int \<Rightarrow> byte list \<times> zip_error option"

text \<open>A file in memory or on disk: \<open>bytes.Reader\<close>, \<open>os.File\<close>.\<close>

definition file_at :: "byte list \<Rightarrow> read_at" where
  "file_at D n off =
     (if off < 0 then ([], Some ErrNegativeOffset)
      else if int (length D) \<le> off then ([], Some ErrEOF)
      else let d = take n (drop (nat off) D)
           in (d, if length d < n then Some ErrEOF else None))"

record section_reader =
  sec_r :: read_at
  sec_base :: int
  sec_off :: int
  sec_limit :: int

definition maxint64 :: int where "maxint64 = 2 ^ 63 - 1"

text \<open>\<open>maxint64 - n\<close> wraps for a negative \<open>n\<close>, as it does in Go.\<close>

definition NewSectionReader :: "read_at \<Rightarrow> int \<Rightarrow> int \<Rightarrow> section_reader" where
  "NewSectionReader r off n =
     (let remaining = (if off \<le> add64 maxint64 (- n) then add64 n off else maxint64)
      in \<lparr>sec_r = r, sec_base = off, sec_off = off, sec_limit = remaining\<rparr>)"

definition section_Read :: "section_reader read_fn" where
  "section_Read s n = Some
     (if sec_limit s \<le> sec_off s then ([], Some ErrEOF, s)
      else case sec_r s (min n (nat (sec_limit s - sec_off s))) (sec_off s) of
             (d, e) \<Rightarrow> (d, e, s\<lparr>sec_off := sec_off s + int (length d)\<rparr>))"

definition section_ReadAt :: "section_reader \<Rightarrow> read_at" where
  "section_ReadAt s n off =
     (if off < 0 \<or> sec_limit s - sec_base s \<le> off then ([], Some ErrEOF)
      else let off = off + sec_base s; m = sec_limit s - off in
        if m < int n then
          (case sec_r s (nat m) off of (d, e) \<Rightarrow> (d, if e = None then Some ErrEOF else e))
        else sec_r s n off)"

text \<open>
  The law of a source of the bytes \<open>D\<close>: a read inside them is complete, one that reaches past their
  end is cut short there and reports \<open>io.EOF\<close>.
\<close>

locale random_access =
  fixes ra :: read_at and D :: "byte list"
  assumes read_at_law: "0 \<le> off \<Longrightarrow> 0 < n \<Longrightarrow>
    ra n off = (take n (drop (nat off) D),
      if length (take n (drop (nat off) D)) < n then Some ErrEOF else None)"

interpretation fil: random_access "file_at D" D for D
  by unfold_locales (auto simp: file_at_def Let_def)

definition section_bytes :: "byte list \<Rightarrow> section_reader \<Rightarrow> byte list" where
  "section_bytes D s = take (nat (sec_limit s - sec_off s)) (drop (nat (sec_off s)) D)"

context random_access
begin

lemma section_Read_step:
  assumes "sec_r s = ra" "0 \<le> sec_off s" "0 < n" "sec_off s < sec_limit s"
  defines "m \<equiv> min n (nat (sec_limit s - sec_off s))"
  defines "d \<equiv> take m (drop (nat (sec_off s)) D)"
  shows "section_Read s n =
    Some (d, if length d < m then Some ErrEOF else None, s\<lparr>sec_off := sec_off s + int (length d)\<rparr>)"
proof -
  have "ra m (sec_off s) = (d, if length d < m then Some ErrEOF else None)"
    unfolding d_def by (rule read_at_law) (use assms(2-4) in \<open>auto simp: m_def\<close>)
  with assms show ?thesis by (simp add: section_Read_def)
qed

lemma section_Read_cases:
  assumes "sec_r s = ra" "0 \<le> sec_off s" "0 < n" "sec_off s < sec_limit s"
    and "section_Read s n = Some (d, e, s')"
  obtains m where "0 < m" "m \<le> n" "m \<le> nat (sec_limit s - sec_off s)"
    "d = take m (drop (nat (sec_off s)) D)" "e = (if length d < m then Some ErrEOF else None)"
    "s' = s\<lparr>sec_off := sec_off s + int (length d)\<rparr>"
proof -
  define m where "m = min n (nat (sec_limit s - sec_off s))"
  have "0 < m" "m \<le> n" "m \<le> nat (sec_limit s - sec_off s)" using assms(3,4) by (auto simp: m_def)
  with section_Read_step [OF assms(1-4), folded m_def] assms(5) that show ?thesis by simp
qed

lemma section_Read_stop:
  "sec_limit s \<le> sec_off s \<Longrightarrow> section_Read s n = Some ([], Some ErrEOF, s)"
  by (simp add: section_Read_def)

end

text \<open>A section is a source of its bytes, as an \<open>io.Reader\<close> and as an \<open>io.ReaderAt\<close>.\<close>

sublocale random_access \<subseteq> sec: io_reader section_Read "\<lambda>s. sec_r s = ra \<and> 0 \<le> sec_off s"
  "section_bytes D" "\<lambda>_. ErrEOF" "\<lambda>s. nat (sec_limit s - sec_off s)"
proof (unfold_locales, goal_cases)
  case (1 s n)
  then show ?case by (auto simp: section_Read_def split: prod.splits)
next
  case (2 s n d e s')
  show ?case
  proof (cases "sec_limit s \<le> sec_off s")
    case True
    with 2 show ?thesis by (auto simp: section_Read_def)
  next
    case False
    then have lim: "sec_off s < sec_limit s" by simp
    from 2 obtain m where m: "m \<le> n" "m \<le> nat (sec_limit s - sec_off s)"
      "d = take m (drop (nat (sec_off s)) D)" and s': "s' = s\<lparr>sec_off := sec_off s + int (length d)\<rparr>"
      using section_Read_cases [OF _ _ _ lim] by metis
    let ?b = "drop (nat (sec_off s)) D" and ?m = "nat (sec_limit s - sec_off s)"
    have "nat (sec_off s + int (length d)) = nat (sec_off s) + length d"
      using 2 by (simp add: nat_add_distrib)
    moreover have "nat (sec_limit s - (sec_off s + int (length d))) = ?m - length d"
      by (simp add: nat_diff_distrib')
    moreover have "take (length d) (take ?m ?b) = d"
      using m by (simp add: min_def)
    moreover have "drop (length d) (take ?m ?b) = take (?m - length d) (drop (length d) ?b)"
      by (simp add: drop_take)
    ultimately have "section_bytes D s = d @ section_bytes D s'"
      using append_take_drop_id [of "length d" "take ?m ?b"]
      by (simp add: section_bytes_def s' add.commute)
    moreover have "length d \<le> n" using m by simp
    ultimately show ?thesis using 2 s' by simp
  qed
next
  case (3 s n d err s')
  show ?case
  proof (cases "sec_limit s \<le> sec_off s")
    case True
    with 3 show ?thesis by (auto simp: section_Read_def section_bytes_def)
  next
    case False
    then have lim: "sec_off s < sec_limit s" by simp
    from 3 obtain m where m: "d = take m (drop (nat (sec_off s)) D)"
      "Some err = (if length d < m then Some ErrEOF else None)"
      and s': "s' = s\<lparr>sec_off := sec_off s + int (length d)\<rparr>"
      using section_Read_cases [OF _ _ _ lim] by metis
    then have d: "err = ErrEOF" "length d < m" by (auto split: if_splits)
    then have "length D \<le> nat (sec_off s) + length d" using m by simp
    then have "length D \<le> nat (sec_off s + int (length d))" using 3 by (simp add: nat_add_distrib)
    then show ?thesis using d s' by (simp add: section_bytes_def)
  qed
next
  case (4 s n d s')
  then have lim: "sec_off s < sec_limit s" by (auto simp: section_Read_def split: if_splits)
  from 4 obtain m where m: "0 < m" "None = (if length d < m then Some ErrEOF else None)"
    and s': "s' = s\<lparr>sec_off := sec_off s + int (length d)\<rparr>"
    using section_Read_cases [OF _ _ _ lim] by metis
  then have "0 < length d" by (cases "length d < m") auto
  then show ?case using s' lim by auto
qed

context random_access
begin

lemma section_ReadAt_law:
  assumes "sec_r s = ra" "0 \<le> sec_base s" "0 \<le> off" "0 < n"
  defines "S \<equiv> take (nat (sec_limit s - sec_base s)) (drop (nat (sec_base s)) D)"
  shows "section_ReadAt s n off = (take n (drop (nat off) S),
      if length (take n (drop (nat off) S)) < n then Some ErrEOF else None)"
proof (cases "sec_limit s - sec_base s \<le> off")
  case True
  with assms show ?thesis by (simp add: section_ReadAt_def)
next
  case False
  let ?m = "sec_limit s - (off + sec_base s)"
  have o: "nat (off + sec_base s) = nat (sec_base s) + nat off"
    using assms by (simp add: nat_add_distrib add.commute)
  have m: "nat (sec_limit s - sec_base s) - nat off = nat ?m"
    using assms False by (simp add: nat_diff_distrib' algebra_simps)
  have S: "drop (nat off) S = take (nat ?m) (drop (nat (off + sec_base s)) D)"
    by (simp add: S_def drop_take m o add.commute)
  show ?thesis
  proof (cases "?m < int n")
    case True
    have "ra (nat ?m) (off + sec_base s) = (drop (nat off) S,
        if length (drop (nat off) S) < nat ?m then Some ErrEOF else None)"
      unfolding S by (rule read_at_law) (use assms False in auto)
    moreover have "nat ?m < n" using True assms(4) by linarith
    then have "length (drop (nat off) S) < n" unfolding S by (simp add: min_less_iff_disj)
    ultimately show ?thesis
      using True False assms(1,3) by (auto simp: section_ReadAt_def Let_def)
  next
    case l: False
    have "ra n (off + sec_base s) = (take n (drop (nat (off + sec_base s)) D),
        if length (take n (drop (nat (off + sec_base s)) D)) < n then Some ErrEOF else None)"
      by (rule read_at_law) (use assms in auto)
    moreover have "n \<le> nat ?m" using l by linarith
    then have "take n (drop (nat off) S) = take n (drop (nat (off + sec_base s)) D)"
      unfolding S using l by (simp add: min_def)
    ultimately show ?thesis
      using False l assms(1,3) by (simp add: section_ReadAt_def Let_def)
  qed
qed

end

lemma NewSectionReader_exact:
  assumes "0 \<le> off" "0 \<le> n" "off + n \<le> maxint64"
  shows "NewSectionReader r off n =
    \<lparr>sec_r = r, sec_base = off, sec_off = off, sec_limit = off + n\<rparr>"
proof -
  have "add64 maxint64 (- n) = maxint64 - n" "add64 n off = n + off"
    using assms add64_exact [of maxint64 "- n"] add64_exact [of n off]
    by (simp_all add: in_int64_def maxint64_def)
  then show ?thesis using assms by (simp add: NewSectionReader_def Let_def)
qed

lemma section_random_access:
  assumes "random_access ra D" "sec_r s = ra" "0 \<le> sec_base s"
  shows "random_access (section_ReadAt s)
    (take (nat (sec_limit s - sec_base s)) (drop (nat (sec_base s)) D))"
  using assms random_access.section_ReadAt_law by unfold_locales blast

lemma io_reader_restrict:
  assumes "io_reader rd I stream fin rank"
    and "\<And>s n d e s'. I s \<Longrightarrow> 0 < n \<Longrightarrow> P s \<Longrightarrow> rd s n = Some (d, e, s') \<Longrightarrow> P s'"
  shows "io_reader rd (\<lambda>s. I s \<and> P s) stream fin rank"
proof (rule io_reader.intro, goal_cases)
  case (1 s n)
  then show ?case using io_reader.read_returns [OF assms(1)] by blast
next
  case (2 s n d e s')
  then show ?case using io_reader.read_law [OF assms(1), of s n d e s'] assms(2) [of s n d e s'] by blast
next
  case (3 s n d err s')
  then show ?case using io_reader.read_end [OF assms(1), of s n d err s'] by blast
next
  case (4 s n d s')
  then show ?case using io_reader.read_more [OF assms(1), of s n d s'] by blast
qed

context random_access
begin

lemma section_ReadFull:
  assumes "sec_r s = ra" "0 \<le> sec_off s"
  obtains s' where "io_ReadFull section_Read n s =
      Some (take n (section_bytes D s), readFull_err n (section_bytes D s) ErrEOF, s')"
    "section_bytes D s' = drop n (section_bytes D s)" "sec_r s' = ra"
    "section_ReadAt s' = section_ReadAt s"
proof -
  have "io_reader section_Read (\<lambda>t. (sec_r t = ra \<and> 0 \<le> sec_off t) \<and>
      sec_base t = sec_base s \<and> sec_limit t = sec_limit s)
    (section_bytes D) (\<lambda>_. ErrEOF) (\<lambda>s. nat (sec_limit s - sec_off s))"
    by (rule io_reader_restrict [OF sec.io_reader_axioms])
       (auto simp: section_Read_def split: if_splits prod.splits)
  from io_reader.ReadFull_spec [OF this, of s n] assms obtain s' where s':
    "io_ReadFull section_Read n s =
      Some (take n (section_bytes D s), readFull_err n (section_bytes D s) ErrEOF, s')"
    "section_bytes D s' = drop n (section_bytes D s)" "sec_r s' = ra"
    "sec_base s' = sec_base s" "sec_limit s' = sec_limit s" by auto
  moreover have "section_ReadAt s' = section_ReadAt s"
    using s'(3-5) assms(1) by (intro ext) (simp only: section_ReadAt_def)
  ultimately show ?thesis using that by blast
qed

end

lemma section_bytes_fresh:
  assumes "0 \<le> off" "0 \<le> n" "off + n \<le> maxint64"
  shows "section_bytes D (NewSectionReader r off n) = take (nat n) (drop (nat off) D)"
    and "sec_r (NewSectionReader r off n) = r" "0 \<le> sec_off (NewSectionReader r off n)"
    and "sec_base (NewSectionReader r off n) = off"
    and "sec_limit (NewSectionReader r off n) = off + n"
  using assms by (simp_all add: NewSectionReader_exact section_bytes_def)

end
