(* ===== verification/Zip_Struct.thy ===== *)
theory Zip_Struct
  imports Zip_Prelude
begin

text \<open>
  struct.go and the header methods of crypto.go: the constants of the format, \<open>FileHeader\<close> and the
  methods that read or set its flags, encryption and sizes.
\<close>

section \<open>Constants\<close>

definition Store :: u16 where "Store = 0"
definition Deflate :: u16 where "Deflate = 8"
definition winzipAesMethod :: u16 where "winzipAesMethod = 99"

definition fileHeaderSignature :: u32 where "fileHeaderSignature = 0x04034b50"
definition directoryHeaderSignature :: u32 where "directoryHeaderSignature = 0x02014b50"
definition directoryEndSignature :: u32 where "directoryEndSignature = 0x06054b50"
definition directory64LocSignature :: u32 where "directory64LocSignature = 0x07064b50"
definition directory64EndSignature :: u32 where "directory64EndSignature = 0x06064b50"
definition dataDescriptorSignature :: u32 where "dataDescriptorSignature = 0x08074b50"

definition fileHeaderLen :: nat where "fileHeaderLen = 30"
definition directoryHeaderLen :: nat where "directoryHeaderLen = 46"
definition directoryEndLen :: nat where "directoryEndLen = 22"
definition dataDescriptorLen :: nat where "dataDescriptorLen = 16"
definition dataDescriptor64Len :: nat where "dataDescriptor64Len = 24"
definition directory64LocLen :: nat where "directory64LocLen = 20"
definition directory64EndLen :: nat where "directory64EndLen = 56"

definition creatorFAT :: u16 where "creatorFAT = 0"
definition creatorUnix :: u16 where "creatorUnix = 3"
definition creatorNTFS :: u16 where "creatorNTFS = 11"
definition creatorVFAT :: u16 where "creatorVFAT = 14"
definition creatorMacOSX :: u16 where "creatorMacOSX = 19"

definition zipVersion20 :: u16 where "zipVersion20 = 20"
definition zipVersion45 :: u16 where "zipVersion45 = 45"

definition zip64ExtraId :: u16 where "zip64ExtraId = 0x0001"
definition winzipAesExtraId :: u16 where "winzipAesExtraId = 0x9901"
definition xxh3ExtraId :: u16 where "xxh3ExtraId = 0x7878"

lemmas zip_signatures =
  fileHeaderSignature_def directoryHeaderSignature_def directoryEndSignature_def
  directory64LocSignature_def directory64EndSignature_def dataDescriptorSignature_def

lemmas zip_lengths [simp] =
  fileHeaderLen_def directoryHeaderLen_def directoryEndLen_def dataDescriptorLen_def
  dataDescriptor64Len_def directory64LocLen_def directory64EndLen_def

lemmas zip_methods = Store_def Deflate_def winzipAesMethod_def

lemmas zip_ids = zip64ExtraId_def winzipAesExtraId_def xxh3ExtraId_def

lemmas zip_creators =
  creatorFAT_def creatorUnix_def creatorNTFS_def creatorVFAT_def creatorMacOSX_def

lemmas zip_versions = zipVersion20_def zipVersion45_def

section \<open>\<open>FileHeader\<close>\<close>

text \<open>
  \<open>EncryptionMethod\<close> is an \<open>int\<close> type in Go; a value outside the five constants behaves, in every
  function here, as an AES method whose strength was never set, hence \<open>OtherEncryption\<close>.
  \<open>password\<close> holds what the \<open>passwordFn\<close> closure returns, \<open>None\<close> for a nil closure.
\<close>

datatype EncryptionMethod =
  NoEncryption | StandardEncryption | AES128Encryption | AES192Encryption | AES256Encryption
  | OtherEncryption int

record FileHeader =
  Name :: "byte list"
  CreatorVersion :: u16
  ReaderVersion :: u16
  Flags :: u16
  Method :: u16
  CompressionLevel :: int
  ModifiedTime :: u16
  ModifiedDate :: u16
  CRC32 :: u32
  CompressedSize :: u32
  UncompressedSize :: u32
  CompressedSize64 :: u64
  UncompressedSize64 :: u64
  Extra :: "byte list"
  ExternalAttrs :: u32
  Comment :: "byte list"
  XXH3 :: u64
  DeferAuth :: bool
  encryption :: EncryptionMethod
  password :: "byte list option"
  ae :: u16
  aesStrength :: byte

text \<open>\<open>&FileHeader{}\<close>, every field its zero value.\<close>

definition zeroFileHeader :: FileHeader where
  "zeroFileHeader = \<lparr>Name = [], CreatorVersion = 0, ReaderVersion = 0, Flags = 0, Method = 0,
     CompressionLevel = 0, ModifiedTime = 0, ModifiedDate = 0, CRC32 = 0, CompressedSize = 0,
     UncompressedSize = 0, CompressedSize64 = 0, UncompressedSize64 = 0, Extra = [],
     ExternalAttrs = 0, Comment = [], XXH3 = 0, DeferAuth = False, encryption = NoEncryption,
     password = None, ae = 0, aesStrength = 0\<rparr>"

definition isZip64 :: "FileHeader \<Rightarrow> bool" where
  "isZip64 fh \<longleftrightarrow> uint32max \<le> CompressedSize64 fh \<or> uint32max \<le> UncompressedSize64 fh"

definition IsEncrypted :: "FileHeader \<Rightarrow> bool" where
  "IsEncrypted h \<longleftrightarrow> Flags h AND 0x1 = 1"

definition isAE2 :: "FileHeader \<Rightarrow> bool" where
  "isAE2 h \<longleftrightarrow> ae h = 2"

definition writesAES :: "FileHeader \<Rightarrow> bool" where
  "writesAES h \<longleftrightarrow> password h \<noteq> None \<and> encryption h \<noteq> StandardEncryption"

definition hasDataDescriptor :: "FileHeader \<Rightarrow> bool" where
  "hasDataDescriptor f \<longleftrightarrow> Flags f AND 0x8 \<noteq> 0"

definition SetEncryptionMethod :: "EncryptionMethod \<Rightarrow> FileHeader \<Rightarrow> FileHeader" where
  "SetEncryptionMethod enc h =
     (let h = h\<lparr>encryption := enc\<rparr> in
      case enc of
        AES128Encryption \<Rightarrow> h\<lparr>aesStrength := 1\<rparr>
      | AES192Encryption \<Rightarrow> h\<lparr>aesStrength := 2\<rparr>
      | AES256Encryption \<Rightarrow> h\<lparr>aesStrength := 3\<rparr>
      | _ \<Rightarrow> h)"

definition setEncryptionBit :: "FileHeader \<Rightarrow> FileHeader" where
  "setEncryptionBit h = h\<lparr>Flags := Flags h OR 0x1\<rparr>"

definition SetPassword :: "byte list \<Rightarrow> FileHeader \<Rightarrow> FileHeader" where
  "SetPassword pw h =
     (let h = (if \<not> IsEncrypted h then setEncryptionBit h else h) in h\<lparr>password := Some pw\<rparr>)"

text \<open>\<open>writeWinZipExtra\<close> (crypto.go) writes into an array of 11 bytes.\<close>

definition winZipExtra :: "byte \<Rightarrow> u16 \<Rightarrow> byte list option" where
  "winZipExtra strength mtd = do {
     eb \<leftarrow> wb_uint16 winzipAesExtraId (wb_make 11);
     eb \<leftarrow> wb_uint16 7 eb;
     eb \<leftarrow> wb_uint16 2 eb;
     eb \<leftarrow> wb_uint16 0x4541 eb;
     eb \<leftarrow> wb_uint8 strength eb;
     eb \<leftarrow> wb_uint16 mtd eb;
     Some (wb_all eb) }"

definition writeWinZipExtra :: "FileHeader \<Rightarrow> FileHeader option" where
  "writeWinZipExtra h = do {
     buf \<leftarrow> winZipExtra (aesStrength h) (Method h);
     Some (h\<lparr>Extra := Extra h @ buf\<rparr>) }"

lemma winZipExtra_bytes:
  "winZipExtra strength mtd =
     Some (put16 winzipAesExtraId @ put16 7 @ put16 2 @ put16 0x4541 @ [strength] @ put16 mtd)"
  by (simp add: winZipExtra_def wb_make_def wire wb_all_def)

lemma SetPassword_fields [simp]:
  "password (SetPassword pw h) = Some pw"
  "IsEncrypted (SetPassword pw h)"
  "Flags (SetPassword pw h) = Flags h OR 0x1"
proof -
  have and_or: "(f OR 1) AND 1 = (1 :: u16)" for f
    by (rule bit_word_eqI) (auto simp: bit_simps)
  have "f OR 1 = f" if "f AND 1 = 1" for f :: u16
    using that by (intro bit_word_eqI) (metis bit_and_iff bit_or_iff)
  with and_or show "IsEncrypted (SetPassword pw h)" "Flags (SetPassword pw h) = Flags h OR 0x1"
    by (auto simp: SetPassword_def setEncryptionBit_def IsEncrypted_def Let_def)
qed (simp add: SetPassword_def Let_def)

end
