(* ===== verification/Zip_Extra.thy ===== *)
theory Zip_Extra
  imports Zip_Struct
begin

text \<open>
  The extra field of a header: the editor \<open>removeExtraField\<close> (struct.go), and the reference view of
  an extra field as a list of tagged blocks that its results, and those of the parsers of reader.go
  and raw_reader.go, are stated against.
\<close>

section \<open>Extra fields\<close>

text \<open>
  \<open>removeExtraField\<close> (struct.go): \<open>removeExtraField_loop\<close> is its \<open>for\<close> loop, with the locals \<open>out\<close>,
  \<open>removed\<close> and \<open>b\<close>.
\<close>

function removeExtraField_loop ::
  "u16 \<Rightarrow> byte list \<Rightarrow> bool \<Rightarrow> byte list \<Rightarrow> byte list \<times> bool \<times> byte list" where
  "removeExtraField_loop i out removed b =
     (if 4 \<le> length b then
        let tag = get16 b;
            n = 4 + unat (get16 (drop 2 b))
        in if length b < n then (out, removed, b)
           else if tag = i then removeExtraField_loop i out True (drop n b)
           else removeExtraField_loop i (out @ take n b) removed (drop n b)
      else (out, removed, b))"
  by pat_completeness auto
termination
  by (relation "measure (\<lambda>(i, out, removed, b). length b)") auto

declare removeExtraField_loop.simps [simp del]

definition removeExtraField :: "byte list \<Rightarrow> u16 \<Rightarrow> byte list" where
  "removeExtraField extra i =
     (case removeExtraField_loop i [] False extra of (out, removed, b) \<Rightarrow>
        if \<not> removed then extra else out @ b)"

section \<open>Extra fields as lists of blocks\<close>

text \<open>
  \<open>splitExtra\<close> reads as many well-formed blocks as there are; the second component is the malformed
  tail, which the code keeps verbatim. \<open>joinExtra\<close> writes blocks back.
\<close>


function splitExtra :: "byte list \<Rightarrow> (u16 \<times> byte list) list \<times> byte list" where
  "splitExtra b =
     (if 4 \<le> length b \<and> 4 + unat (get16 (drop 2 b)) \<le> length b then
        let n = unat (get16 (drop 2 b)); (fs, rest) = splitExtra (drop (4 + n) b)
        in ((get16 b, take n (drop 4 b)) # fs, rest)
      else ([], b))"
  by pat_completeness auto
termination
  by (relation "measure length") auto

declare splitExtra.simps [simp del]

lemma splitExtra_step:
  "4 + unat (get16 (drop 2 b)) \<le> length b \<Longrightarrow> splitExtra b =
     ((get16 b, take (unat (get16 (drop 2 b))) (drop 4 b))
        # fst (splitExtra (drop (4 + unat (get16 (drop 2 b))) b)),
      snd (splitExtra (drop (4 + unat (get16 (drop 2 b))) b)))"
  by (subst splitExtra.simps) (simp add: Let_def split: prod.splits)

lemma splitExtra_stop:
  "\<not> (4 \<le> length b \<and> 4 + unat (get16 (drop 2 b)) \<le> length b) \<Longrightarrow> splitExtra b = ([], b)"
  by (subst splitExtra.simps) auto

definition extraField :: "u16 \<Rightarrow> byte list \<Rightarrow> byte list" where
  "extraField t d = put16 t @ put16 (of_nat (length d)) @ d"

definition joinExtra :: "(u16 \<times> byte list) list \<Rightarrow> byte list" where
  "joinExtra fs = concat (map (\<lambda>(t, d). extraField t d) fs)"

lemma joinExtra_simps [simp]:
  "joinExtra [] = []" "joinExtra ((t, d) # fs) = extraField t d @ joinExtra fs"
  "joinExtra (fs @ gs) = joinExtra fs @ joinExtra gs"
  by (simp_all add: joinExtra_def)

lemma get16_take: "2 \<le> n \<Longrightarrow> get16 (take n b) = get16 b"
  by (simp add: get16_def)

lemma extraField_take:
  assumes "4 + unat (get16 (drop 2 b)) \<le> length b"
  shows "extraField (get16 b) (take (unat (get16 (drop 2 b))) (drop 4 b))
    = take (4 + unat (get16 (drop 2 b))) b" (is "_ = take (4 + ?n) b")
proof -
  have "put16 (get16 b) = take 2 b"
    using assms put_get(1) [of "take 2 b"] by (simp add: get16_take)
  moreover have "put16 (get16 (drop 2 b)) = take 2 (drop 2 b)"
    using assms put_get(1) [of "take 2 (drop 2 b)"] by (simp add: get16_take)
  moreover have "take (4 + ?n) b = take 2 b @ take 2 (drop 2 b) @ take ?n (drop 4 b)"
    by (metis (no_types, lifting) add.assoc drop_drop numeral_Bit0 take_add)
  moreover have "length (take ?n (drop 4 b)) = ?n" using assms by simp
  ultimately show ?thesis by (simp only: extraField_def of_nat_unat ucast_id)
qed

lemma splitExtra_join: "joinExtra (fst (splitExtra b)) @ snd (splitExtra b) = b"
proof (induction b rule: splitExtra.induct)
  case (1 b)
  show ?case
  proof (cases "4 \<le> length b \<and> 4 + unat (get16 (drop 2 b)) \<le> length b")
    case True
    with "1.IH" [OF True refl] extraField_take [of b] show ?thesis
      by (simp add: splitExtra_step)
  next
    case False
    then show ?thesis by (simp add: splitExtra_stop)
  qed
qed

lemma removeExtraField_loop_split:
  "removeExtraField_loop i out r b =
     (out @ joinExtra (filter (\<lambda>(t, d). t \<noteq> i) (fst (splitExtra b))),
      r \<or> (\<exists>d. (i, d) \<in> set (fst (splitExtra b))), snd (splitExtra b))"
proof (induction i out r b rule: removeExtraField_loop.induct)
  case (1 i out r b)
  show ?case
  proof (cases "4 \<le> length b \<and> 4 + unat (get16 (drop 2 b)) \<le> length b")
    case True
    then show ?thesis
      using "1.IH" extraField_take [of b]
      by (subst removeExtraField_loop.simps) (auto simp: Let_def splitExtra_step)
  next
    case False
    then show ?thesis
      by (subst removeExtraField_loop.simps) (auto simp: Let_def splitExtra_stop)
  qed
qed

lemma removeExtraField_split:
  "removeExtraField extra i =
     joinExtra (filter (\<lambda>(t, d). t \<noteq> i) (fst (splitExtra extra))) @ snd (splitExtra extra)"
proof (cases "\<exists>d. (i, d) \<in> set (fst (splitExtra extra))")
  case False
  then have "filter (\<lambda>(t, d). t \<noteq> i) (fst (splitExtra extra)) = fst (splitExtra extra)"
    by (auto simp: filter_id_conv)
  with False show ?thesis
    by (simp add: removeExtraField_def removeExtraField_loop_split splitExtra_join)
next
  case True
  then show ?thesis by (simp add: removeExtraField_def removeExtraField_loop_split)
qed

text \<open>What the loop sees of a list of well-formed fields.\<close>

lemma splitExtra_field:
  "length d < 65536 \<Longrightarrow> splitExtra (extraField t d @ b) =
     ((t, d) # fst (splitExtra b), snd (splitExtra b))"
  by (subst splitExtra.simps)
    (simp add: extraField_def unat_of_nat Let_def split: prod.splits)

definition wfExtra :: "(u16 \<times> byte list) list \<Rightarrow> bool" where
  "wfExtra fs \<longleftrightarrow> (\<forall>(t, d) \<in> set fs. length d < 65536)"

lemma splitExtra_joinExtra:
  "wfExtra fs \<Longrightarrow> splitExtra (joinExtra fs @ b) = (fs @ fst (splitExtra b), snd (splitExtra b))"
  by (induction fs) (auto simp: wfExtra_def splitExtra_field)

lemma splitExtra_wf: "wfExtra (fst (splitExtra b))"
proof (induction b rule: splitExtra.induct)
  case (1 b)
  show ?case
  proof (cases "4 \<le> length b \<and> 4 + unat (get16 (drop 2 b)) \<le> length b")
    case True
    moreover have "unat (get16 (drop 2 b)) < 65536"
      using unsigned_less [of "get16 (drop 2 b)", where 'a = nat] by simp
    ultimately show ?thesis
      using "1.IH" by (auto simp: wfExtra_def splitExtra_step)
  next
    case False
    then show ?thesis by (simp add: splitExtra_stop wfExtra_def)
  qed
qed

lemma splitExtra_rest: "splitExtra (snd (splitExtra b)) = ([], snd (splitExtra b))"
proof (induction b rule: splitExtra.induct)
  case (1 b)
  show ?case
  proof (cases "4 \<le> length b \<and> 4 + unat (get16 (drop 2 b)) \<le> length b")
    case True
    with "1.IH" [OF True refl] show ?thesis by (simp add: splitExtra_step)
  next
    case False
    then show ?thesis by (simp add: splitExtra_stop)
  qed
qed

lemma splitExtra_remove:
  "splitExtra (removeExtraField extra i) =
     (filter (\<lambda>(t, d). t \<noteq> i) (fst (splitExtra extra)), snd (splitExtra extra))"
proof -
  have "wfExtra (filter (\<lambda>(t, d). t \<noteq> i) (fst (splitExtra extra)))"
    using splitExtra_wf [of extra] by (auto simp: wfExtra_def)
  then show ?thesis
    by (simp add: removeExtraField_split splitExtra_joinExtra splitExtra_rest)
qed

text \<open>
  C28. \<open>removeExtraField\<close> removes exactly the well-formed fields with the given tag: the remaining
  fields keep their order and contents, malformed trailing bytes are kept verbatim, and parsing the
  result again gives the remaining fields.
\<close>

theorem removeExtraField_blocks:
  "removeExtraField extra i =
     joinExtra (filter (\<lambda>(t, d). t \<noteq> i) (fst (splitExtra extra))) @ snd (splitExtra extra)
   \<and> splitExtra (removeExtraField extra i) =
     (filter (\<lambda>(t, d). t \<noteq> i) (fst (splitExtra extra)), snd (splitExtra extra))"
  by (intro conjI removeExtraField_split splitExtra_remove)

end
