(* ===== verification/Zip_Buffered.thy ===== *)
theory Zip_Buffered
  imports Zip_IO
begin

text \<open>
  The buffered reader and writer of the Go library package \<open>bufio\<close>, as the package uses them.
\<close>

section \<open>\<open>bufio.Reader\<close>\<close>

text \<open>
  \<open>bufio.NewReaderSize\<close> and \<open>Read\<close>: the reader, the bytes read ahead, the error that came with them,
  and the length of the buffer. A call makes at most one call of the reader below, of the whole
  buffer unless more is asked for.
\<close>

record 's bufio_reader =
  br_rd :: 's
  br_buf :: "byte list"
  br_err :: "zip_error option"
  br_size :: nat

definition minReadBufferSize :: nat where "minReadBufferSize = 16"

definition bufio_NewReaderSize :: "'s \<Rightarrow> nat \<Rightarrow> 's bufio_reader" where
  "bufio_NewReaderSize r sz =
     \<lparr>br_rd = r, br_buf = [], br_err = None, br_size = max sz minReadBufferSize\<rparr>"

definition bufio_Read :: "'s read_fn \<Rightarrow> 's bufio_reader read_fn" where
  "bufio_Read rd b n =
     (if br_buf b \<noteq> [] then Some (take n (br_buf b), None, b\<lparr>br_buf := drop n (br_buf b)\<rparr>)
      else if n = 0 \<or> br_err b \<noteq> None then Some ([], br_err b, b\<lparr>br_err := None\<rparr>)
      else if br_size b \<le> n then do {
        (d, err, s) \<leftarrow> rd (br_rd b) n;
        Some (d, err, b\<lparr>br_rd := s\<rparr>) }
      else do {
        (d, err, s) \<leftarrow> rd (br_rd b) (br_size b);
        let b = b\<lparr>br_rd := s\<rparr>;
        (if d = [] then Some ([], err, b)
         else Some (take n d, None, b\<lparr>br_err := err, br_buf := drop n d\<rparr>)) })"

locale buffered_reader = io_reader rd inv stream fin rank
  for rd :: "'s read_fn" and inv :: "'s \<Rightarrow> bool" and stream :: "'s \<Rightarrow> byte list"
    and fin :: "'s \<Rightarrow> zip_error" and rank :: "'s \<Rightarrow> nat"
begin

definition br_inv :: "'s bufio_reader \<Rightarrow> bool" where
  "br_inv b \<longleftrightarrow> inv (br_rd b) \<and> 0 < br_size b
     \<and> (\<forall>e. br_err b = Some e \<longrightarrow> e = fin (br_rd b) \<and> stream (br_rd b) = [])"

definition br_stream :: "'s bufio_reader \<Rightarrow> byte list" where
  "br_stream b = br_buf b @ stream (br_rd b)"

definition br_rank :: "'s bufio_reader \<Rightarrow> nat" where
  "br_rank b = length (br_stream b) + rank (br_rd b)"

lemma br_step:
  assumes "br_inv b" "0 < n"
  obtains (buffered) "br_buf b \<noteq> []"
      "bufio_Read rd b n = Some (take n (br_buf b), None, b\<lparr>br_buf := drop n (br_buf b)\<rparr>)"
  | (stopped) e where "br_buf b = []" "br_err b = Some e" "bufio_Read rd b n = Some ([], Some e, b\<lparr>br_err := None\<rparr>)"
  | (direct) d err s m where "br_buf b = []" "br_err b = None" "0 < m" "m \<le> n \<or> d = []" "rd (br_rd b) m = Some (d, err, s)"
      "bufio_Read rd b n = Some (d, err, b\<lparr>br_rd := s\<rparr>)"
  | (filled) d err s where "br_buf b = []" "br_err b = None" "rd (br_rd b) (br_size b) = Some (d, err, s)" "d \<noteq> []"
      "bufio_Read rd b n = Some (take n d, None, b\<lparr>br_rd := s, br_err := err, br_buf := drop n d\<rparr>)"
proof (cases "br_buf b = [] \<and> br_err b = None")
  case False
  then show ?thesis
    using buffered stopped by (cases "br_buf b = []") (auto simp: bufio_Read_def)
next
  case True
  from assms have i: "inv (br_rd b)" "0 < br_size b" by (auto simp: br_inv_def)
  show ?thesis
  proof (cases "br_size b \<le> n")
    case le: True
    obtain d err s where "rd (br_rd b) n = Some (d, err, s)" using read_returns [OF i(1) assms(2)] by blast
    with True le assms(2) direct [of n d err s] show ?thesis by (simp add: bufio_Read_def)
  next
    case gt: False
    obtain d err s where r: "rd (br_rd b) (br_size b) = Some (d, err, s)" using read_returns [OF i] by blast
    show ?thesis
    proof (cases "d = []")
      case nil: True
      with r True gt assms(2) i(2) direct [of "br_size b" d err s] show ?thesis by (simp add: bufio_Read_def)
    next
      case cons: False
      with r True gt assms(2) filled [of d err s] show ?thesis by (simp add: bufio_Read_def)
    qed
  qed
qed

lemma br_law:
  assumes "br_inv b" "0 < n" "bufio_Read rd b n = Some (d, e, b')"
  shows "br_inv b' \<and> length d \<le> n \<and> br_stream b = d @ br_stream b' \<and> fin (br_rd b') = fin (br_rd b)
      \<and> br_rank b' \<le> br_rank b \<and> (\<forall>err. e = Some err \<longrightarrow> err = fin (br_rd b) \<and> br_stream b' = [])
      \<and> (e = None \<longrightarrow> br_rank b' < br_rank b)"
  using assms(1,2)
proof (cases rule: br_step)
  case buffered
  with assms show ?thesis by (auto simp: br_inv_def br_stream_def br_rank_def)
next
  case (stopped x)
  with assms show ?thesis by (auto simp: br_inv_def br_stream_def br_rank_def)
next
  case (direct c err s m)
  have i: "inv (br_rd b)" using assms(1) by (simp add: br_inv_def)
  from direct(6) assms(3) have c: "c = d" "err = e" "b' = b\<lparr>br_rd := s\<rparr>" by auto
  note r = direct(5) [unfolded c(1,2)]
  have "inv s \<and> stream (br_rd b) = d @ stream s \<and> fin s = fin (br_rd b) \<and> rank s \<le> rank (br_rd b)"
    using read_law [OF i direct(3) r] by blast
  moreover have "e = Some x \<Longrightarrow> x = fin (br_rd b) \<and> stream s = []" for x
    using read_end [OF i direct(3)] r by blast
  moreover have "e = None \<Longrightarrow> rank s < length d + rank (br_rd b)"
    using read_more [OF i direct(3)] r trans_less_add2 by blast
  moreover have "length d \<le> n" using direct(4) read_law [OF i direct(3) r] c(1) by auto
  ultimately show ?thesis using direct(1,2) assms(1) c(3)
    by (simp add: br_inv_def br_stream_def br_rank_def)
next
  case (filled c err s)
  have i: "inv (br_rd b)" "0 < br_size b" using assms(1) by (simp_all add: br_inv_def)
  from filled(5) assms(3) have "d = take n c" "e = None" "b' = b\<lparr>br_rd := s, br_err := err, br_buf := drop n c\<rparr>"
    by auto
  moreover have "err = Some x \<Longrightarrow> x = fin (br_rd b) \<and> stream s = []" for x
    using read_end [OF i] filled(3) by blast
  moreover have "length c - n + rank s < length c + rank (br_rd b)"
  proof -
    have "length c - n < length c" using filled(4) assms(2) by simp
    moreover have "rank s \<le> rank (br_rd b)" using read_law [OF i filled(3)] by simp
    ultimately show ?thesis by linarith
  qed
  ultimately show ?thesis using read_law [OF i filled(3)] filled(1,4) assms(1,2)
    by (auto simp: br_inv_def br_stream_def br_rank_def)
qed

lemma br_returns: "br_inv b \<Longrightarrow> 0 < n \<Longrightarrow> \<exists>d e b'. bufio_Read rd b n = Some (d, e, b')"
  by (rule br_step [of b n]) auto

lemma br_fresh:
  assumes "inv s"
  shows "br_inv (bufio_NewReaderSize s sz)" "br_stream (bufio_NewReaderSize s sz) = stream s"
    "br_rd (bufio_NewReaderSize s sz) = s"
  using assms by (simp_all add: br_inv_def br_stream_def bufio_NewReaderSize_def minReadBufferSize_def)

end

text \<open>A buffered reader is a source of the same bytes.\<close>

sublocale buffered_reader \<subseteq> bufr: io_reader "bufio_Read rd" br_inv br_stream "\<lambda>b. fin (br_rd b)" br_rank
  by unfold_locales (use br_returns br_law in blast)+

section \<open>\<open>bufio.Writer\<close>\<close>

text \<open>
  \<open>bufio.Writer\<close>, which \<open>NewWriter\<close> (writer.go) puts in front of the destination of an archive: the
  buffer, the writer below it and the sticky error. \<open>Write\<close> and \<open>Flush\<close> follow the Go library. A
  buffered writer keeps the contract of \<open>io.Writer\<close>, for the bytes below it followed by those it holds.
\<close>

record 'w bufio_writer =
  bw_wr :: 'w
  bw_buf :: "byte list"
  bw_err :: "zip_error option"

definition defaultBufSize :: nat where "defaultBufSize = 4096"

definition bufio_NewWriter :: "'w \<Rightarrow> 'w bufio_writer" where
  "bufio_NewWriter w = \<lparr>bw_wr = w, bw_buf = [], bw_err = None\<rparr>"

definition bufio_Flush :: "'w write_fn \<Rightarrow> 'w bufio_writer \<Rightarrow> zip_error option \<times> 'w bufio_writer" where
  "bufio_Flush wr b =
     (if bw_err b \<noteq> None then (bw_err b, b)
      else if bw_buf b = [] then (None, b)
      else case wr (bw_wr b) (bw_buf b) of (n, err, w) \<Rightarrow>
        let err = (if n < length (bw_buf b) \<and> err = None then Some ErrShortWrite else err)
        in if err \<noteq> None
           then (err, b\<lparr>bw_wr := w, bw_buf := drop n (bw_buf b), bw_err := err\<rparr>)
           else (None, b\<lparr>bw_wr := w, bw_buf := []\<rparr>))"

lemma bufio_Flush_empties:
  "bufio_Flush wr b = (e, b') \<Longrightarrow> bw_err b' = e \<and> (e = None \<longrightarrow> bw_buf b' = [])"
  by (auto simp: bufio_Flush_def Let_def split: prod.splits if_splits)

text \<open>
  The loop of \<open>Write\<close>: while \<open>p\<close> does not fit the rest of the buffer it is written directly (nothing
  buffered) or fills the buffer, which is flushed. A writer below that takes nothing and reports no
  error would keep Go in this loop; its contract rules that out, and here it ends the loop.
\<close>

function bufio_Write_loop ::
  "'w write_fn \<Rightarrow> 'w bufio_writer \<Rightarrow> nat \<Rightarrow> byte list \<Rightarrow> nat \<times> byte list \<times> 'w bufio_writer" where
  "bufio_Write_loop wr b nn p =
     (if defaultBufSize - length (bw_buf b) < length p \<and> bw_err b = None then
        (if bw_buf b = [] then
           (case wr (bw_wr b) p of (n, err, w) \<Rightarrow>
              let b = b\<lparr>bw_wr := w, bw_err := err\<rparr>
              in if n = 0 then (nn, p, b) else bufio_Write_loop wr b (nn + n) (drop n p))
         else
           (let n = min (length p) (defaultBufSize - length (bw_buf b))
            in case bufio_Flush wr (b\<lparr>bw_buf := bw_buf b @ take n p\<rparr>) of (e, b) \<Rightarrow>
                 bufio_Write_loop wr b (nn + n) (drop n p)))
      else (nn, p, b))"
  by pat_completeness auto
termination
proof (relation "inv_image (less_than <*lex*> less_than) (\<lambda>(wr, b, n, p).
     (length p, if bw_err b = None then Suc (length (bw_buf b)) else 0))", goal_cases)
  case 3
  then show ?case by (auto dest!: sym [THEN bufio_Flush_empties])
qed auto

declare bufio_Write_loop.simps [simp del]

definition bufio_Write :: "'w write_fn \<Rightarrow> 'w bufio_writer write_fn" where
  "bufio_Write wr b p = (case bufio_Write_loop wr b 0 p of (nn, p, b) \<Rightarrow>
     if bw_err b \<noteq> None then (nn, bw_err b, b)
     else (nn + length p, None, b\<lparr>bw_buf := bw_buf b @ p\<rparr>))"

locale buffered_writer = io_writer wr out good
  for wr :: "'w write_fn" and out :: "'w \<Rightarrow> byte list" and good :: "'w \<Rightarrow> bool"
begin

definition bw_out :: "'w bufio_writer \<Rightarrow> byte list" where
  "bw_out b = out (bw_wr b) @ bw_buf b"

definition bw_good :: "'w bufio_writer \<Rightarrow> bool" where
  "bw_good b \<longleftrightarrow> bw_err b = None \<and> good (bw_wr b)"

lemma Flush_out:
  assumes "bufio_Flush wr b = (e, b')"
  shows "bw_out b' = bw_out b \<and> bw_err b' = e \<and> (e = None \<longrightarrow> bw_buf b' = [])
    \<and> (bw_good b \<longrightarrow> bw_good b')"
proof (cases "bw_err b = None \<and> bw_buf b \<noteq> []")
  case False
  with assms show ?thesis by (auto simp: bufio_Flush_def split: if_splits)
next
  case True
  obtain n err w where w: "wr (bw_wr b) (bw_buf b) = (n, err, w)" by (cases "wr (bw_wr b) (bw_buf b)") auto
  show ?thesis
  proof (cases err)
    case None
    from write_ok [OF w [unfolded None]] assms w True write_good [of "bw_wr b" "bw_buf b"] None show ?thesis
      by (auto simp: bufio_Flush_def bw_out_def bw_good_def Let_def)
  next
    case (Some x)
    from write_err [OF w [unfolded Some]] assms w True write_good [of "bw_wr b" "bw_buf b"] Some show ?thesis
      by (auto simp: bufio_Flush_def bw_out_def bw_good_def Let_def)
  qed
qed

lemma Write_loop_out:
  "wr' = wr \<Longrightarrow> bufio_Write_loop wr' b nn p = (nn', p', b') \<Longrightarrow>
     \<exists>k. nn' = nn + k \<and> k \<le> length p \<and> p' = drop k p \<and> bw_out b' = bw_out b @ take k p
       \<and> (bw_good b \<longrightarrow> bw_good b')"
proof (induction wr' b nn p arbitrary: nn' p' b' rule: bufio_Write_loop.induct)
  case (1 wr' b nn p)
  show ?case
  proof (cases "defaultBufSize - length (bw_buf b) < length p \<and> bw_err b = None")
    case False
    with 1(4) show ?thesis by (auto simp: bufio_Write_loop.simps [of wr' b nn p])
  next
    case loop: True
    show ?thesis
    proof (cases "bw_buf b = []")
      case True
      obtain n err w where w: "wr (bw_wr b) p = (n, err, w)" by (cases "wr (bw_wr b) p") auto
      note n = write_any [OF w]
      show ?thesis
      proof (cases "n = 0")
        case True
        then have "bufio_Write_loop wr b nn p = (nn, p, b\<lparr>bw_wr := w, bw_err := err\<rparr>)"
          using w loop \<open>bw_buf b = []\<close> by (subst bufio_Write_loop.simps) (simp add: Let_def)
        with 1(3,4) n True show ?thesis
          by (intro exI [of _ 0]) (auto simp: bw_out_def bw_good_def)
      next
        case False
        have w': "(n, err, w) = wr' (bw_wr b) p" using w 1(3) by simp
        let ?b = "b\<lparr>bw_wr := w, bw_err := err\<rparr>"
        have r: "bufio_Write_loop wr' ?b (nn + n) (drop n p) = (nn', p', b')"
        proof -
          have "bufio_Write_loop wr b nn p = bufio_Write_loop wr ?b (nn + n) (drop n p)"
            using w loop True False by (subst bufio_Write_loop.simps) (simp add: Let_def)
          with 1(3,4) show ?thesis by simp
        qed
        obtain k where k: "nn' = nn + n + k" "k \<le> length (drop n p)" "p' = drop k (drop n p)"
          "bw_out b' = bw_out ?b @ take k (drop n p)" "bw_good ?b \<longrightarrow> bw_good b'"
          using 1(1) [OF loop True w' refl refl False 1(3) r] by auto
        have "take (n + k) p = take n p @ take k (drop n p)" by (simp add: take_add)
        with k n True show ?thesis
          by (intro exI [of _ "n + k"]) (auto simp: bw_out_def bw_good_def add.commute)
      qed
    next
      case False
      define n where "n = min (length p) (defaultBufSize - length (bw_buf b))"
      obtain e b1 where f: "bufio_Flush wr (b\<lparr>bw_buf := bw_buf b @ take n p\<rparr>) = (e, b1)" by fastforce
      have r: "bufio_Write_loop wr' b1 (nn + n) (drop n p) = (nn', p', b')"
      proof -
        have "bufio_Write_loop wr b nn p = bufio_Write_loop wr b1 (nn + n) (drop n p)"
          using f loop False by (subst bufio_Write_loop.simps) (simp add: Let_def flip: n_def)
        with 1(3,4) show ?thesis by simp
      qed
      have f': "(e, b1) = bufio_Flush wr' (b\<lparr>bw_buf := bw_buf b @ take n p\<rparr>)" using f 1(3) by simp
      obtain k where k: "nn' = nn + n + k" "k \<le> length (drop n p)" "p' = drop k (drop n p)"
        "bw_out b' = bw_out b1 @ take k (drop n p)" "bw_good b1 \<longrightarrow> bw_good b'"
        using 1(2) [OF loop False n_def f' 1(3) r] by auto
      have "bw_out b1 = bw_out b @ take n p" "bw_good b \<longrightarrow> bw_good b1"
        using Flush_out [OF f] by (auto simp: bw_out_def bw_good_def)
      moreover have "take (n + k) p = take n p @ take k (drop n p)" by (simp add: take_add)
      moreover have "n + k \<le> length p" using k(2) by (simp add: n_def)
      ultimately show ?thesis using k
        by (intro exI [of _ "n + k"]) (auto simp: add.commute)
    qed
  qed
qed

end

text \<open>A buffered writer over a writer is a writer.\<close>

sublocale buffered_writer \<subseteq> bw: io_writer "bufio_Write wr" bw_out bw_good
proof
  fix b p n b'
  assume "bufio_Write wr b p = (n, None, b')"
  then obtain nn q b1 where l: "bufio_Write_loop wr b 0 p = (nn, q, b1)" "n = nn + length q"
    "b' = b1\<lparr>bw_buf := bw_buf b1 @ q\<rparr>"
    by (auto simp: bufio_Write_def split: prod.splits if_splits)
  from Write_loop_out [OF refl l(1)] have k: "nn \<le> length p" "q = drop nn p"
    "bw_out b1 = bw_out b @ take nn p" by auto
  have "bw_out b' = bw_out b1 @ q" using l(3) by (simp add: bw_out_def)
  with k l(2) show "n = length p \<and> bw_out b' = bw_out b @ p" by simp
next
  fix b p n e b'
  assume "bufio_Write wr b p = (n, Some e, b')"
  then obtain q where l: "bufio_Write_loop wr b 0 p = (n, q, b')"
    by (auto simp: bufio_Write_def split: prod.splits if_splits)
  from Write_loop_out [OF refl l] show "n \<le> length p \<and> bw_out b' = bw_out b @ take n p" by auto
next
  fix b p
  assume g: "bw_good b"
  obtain nn q b1 where l: "bufio_Write_loop wr b 0 p = (nn, q, b1)" by (metis prod_cases3)
  with Write_loop_out [OF refl l] g show "\<exists>n b'. bufio_Write wr b p = (n, None, b') \<and> bw_good b'"
    by (auto simp: bufio_Write_def bw_good_def)
qed

text \<open>The writer of an archive: a count over a buffer over the destination.\<close>

sublocale buffered_writer \<subseteq> cbw: counted_writer "bufio_Write wr" bw_out bw_good
  by unfold_locales

interpretation bsnk: buffered_writer sink_write sink_data sink_good
  by unfold_locales

end
