(* ===== verification/Zip_Parse.thy ===== *)
theory Zip_Parse
  imports Zip_Section Zip_Extra Zip_Buffered
begin

text \<open>
  The parsers of reader.go: the search for the end of central directory record, its zip64
  counterpart, one central directory record, and the list of all of them (\<open>NewReader\<close>).
\<close>

section \<open>The end of the central directory\<close>

record directoryEnd =
  diskNbr :: u32
  dirDiskNbr :: u32
  dirRecordsThisDisk :: u64
  directoryRecords :: u64
  directorySize :: u64
  directoryOffset :: u64
  commentLen :: u16
  de_comment :: "byte list"

text \<open>
  \<open>findSignatureInBlock\<close>: \<open>findSignature_loop b k\<close> is its loop for \<open>i = k - 1\<close> down to 0; every index
  is below \<open>len(b)\<close> because \<open>i\<close> starts at \<open>len(b) - directoryEndLen\<close>.
\<close>

fun findSignature_loop :: "byte list \<Rightarrow> nat \<Rightarrow> int" where
  "findSignature_loop b 0 = -1"
| "findSignature_loop b (Suc i) =
     (if b ! i = 0x50 \<and> b ! (i + 1) = 0x4B \<and> b ! (i + 2) = 0x05 \<and> b ! (i + 3) = 0x06
         \<and> unat (get16 (drop (i + directoryEndLen - 2) b)) + directoryEndLen + i \<le> length b
      then int i
      else findSignature_loop b i)"

definition findSignatureInBlock :: "byte list \<Rightarrow> int" where
  "findSignatureInBlock b = findSignature_loop b (length b + 1 - directoryEndLen)"

definition parseDirectory64Loc :: "byte list \<Rightarrow> int result" where
  "parseDirectory64Loc buf =
     bindR (or_panic (rb_uint32 buf)) (\<lambda>(sig, b).
       if sig \<noteq> directory64LocSignature then Inr (-1)
       else or_panic (do {
         b \<leftarrow> slice_from 4 b;
         (p, b) \<leftarrow> rb_uint64 b;
         Some (int64_of p) }))"

text \<open>\<open>make([]byte, n)\<close> filled by a \<open>ReadAt\<close> that returned \<open>d\<close>.\<close>

definition filled :: "nat \<Rightarrow> byte list \<Rightarrow> byte list" where
  "filled n d = take n d @ replicate (n - length d) 0"

definition findDirectory64End :: "read_at \<Rightarrow> int \<Rightarrow> int result" where
  "findDirectory64End r directoryEndOffset =
     (let locOffset = directoryEndOffset - int directory64LocLen in
      if locOffset < 0 then Inr (-1)
      else case r directory64LocLen locOffset of
             (d, Some err) \<Rightarrow> Inl err
           | (d, None) \<Rightarrow> parseDirectory64Loc (filled directory64LocLen d))"

definition readDirectory64End :: "read_at \<Rightarrow> int \<Rightarrow> directoryEnd \<Rightarrow> directoryEnd result" where
  "readDirectory64End r offset d = (case r directory64EndLen offset of
     (buf, Some err) \<Rightarrow> Inl err
   | (buf, None) \<Rightarrow>
       bindR (or_panic (rb_uint32 (filled directory64EndLen buf))) (\<lambda>(sig, b).
         if sig \<noteq> directory64EndSignature then Inl ErrFormat
         else or_panic (do {
           b \<leftarrow> slice_from 12 b;
           (diskNbr', b) \<leftarrow> rb_uint32 b;
           (dirDiskNbr', b) \<leftarrow> rb_uint32 b;
           (dirRecordsThisDisk', b) \<leftarrow> rb_uint64 b;
           (directoryRecords', b) \<leftarrow> rb_uint64 b;
           (directorySize', b) \<leftarrow> rb_uint64 b;
           (directoryOffset', b) \<leftarrow> rb_uint64 b;
           Some (d\<lparr>diskNbr := diskNbr', dirDiskNbr := dirDiskNbr',
             dirRecordsThisDisk := dirRecordsThisDisk', directoryRecords := directoryRecords',
             directorySize := directorySize', directoryOffset := directoryOffset'\<rparr>) })))"

text \<open>
  The loop of \<open>readDirectoryEnd\<close> over the two block lengths: the block, the position of the record in
  it and its offset in the file.
\<close>

fun readDirectoryEnd_find ::
  "read_at \<Rightarrow> int \<Rightarrow> int list \<Rightarrow> (byte list \<times> nat \<times> int) result" where
  "readDirectoryEnd_find r sz [] = Inl GoPanic"
| "readDirectoryEnd_find r sz (bLen # rest) =
     (let bLen = (if sz < bLen then sz else bLen) in
      case r (nat bLen) (sz - bLen) of (d, err) \<Rightarrow>
        if err \<noteq> None \<and> err \<noteq> Some ErrEOF then Inl (the err)
        else
          let buf = filled (nat bLen) d; p = findSignatureInBlock buf in
          if 0 \<le> p then Inr (buf, nat p, sz - bLen + p)
          else if rest = [] \<or> bLen = sz then Inl ErrFormat
          else readDirectoryEnd_find r sz rest)"

definition parse_directoryEnd :: "byte list \<Rightarrow> directoryEnd result" where
  "parse_directoryEnd buf =
     bindR (or_panic (do {
       b \<leftarrow> slice_from 4 buf;
       (disk, b) \<leftarrow> rb_uint16 b;
       (dirDisk, b) \<leftarrow> rb_uint16 b;
       (this, b) \<leftarrow> rb_uint16 b;
       (records, b) \<leftarrow> rb_uint16 b;
       (dsize, b) \<leftarrow> rb_uint32 b;
       (offset, b) \<leftarrow> rb_uint32 b;
       (clen, b) \<leftarrow> rb_uint16 b;
       Some (\<lparr>diskNbr = ucast disk, dirDiskNbr = ucast dirDisk, dirRecordsThisDisk = ucast this,
         directoryRecords = ucast records, directorySize = ucast dsize,
         directoryOffset = ucast offset, commentLen = clen, de_comment = []\<rparr>, b) }))
     (\<lambda>(d, b).
       let l = unat (commentLen d) in
       if length b < l then Inl ErrCommentLength
       else bindR (or_panic (slice_to l b)) (\<lambda>c. Inr (d\<lparr>de_comment := c\<rparr>)))"

definition readDirectoryEnd :: "read_at \<Rightarrow> int \<Rightarrow> directoryEnd result" where
  "readDirectoryEnd r sz =
     (if sz < int directoryEndLen then Inl ErrFormat
      else
        bindR (readDirectoryEnd_find r sz [1024, 65 * 1024]) (\<lambda>(buf, p, directoryEndOffset).
        let loc = (if directory64LocLen \<le> p
                   then Some (take directory64LocLen (drop (p - directory64LocLen) buf)) else None);
            buf = drop p buf in
        bindR (parse_directoryEnd buf) (\<lambda>d.
        bindR (case loc of
                 Some loc \<Rightarrow> parseDirectory64Loc loc
               | None \<Rightarrow> findDirectory64End r directoryEndOffset) (\<lambda>p64.
        bindR (if 0 \<le> p64 then readDirectory64End r p64 d else Inr d) (\<lambda>d.
          let ofs = int64_of (directoryOffset d) in
          if ofs < 0 \<or> sz \<le> ofs then Inl ErrFormat else Inr d)))))"

section \<open>A central directory record\<close>

text \<open>A \<open>File\<close>: the embedded \<open>FileHeader\<close> is \<open>f_hdr\<close>.\<close>

record File =
  f_hdr :: FileHeader
  zipr :: read_at
  zipsize :: int
  headerOffset :: int

definition readDirectoryHeader_fixed :: "byte list \<Rightarrow> File \<Rightarrow> (File \<times> nat \<times> nat \<times> nat) result" where
  "readDirectoryHeader_fixed buf f =
     bindR (or_panic (rb_uint32 buf)) (\<lambda>(sig, b).
       if sig \<noteq> directoryHeaderSignature then Inl ErrFormat
       else or_panic (do {
         (cv, b) \<leftarrow> rb_uint16 b;
         (rv, b) \<leftarrow> rb_uint16 b;
         (fl, b) \<leftarrow> rb_uint16 b;
         (me, b) \<leftarrow> rb_uint16 b;
         (mt, b) \<leftarrow> rb_uint16 b;
         (md, b) \<leftarrow> rb_uint16 b;
         (crc, b) \<leftarrow> rb_uint32 b;
         (cs, b) \<leftarrow> rb_uint32 b;
         (us, b) \<leftarrow> rb_uint32 b;
         (filenameLen, b) \<leftarrow> rb_uint16 b;
         (extraLen, b) \<leftarrow> rb_uint16 b;
         (comLen, b) \<leftarrow> rb_uint16 b;
         b \<leftarrow> slice_from 4 b;
         (attrs, b) \<leftarrow> rb_uint32 b;
         (off, b) \<leftarrow> rb_uint32 b;
         Some (f\<lparr>f_hdr := (f_hdr f)\<lparr>CreatorVersion := cv, ReaderVersion := rv, Flags := fl,
             Method := me, ModifiedTime := mt, ModifiedDate := md, CRC32 := crc,
             CompressedSize := cs, UncompressedSize := us, CompressedSize64 := ucast cs,
             UncompressedSize64 := ucast us, ExternalAttrs := attrs\<rparr>,
           headerOffset := uint off\<rparr>, unat filenameLen, unat extraLen, unat comLen) }))"

text \<open>The \<open>switch tag\<close> of \<open>readDirectoryHeader\<close>; \<open>^uint32(0)\<close> is \<open>uint32max\<close>.\<close>

definition readExtraField :: "u16 \<Rightarrow> byte list \<Rightarrow> File \<Rightarrow> File result" where
  "readExtraField tag eb f =
     (if tag = zip64ExtraId then
        bindR (if UncompressedSize (f_hdr f) = uint32max then
                 (if length eb < 8 then Inl ErrFormat
                  else bindR (or_panic (rb_uint64 eb)) (\<lambda>(v, eb).
                    Inr (eb, f\<lparr>f_hdr := (f_hdr f)\<lparr>UncompressedSize64 := v\<rparr>\<rparr>)))
               else Inr (eb, f)) (\<lambda>(eb, f).
        bindR (if CompressedSize (f_hdr f) = uint32max then
                 (if length eb < 8 then Inl ErrFormat
                  else bindR (or_panic (rb_uint64 eb)) (\<lambda>(v, eb).
                    Inr (eb, f\<lparr>f_hdr := (f_hdr f)\<lparr>CompressedSize64 := v\<rparr>\<rparr>)))
               else Inr (eb, f)) (\<lambda>(eb, f).
        if headerOffset f = uint32max then
          (if length eb < 8 then Inl ErrFormat
           else bindR (or_panic (rb_uint64 eb)) (\<lambda>(v, eb). Inr (f\<lparr>headerOffset := int64_of v\<rparr>)))
        else Inr f))
      else if tag = winzipAesExtraId then
        (if length eb < 7 then Inr f
         else or_panic (do {
           (v, eb) \<leftarrow> rb_uint16 eb;
           (_, eb) \<leftarrow> rb_uint16 eb;
           (s, eb) \<leftarrow> rb_uint8 eb;
           (m, eb) \<leftarrow> rb_uint16 eb;
           Some (f\<lparr>f_hdr := (f_hdr f)\<lparr>ae := v, aesStrength := s, Method := m\<rparr>\<rparr>) }))
      else if tag = xxh3ExtraId then
        (if 8 \<le> length eb
         then bindR (or_panic (rb_uint64 eb)) (\<lambda>(v, eb). Inr (f\<lparr>f_hdr := (f_hdr f)\<lparr>XXH3 := v\<rparr>\<rparr>))
         else Inr f)
      else Inr f)"

text \<open>
  The loop over the extra fields. The first two reads cannot fail behind the guard; the \<open>None\<close> case
  is a panic.
\<close>

function readExtra_loop :: "byte list \<Rightarrow> File \<Rightarrow> (byte list \<times> File) result" where
  "readExtra_loop b f =
     (if 4 \<le> length b then
        (case do { (tag, b1) \<leftarrow> rb_uint16 b; (sz, b2) \<leftarrow> rb_uint16 b1; Some (tag, unat sz, b2) } of
           None \<Rightarrow> Inl GoPanic
         | Some (tag, sz, b2) \<Rightarrow>
             if length b2 < sz then Inl ErrFormat
             else case readExtraField tag (take sz b2) f of
                    Inl e \<Rightarrow> Inl e
                  | Inr f' \<Rightarrow> readExtra_loop (drop sz b2) f')
      else Inr (b, f))"
  by pat_completeness auto
termination
  by (relation "measure (\<lambda>(b, f). length b)")
     (auto simp: rb_uint16_def bind_eq_Some_conv split: if_splits)

declare readExtra_loop.simps [simp del]

definition readDirectoryHeader_extra :: "File \<Rightarrow> File result" where
  "readDirectoryHeader_extra f =
     (if 0 < length (Extra (f_hdr f)) then
        bindR (readExtra_loop (Extra (f_hdr f)) f) (\<lambda>(b, f).
          if \<exists>v \<in> set b. v \<noteq> 0 then Inl ErrFormat else Inr f)
      else Inr f)"

definition readDirectoryHeader ::
  "'s read_fn \<Rightarrow> File \<Rightarrow> 's \<Rightarrow> (File result \<times> 's) option" where
  "readDirectoryHeader rd f s = do {
     (buf, err, s) \<leftarrow> io_ReadFull rd directoryHeaderLen s;
     (case err of
        Some e \<Rightarrow> Some (Inl e, s)
      | None \<Rightarrow>
          (case readDirectoryHeader_fixed buf f of
             Inl e \<Rightarrow> Some (Inl e, s)
           | Inr (f, filenameLen, extraLen, comLen) \<Rightarrow> do {
               (d, err, s) \<leftarrow> io_ReadFull rd (filenameLen + extraLen + comLen) s;
               (case err of
                  Some e \<Rightarrow> Some (Inl e, s)
                | None \<Rightarrow>
                    (let f = f\<lparr>f_hdr := (f_hdr f)\<lparr>Name := take filenameLen d,
                           Extra := take extraLen (drop filenameLen d),
                           Comment := drop (filenameLen + extraLen) d\<rparr>\<rparr>
                     in Some (readDirectoryHeader_extra f, s))) })) }"

section \<open>\<open>NewReader\<close>\<close>

text \<open>
  The loop of \<open>init\<close> collects records until one cannot be read. \<open>bufio.Reader\<close> only groups the reads of
  the section it wraps, so the records are read from the section itself.
\<close>

partial_function (option) init_loop ::
  "'s read_fn \<Rightarrow> File \<Rightarrow> File list \<Rightarrow> 's \<Rightarrow> (File list \<times> zip_error) option" where
  "init_loop rd f0 fs s = do {
     (r, s) \<leftarrow> readDirectoryHeader rd f0 s;
     (case r of
        Inl e \<Rightarrow> Some (fs, e)
      | Inr f \<Rightarrow> init_loop rd f0 (fs @ [f]) s) }"

record Reader =
  rdr_r :: read_at
  rdr_File :: "File list"
  rdr_Comment :: "byte list"

definition maxCentralDirectoryBuffer :: int where "maxCentralDirectoryBuffer = 4 * 2 ^ 20"

definition newFile :: "read_at \<Rightarrow> int \<Rightarrow> File" where
  "newFile r sz = \<lparr>f_hdr = zeroFileHeader, zipr = r, zipsize = sz, headerOffset = 0\<rparr>"

definition NewReader :: "read_at \<Rightarrow> int \<Rightarrow> Reader result option" where
  "NewReader r sz = (case readDirectoryEnd r sz of
     Inl e \<Rightarrow> Some (Inl e)
   | Inr end \<Rightarrow>
       if uint64_of sz div of_nat fileHeaderLen < directoryRecords end
       then Some (Inl (ErrTooManyFiles (directoryRecords end) sz))
       else
         let dirOffset = int64_of (directoryOffset end);
             rs = NewSectionReader r dirOffset (sz - dirOffset);
             buf = bufio_NewReaderSize rs (nat (min (sz - dirOffset) maxCentralDirectoryBuffer))
         in do {
           (fs, err) \<leftarrow> init_loop (bufio_Read section_Read) (newFile r sz) [] buf;
           Some (if err \<noteq> ErrFormat \<and> err \<noteq> ErrUnexpectedEOF then Inl err
                 else if (of_nat (length fs) :: u16) \<noteq> ucast (directoryRecords end) then Inl err
                 else Inr \<lparr>rdr_r = r, rdr_File = fs, rdr_Comment = de_comment end\<rparr>) })"

text \<open>\<open>File.findBodyOffset\<close> and \<open>File.DataOffset\<close>.\<close>

definition findBodyOffset :: "File \<Rightarrow> int result" where
  "findBodyOffset f = (case zipr f fileHeaderLen (headerOffset f) of
     (d, Some err) \<Rightarrow> Inl err
   | (d, None) \<Rightarrow>
       bindR (or_panic (rb_uint32 (filled fileHeaderLen d))) (\<lambda>(sig, b).
         if sig \<noteq> fileHeaderSignature then Inl ErrFormat
         else or_panic (do {
           b \<leftarrow> slice_from 22 b;
           (filenameLen, b) \<leftarrow> rb_uint16 b;
           (extraLen, b) \<leftarrow> rb_uint16 b;
           Some (int fileHeaderLen + uint filenameLen + uint extraLen) })))"

definition DataOffset :: "File \<Rightarrow> int result" where
  "DataOffset f = bindR (findBodyOffset f) (\<lambda>bodyOffset. Inr (add64 (headerOffset f) bodyOffset))"

end
