(* ===== verification/Zip_Directory.thy ===== *)
theory Zip_Directory
  imports Zip_IO Zip_Extra
begin

text \<open>
  The records writer.go writes: the local file header, the central directory record of an entry and
  the end of central directory records, each as the calls of \<open>Write\<close> the code makes. \<open>None\<close> in a
  buffer function is a write past the end of its array.
\<close>

section \<open>Local file headers\<close>

definition fileHeader_buf :: "FileHeader \<Rightarrow> byte list option" where
  "fileHeader_buf h = do {
     b \<leftarrow> wb_uint32 fileHeaderSignature (wb_make fileHeaderLen);
     b \<leftarrow> wb_uint16 (ReaderVersion h) b;
     b \<leftarrow> wb_uint16 (Flags h) b;
     b \<leftarrow> wb_uint16 (Method h) b;
     b \<leftarrow> wb_uint16 (ModifiedTime h) b;
     b \<leftarrow> wb_uint16 (ModifiedDate h) b;
     b \<leftarrow> wb_uint32 0 b;
     b \<leftarrow> wb_uint32 0 b;
     b \<leftarrow> wb_uint32 0 b;
     b \<leftarrow> wb_uint16 (of_nat (length (Name h))) b;
     b \<leftarrow> wb_uint16 (of_nat (length (Extra h))) b;
     Some (wb_all b) }"

definition writeHeader :: "'w write_fn \<Rightarrow> FileHeader \<Rightarrow> 'w \<Rightarrow> zip_error option \<times> 'w" where
  "writeHeader wr h w =
     (if uint16max < length (Name h) then (Some ErrLongName, w)
      else if uint16max < length (Extra h) then (Some ErrLongExtra, w)
      else case fileHeader_buf h of
             None \<Rightarrow> (Some GoPanic, w)
           | Some buf \<Rightarrow> write_seq wr [buf, Name h, Extra h] w)"

section \<open>Central directory records\<close>

definition xxh3Extra :: "u64 \<Rightarrow> byte list option" where
  "xxh3Extra v = do {
     eb \<leftarrow> wb_uint16 xxh3ExtraId (wb_make 12);
     eb \<leftarrow> wb_uint16 8 eb;
     eb \<leftarrow> wb_uint64 v eb;
     Some (wb_all eb) }"

definition zip64Extra :: "u64 \<Rightarrow> u64 \<Rightarrow> u64 \<Rightarrow> byte list option" where
  "zip64Extra u c offset = do {
     eb \<leftarrow> wb_uint16 zip64ExtraId (wb_make 28);
     eb \<leftarrow> wb_uint16 24 eb;
     eb \<leftarrow> wb_uint64 u eb;
     eb \<leftarrow> wb_uint64 c eb;
     eb \<leftarrow> wb_uint64 offset eb;
     Some (wb_all eb) }"

definition directory_zip64 :: "FileHeader \<Rightarrow> u64 \<Rightarrow> bool" where
  "directory_zip64 h offset \<longleftrightarrow> isZip64 h \<or> uint32max \<le> offset"

definition directoryHeader_extra :: "FileHeader \<Rightarrow> u64 \<Rightarrow> byte list option" where
  "directoryHeader_extra h offset = do {
     x \<leftarrow> (if XXH3 h \<noteq> 0 then xxh3Extra (XXH3 h) else Some []);
     z \<leftarrow> (if directory_zip64 h offset
           then zip64Extra (UncompressedSize64 h) (CompressedSize64 h) offset else Some []);
     Some (Extra h @ x @ z) }"

definition directoryHeader_buf :: "FileHeader \<Rightarrow> u64 \<Rightarrow> nat \<Rightarrow> byte list option" where
  "directoryHeader_buf h offset extraLen = do {
     b \<leftarrow> wb_uint32 directoryHeaderSignature (wb_make directoryHeaderLen);
     b \<leftarrow> wb_uint16 (CreatorVersion h) b;
     b \<leftarrow> wb_uint16 (ReaderVersion h) b;
     b \<leftarrow> wb_uint16 (Flags h) b;
     b \<leftarrow> wb_uint16 (Method h) b;
     b \<leftarrow> wb_uint16 (ModifiedTime h) b;
     b \<leftarrow> wb_uint16 (ModifiedDate h) b;
     b \<leftarrow> wb_uint32 (CRC32 h) b;
     b \<leftarrow> wb_uint32 (if directory_zip64 h offset then uint32max else CompressedSize h) b;
     b \<leftarrow> wb_uint32 (if directory_zip64 h offset then uint32max else UncompressedSize h) b;
     b \<leftarrow> wb_uint16 (of_nat (length (Name h))) b;
     b \<leftarrow> wb_uint16 (of_nat extraLen) b;
     b \<leftarrow> wb_uint16 (of_nat (length (Comment h))) b;
     b \<leftarrow> wb_skip 4 b;
     b \<leftarrow> wb_uint32 (ExternalAttrs h) b;
     b \<leftarrow> wb_uint32 (if uint32max \<le> offset then uint32max else ucast offset) b;
     Some (wb_all b) }"

text \<open>\<open>writeDirectoryHeader\<close>: \<open>h.FileHeader\<close> and \<open>h.offset\<close> of the Go \<open>header\<close> are the arguments.\<close>

definition writeDirectoryHeader ::
  "'w write_fn \<Rightarrow> FileHeader \<Rightarrow> u64 \<Rightarrow> 'w \<Rightarrow> zip_error option \<times> 'w" where
  "writeDirectoryHeader wr h offset w = (case directoryHeader_extra h offset of
     None \<Rightarrow> (Some GoPanic, w)
   | Some extra \<Rightarrow>
       if uint16max < length (Name h) then (Some ErrLongName, w)
       else if uint16max < length extra then (Some ErrLongExtra, w)
       else if uint16max < length (Comment h) then (Some ErrLongComment, w)
       else case directoryHeader_buf h offset (length extra) of
              None \<Rightarrow> (Some GoPanic, w)
            | Some buf \<Rightarrow> write_seq wr [buf, Name h, extra, Comment h] w)"

section \<open>End of central directory\<close>

definition directory64_buf :: "u64 \<Rightarrow> u64 \<Rightarrow> u64 \<Rightarrow> byte list option" where
  "directory64_buf records sz offset = do {
     b \<leftarrow> wb_uint32 directory64EndSignature (wb_make (directory64EndLen + directory64LocLen));
     b \<leftarrow> wb_uint64 (of_nat directory64EndLen - 12) b;
     b \<leftarrow> wb_uint16 zipVersion45 b;
     b \<leftarrow> wb_uint16 zipVersion45 b;
     b \<leftarrow> wb_uint32 0 b;
     b \<leftarrow> wb_uint32 0 b;
     b \<leftarrow> wb_uint64 records b;
     b \<leftarrow> wb_uint64 records b;
     b \<leftarrow> wb_uint64 sz b;
     b \<leftarrow> wb_uint64 offset b;
     b \<leftarrow> wb_uint32 directory64LocSignature b;
     b \<leftarrow> wb_uint32 0 b;
     b \<leftarrow> wb_uint64 (offset + sz) b;
     b \<leftarrow> wb_uint32 1 b;
     Some (wb_all b) }"

definition directoryEnd_buf :: "u64 \<Rightarrow> u64 \<Rightarrow> u64 \<Rightarrow> byte list option" where
  "directoryEnd_buf records sz offset = do {
     b \<leftarrow> wb_uint32 directoryEndSignature (wb_make directoryEndLen);
     b \<leftarrow> wb_skip 4 b;
     b \<leftarrow> wb_uint16 (ucast records) b;
     b \<leftarrow> wb_uint16 (ucast records) b;
     b \<leftarrow> wb_uint32 (ucast sz) b;
     b \<leftarrow> wb_uint32 (ucast offset) b;
     Some (wb_all b) }"

text \<open>The condition of \<open>writeDirectoryEnd\<close>: some value does not fit the regular end record.\<close>

definition end_wide :: "u64 \<Rightarrow> u64 \<Rightarrow> u64 \<Rightarrow> bool" where
  "end_wide records sz off \<longleftrightarrow> uint16max \<le> records \<or> uint32max \<le> sz \<or> uint32max \<le> off"

definition writeDirectoryEnd ::
  "'w write_fn \<Rightarrow> u64 \<Rightarrow> u64 \<Rightarrow> u64 \<Rightarrow> 'w \<Rightarrow> zip_error option \<times> 'w" where
  "writeDirectoryEnd wr records sz offset w =
     (let wide = end_wide records sz offset;
          (err, w) =
            (if wide then
               (case directory64_buf records sz offset of
                  None \<Rightarrow> (Some GoPanic, w)
                | Some buf \<Rightarrow> write_seq wr [buf] w)
             else (None, w));
          records = (if wide then uint16max else records);
          sz = (if wide then uint32max else sz);
          offset = (if wide then uint32max else offset)
      in case err of
           Some e \<Rightarrow> (Some e, w)
         | None \<Rightarrow>
             (case directoryEnd_buf records sz offset of
                None \<Rightarrow> (Some GoPanic, w)
              | Some buf \<Rightarrow> write_seq wr [buf] w))"

section \<open>The bytes of the records\<close>

definition fileHeader_wire :: "FileHeader \<Rightarrow> byte list" where
  "fileHeader_wire h = put32 fileHeaderSignature @ put16 (ReaderVersion h) @ put16 (Flags h)
     @ put16 (Method h) @ put16 (ModifiedTime h) @ put16 (ModifiedDate h)
     @ put32 0 @ put32 0 @ put32 0
     @ put16 (of_nat (length (Name h))) @ put16 (of_nat (length (Extra h)))"

definition xxh3_field :: "FileHeader \<Rightarrow> (u16 \<times> byte list) list" where
  "xxh3_field h = (if XXH3 h \<noteq> 0 then [(xxh3ExtraId, put64 (XXH3 h))] else [])"

definition zip64_field :: "FileHeader \<Rightarrow> u64 \<Rightarrow> (u16 \<times> byte list) list" where
  "zip64_field h offset = (if directory_zip64 h offset
     then [(zip64ExtraId, put64 (UncompressedSize64 h) @ put64 (CompressedSize64 h) @ put64 offset)]
     else [])"

definition directory_extra :: "FileHeader \<Rightarrow> u64 \<Rightarrow> byte list" where
  "directory_extra h offset = Extra h @ joinExtra (xxh3_field h @ zip64_field h offset)"

definition directoryHeader_wire :: "FileHeader \<Rightarrow> u64 \<Rightarrow> byte list" where
  "directoryHeader_wire h offset = put32 directoryHeaderSignature
     @ put16 (CreatorVersion h) @ put16 (ReaderVersion h) @ put16 (Flags h) @ put16 (Method h)
     @ put16 (ModifiedTime h) @ put16 (ModifiedDate h) @ put32 (CRC32 h)
     @ put32 (if directory_zip64 h offset then uint32max else CompressedSize h)
     @ put32 (if directory_zip64 h offset then uint32max else UncompressedSize h)
     @ put16 (of_nat (length (Name h))) @ put16 (of_nat (length (directory_extra h offset)))
     @ put16 (of_nat (length (Comment h))) @ replicate 4 0 @ put32 (ExternalAttrs h)
     @ put32 (if uint32max \<le> offset then uint32max else ucast offset)"

definition directory64_wire :: "u64 \<Rightarrow> u64 \<Rightarrow> u64 \<Rightarrow> byte list" where
  "directory64_wire records sz offset = put32 directory64EndSignature @ put64 44
     @ put16 zipVersion45 @ put16 zipVersion45 @ put32 0 @ put32 0
     @ put64 records @ put64 records @ put64 sz @ put64 offset
     @ put32 directory64LocSignature @ put32 0 @ put64 (offset + sz) @ put32 1"

definition directoryEnd_wire :: "u64 \<Rightarrow> u64 \<Rightarrow> u64 \<Rightarrow> byte list" where
  "directoryEnd_wire records sz offset = put32 directoryEndSignature @ replicate 4 0
     @ put16 (ucast records) @ put16 (ucast records) @ put32 (ucast sz) @ put32 (ucast offset)
     @ replicate 2 0"

text \<open>Every buffer has the right size: no write past an array, and every array is full.\<close>

lemma fileHeader_buf_wire [simp]: "fileHeader_buf h = Some (fileHeader_wire h)"
  by (simp add: fileHeader_buf_def wb_make_def wire wb_all_def fileHeader_wire_def)

lemma xxh3Extra_wire [simp]: "xxh3Extra v = Some (extraField xxh3ExtraId (put64 v))"
  by (simp add: xxh3Extra_def wb_make_def wire wb_all_def extraField_def)

lemma zip64Extra_wire [simp]:
  "zip64Extra u c off = Some (extraField zip64ExtraId (put64 u @ put64 c @ put64 off))"
  by (simp add: zip64Extra_def wb_make_def wire wb_all_def extraField_def)

lemma directoryHeader_extra_wire [simp]: "directoryHeader_extra h off = Some (directory_extra h off)"
  by (simp add: directoryHeader_extra_def directory_extra_def xxh3_field_def zip64_field_def)

lemma directoryHeader_buf_wire [simp]:
  "directoryHeader_buf h off (length (directory_extra h off)) = Some (directoryHeader_wire h off)"
  by (simp add: directoryHeader_buf_def wb_make_def wire wb_all_def directoryHeader_wire_def)

lemma directory64_buf_wire [simp]:
  "directory64_buf records sz off = Some (directory64_wire records sz off)"
  by (simp add: directory64_buf_def wb_make_def wire wb_all_def directory64_wire_def)

lemma directoryEnd_buf_wire [simp]:
  "directoryEnd_buf records sz off = Some (directoryEnd_wire records sz off)"
  by (simp add: directoryEnd_buf_def wb_make_def wire wb_all_def directoryEnd_wire_def numeral_2_eq_2)

lemma length_wires [simp]:
  "length (fileHeader_wire h) = 30"
  "length (directoryHeader_wire h off) = 46"
  "length (directory64_wire records sz off) = 76"
  "length (directoryEnd_wire records sz off) = 22"
  by (simp_all add: fileHeader_wire_def directoryHeader_wire_def directory64_wire_def
      directoryEnd_wire_def)

definition header_fits :: "FileHeader \<Rightarrow> bool" where
  "header_fits h \<longleftrightarrow> length (Name h) \<le> 65535 \<and> length (Extra h) \<le> 65535"

definition directory_fits :: "FileHeader \<Rightarrow> u64 \<Rightarrow> bool" where
  "directory_fits h off \<longleftrightarrow> length (Name h) \<le> 65535 \<and> length (directory_extra h off) \<le> 65535
     \<and> length (Comment h) \<le> 65535"

definition directory_record :: "FileHeader \<Rightarrow> u64 \<Rightarrow> byte list" where
  "directory_record h off = directoryHeader_wire h off @ Name h @ directory_extra h off @ Comment h"

definition directory_end :: "u64 \<Rightarrow> u64 \<Rightarrow> u64 \<Rightarrow> byte list" where
  "directory_end records sz off =
     (if end_wide records sz off
      then directory64_wire records sz off @ directoryEnd_wire uint16max uint32max uint32max
      else directoryEnd_wire records sz off)"

lemma length_directory_record:
  "length (directory_record h off) =
     46 + length (Name h) + length (directory_extra h off) + length (Comment h)"
  by (simp add: directory_record_def)

lemma writeHeader_fits:
  "header_fits h \<Longrightarrow> writeHeader wr h w = write_seq wr [fileHeader_wire h, Name h, Extra h] w"
  by (simp add: writeHeader_def header_fits_def)

lemma writeHeader_long:
  "\<not> header_fits h \<Longrightarrow> writeHeader wr h w =
     (Some (if 65535 < length (Name h) then ErrLongName else ErrLongExtra), w)"
  by (auto simp: writeHeader_def header_fits_def)

lemma writeDirectoryHeader_fits:
  "directory_fits h off \<Longrightarrow> writeDirectoryHeader wr h off w =
     write_seq wr [directoryHeader_wire h off, Name h, directory_extra h off, Comment h] w"
  by (simp add: writeDirectoryHeader_def directory_fits_def)

lemma writeDirectoryHeader_long:
  "\<not> directory_fits h off \<Longrightarrow> \<exists>e \<in> {ErrLongName, ErrLongExtra, ErrLongComment}.
     writeDirectoryHeader wr h off w = (Some e, w)"
  by (auto simp: writeDirectoryHeader_def directory_fits_def)

lemma write_seq_append:
  "write_seq wr (ps @ qs) w =
     (case write_seq wr ps w of (Some e, w') \<Rightarrow> (Some e, w') | (None, w') \<Rightarrow> write_seq wr qs w')"
  by (induction ps arbitrary: w) (auto split: prod.splits option.splits)

lemma writeDirectoryEnd_seq:
  "writeDirectoryEnd wr records sz off w =
     write_seq wr ((if end_wide records sz off then [directory64_wire records sz off] else [])
       @ [if end_wide records sz off then directoryEnd_wire uint16max uint32max uint32max
          else directoryEnd_wire records sz off]) w"
proof (cases "end_wide records sz off")
  case True
  then show ?thesis
    by (auto simp: writeDirectoryEnd_def split: prod.splits option.splits)
next
  case False
  then show ?thesis
    by (auto simp: writeDirectoryEnd_def split: prod.splits option.splits)
qed

lemma concat_directory_end:
  "concat ((if end_wide records sz off then [directory64_wire records sz off] else [])
       @ [if end_wide records sz off then directoryEnd_wire uint16max uint32max uint32max
          else directoryEnd_wire records sz off]) = directory_end records sz off"
  by (simp add: directory_end_def)

end
