(* ===== verification/Zip_Reader.thy ===== *)
theory Zip_Reader
  imports Zip_Parse Zip_Directory
begin

text \<open>
  What the parsers of \<open>Zip_Parse\<close> do: they never panic and always return, the end record found is the
  last one that fits, and the directory that \<open>Zip_Directory\<close> writes is read back.
\<close>

section \<open>The signature search\<close>

definition end_at :: "byte list \<Rightarrow> nat \<Rightarrow> bool" where
  "end_at b i \<longleftrightarrow> i + 22 \<le> length b \<and> take 4 (drop i b) = put32 directoryEndSignature
     \<and> i + 22 + unat (get16 (drop (i + 20) b)) \<le> length b"

lemma signature_bytes: "put32 directoryEndSignature = [0x50, 0x4B, 0x05, 0x06]"
  by (simp add: put32_def directoryEndSignature_def)

lemma take4_nth: "i + 4 \<le> length b \<Longrightarrow> take 4 (drop i b) = [b ! i, b ! (i+1), b ! (i+2), b ! (i+3)]"
  by (simp add: numeral_eq_Suc take_Suc_conv_app_nth)

lemma findSignature_loop_spec:
  "k + 21 \<le> length b \<Longrightarrow>
     findSignature_loop b k =
       (if \<exists>i<k. end_at b i then int (GREATEST i. i < k \<and> end_at b i) else -1)"
proof (induction k)
  case (Suc k)
  have m: "end_at b k \<longleftrightarrow> b ! k = 0x50 \<and> b ! (k + 1) = 0x4B \<and> b ! (k + 2) = 0x05 \<and> b ! (k + 3) = 0x06
         \<and> unat (get16 (drop (k + directoryEndLen - 2) b)) + directoryEndLen + k \<le> length b"
    using Suc.prems take4_nth [of k b] by (auto simp: end_at_def signature_bytes add_ac)
  show ?case
  proof (cases "end_at b k")
    case True
    then have "(GREATEST i. i < Suc k \<and> end_at b i) = k" by (intro Greatest_equality) auto
    with True m show ?thesis by auto
  next
    case False
    then have "(\<lambda>i. i < Suc k \<and> end_at b i) = (\<lambda>i. i < k \<and> end_at b i)"
      by (auto simp: less_Suc_eq)
    with False m Suc show ?thesis by (auto simp: less_Suc_eq)
  qed
qed simp

lemma findSignatureInBlock_cases:
  obtains (found) i where "findSignatureInBlock b = int i" "end_at b i" "\<forall>j>i. \<not> end_at b j"
  | (none) "findSignatureInBlock b = -1" "\<forall>i. \<not> end_at b i"
proof (cases "22 \<le> length b")
  case True
  have b: "(\<lambda>i. i < length b + 1 - directoryEndLen \<and> end_at b i) = end_at b"
    by (rule ext) (auto simp: end_at_def)
  then have ex: "(\<exists>i < length b + 1 - directoryEndLen. end_at b i) \<longleftrightarrow> (\<exists>i. end_at b i)" by metis
  have l: "length b + 1 - directoryEndLen + 21 \<le> length b" using True by simp
  have eq: "findSignatureInBlock b = (if \<exists>i. end_at b i then int (Greatest (end_at b)) else -1)"
    unfolding findSignatureInBlock_def findSignature_loop_spec [OF l] b ex by (rule refl)
  show ?thesis
  proof (cases "\<exists>i. end_at b i")
    case t: True
    let ?g = "GREATEST i. end_at b i"
    have "end_at b ?g" using t by (rule GreatestI_ex_nat [where b = "length b"]) (auto simp: end_at_def)
    moreover have "\<not> end_at b j" if "?g < j" for j
    proof
      assume "end_at b j"
      then have "j \<le> ?g" by (rule Greatest_le_nat [where b = "length b"]) (auto simp: end_at_def)
      with that show False by simp
    qed
    moreover have "findSignatureInBlock b = int ?g"
      using t by (simp only: eq if_True)
    ultimately show ?thesis using found by blast
  next
    case f: False
    then have "findSignatureInBlock b = -1"
      by (simp only: eq if_False)
    with f none show ?thesis by blast
  qed
next
  case False
  then have "length b + 1 - directoryEndLen = 0" by simp
  with False none show ?thesis by (auto simp: findSignatureInBlock_def end_at_def)
qed

section \<open>Absence of panics\<close>

lemma length_filled [simp]: "length (filled n d) = n"
  by (simp add: filled_def)

lemma no_panic_Some [simp]: "m \<noteq> None \<Longrightarrow> no_panic (or_panic m)"
  by (cases m) auto

definition lawful_at :: "read_at \<Rightarrow> bool" where
  "lawful_at r \<longleftrightarrow> (\<forall>n off. snd (r n off) \<noteq> Some GoPanic)"

lemma parseDirectory64Loc_safe: "20 \<le> length b \<Longrightarrow> no_panic (parseDirectory64Loc b)"
  by (simp add: parseDirectory64Loc_def rb_enough)

lemma parse_directoryEnd_safe: "22 \<le> length b \<Longrightarrow> no_panic (parse_directoryEnd b)"
  by (auto simp: parse_directoryEnd_def rb_enough Let_def)

lemma findDirectory64End_safe:
  assumes "lawful_at r"
  shows "no_panic (findDirectory64End r off)"
  using assms [unfolded lawful_at_def, rule_format, of directory64LocLen "off - int directory64LocLen"]
  by (cases "r directory64LocLen (off - int directory64LocLen)")
     (auto simp: findDirectory64End_def Let_def intro: parseDirectory64Loc_safe split: option.splits)

lemma readDirectory64End_safe:
  assumes "lawful_at r"
  shows "no_panic (readDirectory64End r off d)"
  using assms [unfolded lawful_at_def, rule_format, of directory64EndLen off]
  by (cases "r directory64EndLen off")
     (auto simp: readDirectory64End_def rb_enough split: option.splits)

lemma readDirectoryEnd_find_safe:
  assumes "lawful_at r" "ls \<noteq> []"
  shows "no_panic (readDirectoryEnd_find r sz ls)"
    and "readDirectoryEnd_find r sz ls = Inr (buf, p, off) \<Longrightarrow> p + 22 \<le> length buf"
proof -
  have "no_panic (readDirectoryEnd_find r sz ls) \<and>
    (\<forall>buf p off. readDirectoryEnd_find r sz ls = Inr (buf, p, off) \<longrightarrow> p + 22 \<le> length buf)"
    using assms(2)
  proof (induction ls)
    case (Cons l ls)
    define bLen where "bLen = (if sz < l then sz else l)"
    obtain d err where d: "r (nat bLen) (sz - bLen) = (d, err)" by fastforce
    with assms(1) have e: "err \<noteq> Some GoPanic" by (metis lawful_at_def snd_conv)
    define b where "b = filled (nat bLen) d"
    have step: "readDirectoryEnd_find r sz (l # ls) =
      (if err \<noteq> None \<and> err \<noteq> Some ErrEOF then Inl (the err)
       else if 0 \<le> findSignatureInBlock b then Inr (b, nat (findSignatureInBlock b), sz - bLen + findSignatureInBlock b)
       else if ls = [] \<or> bLen = sz then Inl ErrFormat else readDirectoryEnd_find r sz ls)"
      using d by (simp add: bLen_def b_def Let_def)
    note readDirectoryEnd_find.simps [simp del]
    show ?case
    proof (cases rule: findSignatureInBlock_cases [of b])
      case (found i)
      then have "i + 22 \<le> length b" by (simp add: end_at_def)
      with found e show ?thesis by (auto simp: step)
    next
      case none
      with e Cons show ?thesis by (auto simp: step)
    qed
  qed simp
  then show "no_panic (readDirectoryEnd_find r sz ls)"
    and "readDirectoryEnd_find r sz ls = Inr (buf, p, off) \<Longrightarrow> p + 22 \<le> length buf"
    by blast+
qed

lemma readDirectoryEnd_safe:
  assumes "lawful_at r"
  shows "no_panic (readDirectoryEnd r sz)"
proof -
  note f = readDirectoryEnd_find_safe [OF assms, of "[1024, 65 * 1024]", simplified]
  show ?thesis
    unfolding readDirectoryEnd_def
  proof (simp only: if_split, intro conjI impI, simp, rule no_panic_bindR, goal_cases)
    case 1
    show ?case using f(1) [of sz] by simp
  next
    case (2 x)
    obtain buf p off where x: "x = (buf, p, off)" by (cases x) auto
    with 2 have p: "p + 22 \<le> length buf" using f(2) [of sz buf p off] by simp
    have loc: "no_panic (parseDirectory64Loc (take 20 (drop (p - 20) buf)))" if "20 \<le> p"
      by (rule parseDirectory64Loc_safe) (use p that in simp)
    show ?case
      unfolding x Let_def split
    proof (rule no_panic_bindR, rule parse_directoryEnd_safe, use p in simp, goal_cases)
      case (1 d)
      show ?case
        by (rule no_panic_bindR)
           (auto intro!: no_panic_bindR simp: assms readDirectory64End_safe Let_def p
             intro: loc findDirectory64End_safe split: option.splits)
    qed
  qed
qed

lemma readDirectoryHeader_fixed_safe:
  "46 \<le> length buf \<Longrightarrow> no_panic (readDirectoryHeader_fixed buf f)"
  by (simp add: readDirectoryHeader_fixed_def rb_enough)

lemma readExtraField_safe: "no_panic (readExtraField tag eb f)"
proof -
  have zip64: "no_panic (bindR
     (if c then if length eb < 8 then Inl ErrFormat
        else bindR (or_panic (rb_uint64 eb)) (\<lambda>(v, eb). Inr (eb, g v)) else Inr (eb, f)) k)"
    if "\<And>eb f. no_panic (k (eb, f))" for c eb g f and k :: "byte list \<times> File \<Rightarrow> 'a result"
    using that by (intro no_panic_bindR) (auto simp: rb_enough)
  show ?thesis
    unfolding readExtraField_def
    by (auto intro!: zip64 simp: rb_enough split: prod.splits)
qed

lemma readExtra_loop_safe: "no_panic (readExtra_loop b f)"
proof (induction b f rule: readExtra_loop.induct)
  case (1 b f)
  show ?case
  proof (cases "4 \<le> length b")
    case True
    then have h: "do { (tag, b1) \<leftarrow> rb_uint16 b; (sz, b2) \<leftarrow> rb_uint16 b1; Some (tag, unat sz, b2) } =
      Some (get16 b, unat (get16 (drop 2 b)), drop 4 b)"
      by (simp add: rb_enough)
    let ?n = "unat (get16 (drop 2 b))"
    show ?thesis
    proof (cases "readExtraField (get16 b) (take ?n (drop 4 b)) f")
      case (Inl e)
      with readExtraField_safe [of "get16 b" "take ?n (drop 4 b)" f] True show ?thesis
        by (subst readExtra_loop.simps) (simp add: h)
    next
      case (Inr f')
      with "1.IH" [OF True h refl refl _ Inr] True show ?thesis
        by (subst readExtra_loop.simps) (simp add: h)
    qed
  next
    case False
    then show ?thesis by (subst readExtra_loop.simps) simp
  qed
qed

lemma readDirectoryHeader_extra_safe: "no_panic (readDirectoryHeader_extra f)"
  by (auto simp: readDirectoryHeader_extra_def intro!: no_panic_bindR readExtra_loop_safe)

context io_reader
begin

lemma readDirectoryHeader_total:
  assumes "inv s" "fin s \<noteq> GoPanic"
  obtains r s' where "readDirectoryHeader rd f s = Some (r, s')" "inv s'" "fin s' = fin s" "no_panic r"
    "length (stream s') \<le> length (stream s)"
    "\<And>f'. r = Inr f' \<Longrightarrow> length (stream s') + 46 \<le> length (stream s)"
proof -
  obtain s1 where s1: "io_ReadFull rd 46 s = Some (take 46 (stream s), readFull_err 46 (stream s) (fin s), s1)"
    "inv s1" "fin s1 = fin s" "stream s1 = drop 46 (stream s)"
    using ReadFull_spec [OF assms(1), of 46] by metis
  show ?thesis
  proof (cases "length (stream s) < 46")
    case True
    then obtain e where e: "readFull_err 46 (stream s) (fin s) = Some e" "e \<noteq> GoPanic"
      using assms(2) by (cases "0 < length (stream s) \<and> fin s = ErrEOF") (auto simp: readFull_err_def)
    with s1 that [of "Inl e" s1] show ?thesis by (simp add: readDirectoryHeader_def)
  next
    case False
    then have e: "readFull_err 46 (stream s) (fin s) = None" by (simp add: readFull_err_def)
    show ?thesis
    proof (cases "readDirectoryHeader_fixed (take 46 (stream s)) f")
      case (Inl err)
      with readDirectoryHeader_fixed_safe [of "take 46 (stream s)" f] False
      show ?thesis using s1 e that [of "Inl err" s1] by (simp add: readDirectoryHeader_def)
    next
      case (Inr x)
      obtain f1 nl xl cl where x: "x = (f1, nl, xl, cl)" by (cases x) auto
      let ?n = "nl + xl + cl"
      obtain s2 where s2: "io_ReadFull rd ?n s1 =
          Some (take ?n (stream s1), readFull_err ?n (stream s1) (fin s1), s2)"
        "inv s2" "fin s2 = fin s1" "stream s2 = drop ?n (stream s1)"
        using ReadFull_spec [OF s1(2), of ?n] by metis
      show ?thesis
      proof (cases "readFull_err ?n (stream s1) (fin s1)")
        case None
        with s1 s2 e Inr x readDirectoryHeader_extra_safe that show ?thesis
          using False by (simp add: readDirectoryHeader_def Let_def)
      next
        case (Some err)
        moreover have "err \<noteq> GoPanic"
          using Some assms(2) s1(3) by (auto simp: readFull_err_def split: if_splits)
        ultimately show ?thesis
          using s1 s2 e Inr x that [of "Inl err" s2] by (simp add: readDirectoryHeader_def)
      qed
    qed
  qed
qed

lemma init_loop_total:
  "inv s \<Longrightarrow> fin s \<noteq> GoPanic \<Longrightarrow> \<exists>fs' e. init_loop rd f0 fs s = Some (fs', e) \<and> e \<noteq> GoPanic"
proof (induction "length (stream s)" arbitrary: s fs rule: less_induct)
  case less
  obtain r s' where r: "readDirectoryHeader rd f0 s = Some (r, s')" "inv s'" "fin s' = fin s" "no_panic r"
    "\<And>f'. r = Inr f' \<Longrightarrow> length (stream s') + 46 \<le> length (stream s)"
    using readDirectoryHeader_total [OF less.prems, of f0] by metis
  show ?case
  proof (cases r)
    case (Inl e)
    with r show ?thesis by (subst init_loop.simps) simp
  next
    case (Inr f)
    with r(5) have "length (stream s') < length (stream s)" by simp
    from less.hyps [OF this r(2)] r(1,3) Inr less.prems(2) show ?thesis
      by (subst init_loop.simps) simp
  qed
qed

end

lemma file_at_lawful: "lawful_at (file_at A)"
  by (auto simp: lawful_at_def file_at_def Let_def)

lemma NewSectionReader_base:
  "0 \<le> off \<Longrightarrow> sec_r (NewSectionReader r off n) = r \<and> 0 \<le> sec_off (NewSectionReader r off n)"
  by (simp add: NewSectionReader_def Let_def)

lemma readDirectoryEnd_offset:
  "readDirectoryEnd r sz = Inr d \<Longrightarrow> 0 \<le> int64_of (directoryOffset d) \<and> int64_of (directoryOffset d) < sz"
  by (auto simp: readDirectoryEnd_def bindR_Inr_iff Let_def split: if_splits)

text \<open>The buffered reader \<open>NewReader\<close> puts in front of the section.\<close>

sublocale random_access \<subseteq> bsec: buffered_reader section_Read "\<lambda>s. sec_r s = ra \<and> 0 \<le> sec_off s"
  "section_bytes D" "\<lambda>_. ErrEOF" "\<lambda>s. nat (sec_limit s - sec_off s)"
  by unfold_locales

context random_access
begin

lemma NewReader_safe:
  assumes "lawful_at ra"
  shows "\<exists>r. NewReader ra sz = Some r \<and> no_panic r"
proof (cases "readDirectoryEnd ra sz")
  case (Inl e)
  with readDirectoryEnd_safe [OF assms, of sz] show ?thesis
    by (simp add: NewReader_def)
next
  case (Inr d)
  let ?o = "int64_of (directoryOffset d)"
  have s: "sec_r (NewSectionReader ra ?o (sz - ?o)) = ra"
    "0 \<le> sec_off (NewSectionReader ra ?o (sz - ?o))"
    using NewSectionReader_base readDirectoryEnd_offset [OF Inr] by blast+
  let ?b = "bufio_NewReaderSize (NewSectionReader ra ?o (sz - ?o)) (nat (min (sz - ?o) maxCentralDirectoryBuffer))"
  have "bsec.br_inv ?b" using s by (intro bsec.br_fresh) simp
  from bsec.bufr.init_loop_total [OF this, of "newFile ra sz" "[]"]
  obtain fs e where "init_loop (bufio_Read section_Read) (newFile ra sz) [] ?b = Some (fs, e)"
    "e \<noteq> GoPanic" by auto
  with Inr show ?thesis by (simp add: NewReader_def Let_def)
qed

end

text \<open>
  C25. \<open>NewReader\<close> returns on every file and every declared size, and no access to a buffer is ever
  out of range: the parser of the end records, of the zip64 records, of the directory headers and of
  their extra fields does not panic on any input.
\<close>

theorem NewReader_total:
  "\<exists>r. NewReader (file_at A) sz = Some r \<and> no_panic r"
  by (rule fil.NewReader_safe [OF file_at_lawful])

section \<open>Reading back what was written\<close>

lemma unat_u16_length [simp]: "n \<le> 65535 \<Longrightarrow> unat (of_nat n :: u16) = n"
  by (simp add: unat_of_nat)

fun readExtra_fields :: "(u16 \<times> byte list) list \<Rightarrow> File \<Rightarrow> File result" where
  "readExtra_fields [] f = Inr f"
| "readExtra_fields ((t, d) # fs) f = bindR (readExtraField t d f) (readExtra_fields fs)"

lemma readExtra_loop_field:
  "length d \<le> 65535 \<Longrightarrow> readExtra_loop (extraField t d @ b) f =
     bindR (readExtraField t d f) (readExtra_loop b)"
  by (subst readExtra_loop.simps) (simp add: extraField_def bindR_def split: sum.splits)

lemma readExtra_loop_join:
  "wfExtra fs \<Longrightarrow> readExtra_loop (joinExtra fs) f = bindR (readExtra_fields fs f) (\<lambda>f. Inr ([], f))"
proof (induction fs arbitrary: f)
  case Nil
  show ?case by (simp add: readExtra_loop.simps)
next
  case (Cons a fs)
  obtain t d where a: "a = (t, d)" by fastforce
  with Cons have "length d \<le> 65535" "wfExtra fs" by (auto simp: wfExtra_def)
  with Cons.IH show ?case
    by (simp add: a readExtra_loop_field) (simp add: bindR_def split: sum.splits)
qed

lemma readExtra_fields_append:
  "readExtra_fields (fs @ gs) f = bindR (readExtra_fields fs f) (readExtra_fields gs)"
  by (induction fs arbitrary: f) (auto simp: bindR_def split: sum.splits)

text \<open>The fields an entry carries besides those the writer adds have tags the reader ignores.\<close>

definition plain_fields :: "(u16 \<times> byte list) list \<Rightarrow> bool" where
  "plain_fields fs \<longleftrightarrow> wfExtra fs \<and>
     (\<forall>(t, d) \<in> set fs. t \<noteq> zip64ExtraId \<and> t \<noteq> winzipAesExtraId \<and> t \<noteq> xxh3ExtraId)"

lemma readExtra_fields_plain: "plain_fields fs \<Longrightarrow> readExtra_fields fs f = Inr f"
  by (induction fs) (auto simp: plain_fields_def wfExtra_def readExtraField_def)

definition aes_field :: "(byte \<times> u16) option \<Rightarrow> (u16 \<times> byte list) list" where
  "aes_field aes = (case aes of None \<Rightarrow> []
     | Some (s, m) \<Rightarrow> [(winzipAesExtraId, put16 2 @ put16 0x4541 @ [s] @ put16 m)])"

definition read_aes :: "(byte \<times> u16) option \<Rightarrow> FileHeader \<Rightarrow> FileHeader" where
  "read_aes aes h = (case aes of None \<Rightarrow> h
     | Some (s, m) \<Rightarrow> h\<lparr>ae := 2, aesStrength := s, Method := m\<rparr>)"

lemma readExtra_aes:
  "readExtra_fields (aes_field aes) f = Inr (f\<lparr>f_hdr := read_aes aes (f_hdr f)\<rparr>)"
  by (auto simp: aes_field_def read_aes_def readExtraField_def zip_ids rb_uint8_def
      split: option.splits)

lemma readExtra_xxh3:
  "readExtra_fields (xxh3_field h) f =
     Inr (if XXH3 h \<noteq> 0 then f\<lparr>f_hdr := (f_hdr f)\<lparr>XXH3 := XXH3 h\<rparr>\<rparr> else f)"
  by (simp add: xxh3_field_def readExtraField_def zip_ids)

lemma readExtra_zip64:
  assumes "directory_zip64 h off \<Longrightarrow>
      UncompressedSize (f_hdr f) = uint32max \<and> CompressedSize (f_hdr f) = uint32max"
  shows "readExtra_fields (zip64_field h off) f =
     Inr (if directory_zip64 h off
       then f\<lparr>f_hdr := (f_hdr f)\<lparr>UncompressedSize64 := UncompressedSize64 h,
                CompressedSize64 := CompressedSize64 h\<rparr>,
              headerOffset := (if headerOffset f = uint32max then int64_of off else headerOffset f)\<rparr>
       else f)"
  using assms by (auto simp: zip64_field_def readExtraField_def zip_ids)

lemma readExtra_no_zip64:
  "\<not> directory_zip64 h off \<Longrightarrow> readExtra_fields (zip64_field h off) f = Inr f"
  by (simp add: zip64_field_def)

text \<open>
  The header \<open>NewReader\<close> should produce for an entry written with \<open>h\<close> at \<open>off\<close>; \<open>aes\<close> is the strength
  and the method in its AES field, if it has one.
\<close>

definition read_header :: "FileHeader \<Rightarrow> u64 \<Rightarrow> (byte \<times> u16) option \<Rightarrow> FileHeader" where
  "read_header h off aes = read_aes aes (zeroFileHeader\<lparr>Name := Name h,
     CreatorVersion := CreatorVersion h, ReaderVersion := ReaderVersion h, Flags := Flags h,
     Method := Method h, ModifiedTime := ModifiedTime h, ModifiedDate := ModifiedDate h,
     CRC32 := CRC32 h,
     CompressedSize := (if directory_zip64 h off then uint32max else CompressedSize h),
     UncompressedSize := (if directory_zip64 h off then uint32max else UncompressedSize h),
     CompressedSize64 := CompressedSize64 h, UncompressedSize64 := UncompressedSize64 h,
     Extra := directory_extra h off, ExternalAttrs := ExternalAttrs h, Comment := Comment h,
     XXH3 := XXH3 h\<rparr>)"

definition sizes_agree :: "FileHeader \<Rightarrow> bool" where
  "sizes_agree h \<longleftrightarrow> isZip64 h \<or> (CompressedSize h = ucast (CompressedSize64 h)
     \<and> UncompressedSize h = ucast (UncompressedSize64 h))"

definition entry_ok :: "FileHeader \<Rightarrow> u64 \<Rightarrow> (byte \<times> u16) option \<Rightarrow> bool" where
  "entry_ok h off aes \<longleftrightarrow> directory_fits h off \<and> sizes_agree h \<and> unat off < 2 ^ 63
     \<and> (\<exists>fs. plain_fields fs \<and> Extra h = joinExtra (fs @ aes_field aes))"

lemma ucast_u32: "x < 4294967295 \<Longrightarrow> ucast (ucast (x :: u64) :: u32) = x"
proof -
  assume "x < 4294967295"
  then have "unat x < 4294967295" by (simp add: word_less_nat_alt)
  then show ?thesis
    by (intro word_unat_eq_iff [THEN iffD2]) (simp add: unsigned_ucast_eq unsigned_take_bit_eq take_bit_nat_eq_self)
qed

lemma fixed_wire:
  assumes "directory_fits h off"
  shows "readDirectoryHeader_fixed (directoryHeader_wire h off) f = Inr
    (f\<lparr>f_hdr := (f_hdr f)\<lparr>CreatorVersion := CreatorVersion h, ReaderVersion := ReaderVersion h,
        Flags := Flags h, Method := Method h, ModifiedTime := ModifiedTime h,
        ModifiedDate := ModifiedDate h, CRC32 := CRC32 h,
        CompressedSize := (if directory_zip64 h off then uint32max else CompressedSize h),
        UncompressedSize := (if directory_zip64 h off then uint32max else UncompressedSize h),
        CompressedSize64 := ucast (if directory_zip64 h off then uint32max else CompressedSize h),
        UncompressedSize64 := ucast (if directory_zip64 h off then uint32max else UncompressedSize h),
        ExternalAttrs := ExternalAttrs h\<rparr>,
      headerOffset := uint (if uint32max \<le> off then uint32max else ucast off :: u32)\<rparr>,
     length (Name h), length (directory_extra h off), length (Comment h))"
  using assms
  by (simp add: directoryHeader_wire_def readDirectoryHeader_fixed_def directory_fits_def)


lemma wfExtra_append [simp]: "wfExtra (fs @ gs) \<longleftrightarrow> wfExtra fs \<and> wfExtra gs"
  by (auto simp: wfExtra_def)

lemma wf_fields:
  "wfExtra (aes_field aes)" "wfExtra (xxh3_field h)" "wfExtra (zip64_field h off)"
  by (auto simp: wfExtra_def aes_field_def xxh3_field_def zip64_field_def split: option.splits)

lemma small_offset:
  assumes "off < (4294967295 :: u64)"
  shows "uint (ucast off :: u32) = uint off" "int64_of off = uint off" "uint off < 4294967295"
proof -
  from assms show u: "uint off < 4294967295" by (simp add: word_less_def)
  then show "uint (ucast off :: u32) = uint off"
    by (simp add: unsigned_ucast_eq unsigned_take_bit_eq take_bit_int_eq_self)
  have "unat off < 2 ^ 63" using assms by (simp add: word_less_nat_alt)
  from int64_of_small [OF this] show "int64_of off = uint off" by simp
qed

text \<open>The fields of a directory record, one after the other.\<close>

lemma readExtra_directory:
  assumes "entry_ok h off aes"
    and "UncompressedSize (f_hdr f) = (if directory_zip64 h off then uint32max else UncompressedSize h)"
    and "CompressedSize (f_hdr f) = (if directory_zip64 h off then uint32max else CompressedSize h)"
    and "headerOffset f = uint (if uint32max \<le> off then uint32max else ucast off :: u32)"
  shows "readExtra_loop (directory_extra h off) f = Inr ([],
      f\<lparr>f_hdr := (let g = read_aes aes (f_hdr f);
                    g = (if XXH3 h \<noteq> 0 then g\<lparr>XXH3 := XXH3 h\<rparr> else g)
                in if directory_zip64 h off then g\<lparr>UncompressedSize64 := UncompressedSize64 h,
                     CompressedSize64 := CompressedSize64 h\<rparr> else g),
        headerOffset := int64_of off\<rparr>)"
proof -
  obtain fs where fs: "plain_fields fs" "Extra h = joinExtra (fs @ aes_field aes)"
    using assms(1) by (auto simp: entry_ok_def)
  have wf: "wfExtra (fs @ aes_field aes @ xxh3_field h @ zip64_field h off)"
    using fs wf_fields by (auto simp: plain_fields_def)
  have e: "directory_extra h off = joinExtra (fs @ aes_field aes @ xxh3_field h @ zip64_field h off)"
    using fs by (simp add: directory_extra_def)
  have off: "(if directory_zip64 h off then
       if headerOffset f = uint32max then int64_of off else headerOffset f
     else headerOffset f) = int64_of off"
  proof (cases "uint32max \<le> off")
    case False
    with small_offset [of off] assms(4) show ?thesis by simp
  next
    case True
    with assms(4) show ?thesis by (simp add: directory_zip64_def)
  qed
  have keep: "UncompressedSize (read_aes aes g) = UncompressedSize g"
    "CompressedSize (read_aes aes g) = CompressedSize g" for g
    by (auto simp: read_aes_def split: option.splits)
  have "readExtra_fields (fs @ aes_field aes @ xxh3_field h @ zip64_field h off) f = Inr
      (f\<lparr>f_hdr := (let g = read_aes aes (f_hdr f);
                    g = (if XXH3 h \<noteq> 0 then g\<lparr>XXH3 := XXH3 h\<rparr> else g)
                in if directory_zip64 h off then g\<lparr>UncompressedSize64 := UncompressedSize64 h,
                     CompressedSize64 := CompressedSize64 h\<rparr> else g),
        headerOffset := int64_of off\<rparr>)"
    using assms(2,3) off
    by (cases f; cases "directory_zip64 h off"; cases "XXH3 h = 0")
       (auto simp: readExtra_fields_append readExtra_fields_plain [OF fs(1)] readExtra_aes
        readExtra_xxh3 readExtra_zip64 readExtra_no_zip64 keep Let_def)
  then show ?thesis
    unfolding e readExtra_loop_join [OF wf] by simp
qed

lemma readDirectoryHeader_extra_loop:
  "readDirectoryHeader_extra f = bindR (readExtra_loop (Extra (f_hdr f)) f) (\<lambda>(b, f).
     if \<exists>v \<in> set b. v \<noteq> 0 then Inl ErrFormat else Inr f)"
  by (cases "Extra (f_hdr f) = []") (simp_all add: readDirectoryHeader_extra_def readExtra_loop.simps)

lemma read_header_parts:
  assumes "sizes_agree h"
    and "g = zeroFileHeader\<lparr>CreatorVersion := CreatorVersion h, ReaderVersion := ReaderVersion h,
        Flags := Flags h, Method := Method h, ModifiedTime := ModifiedTime h,
        ModifiedDate := ModifiedDate h, CRC32 := CRC32 h,
        CompressedSize := (if directory_zip64 h off then uint32max else CompressedSize h),
        UncompressedSize := (if directory_zip64 h off then uint32max else UncompressedSize h),
        CompressedSize64 := ucast (if directory_zip64 h off then uint32max else CompressedSize h),
        UncompressedSize64 := ucast (if directory_zip64 h off then uint32max else UncompressedSize h),
        ExternalAttrs := ExternalAttrs h, Name := Name h, Extra := directory_extra h off,
        Comment := Comment h\<rparr>"
  shows "(let g = read_aes aes g; g = (if XXH3 h \<noteq> 0 then g\<lparr>XXH3 := XXH3 h\<rparr> else g)
     in if directory_zip64 h off then g\<lparr>UncompressedSize64 := UncompressedSize64 h,
                     CompressedSize64 := CompressedSize64 h\<rparr> else g) = read_header h off aes"
proof (cases "directory_zip64 h off")
  case True
  then show ?thesis
    by (cases "XXH3 h = 0")
       (auto simp: assms(2) read_header_def read_aes_def Let_def zeroFileHeader_def split: option.splits)
next
  case False
  then have "ucast (CompressedSize h) = CompressedSize64 h"
    "ucast (UncompressedSize h) = UncompressedSize64 h"
    using assms(1) by (auto simp: sizes_agree_def directory_zip64_def isZip64_def ucast_u32)
  with False show ?thesis
    by (cases "XXH3 h = 0")
       (auto simp: assms(2) read_header_def read_aes_def Let_def zeroFileHeader_def split: option.splits)
qed

text \<open>
  A directory record followed by anything is read back, through any reader.
\<close>

context io_reader
begin

lemma readDirectoryHeader_record:
  assumes "inv s" "stream s = directory_record h off @ rest" "entry_ok h off aes"
  obtains s' where "readDirectoryHeader rd (newFile r sz) s =
      Some (Inr \<lparr>f_hdr = read_header h off aes, zipr = r, zipsize = sz, headerOffset = int64_of off\<rparr>, s')"
    "inv s'" "stream s' = rest" "fin s' = fin s"
proof -
  have fits: "directory_fits h off" and sz: "sizes_agree h" using assms(3) by (auto simp: entry_ok_def)
  obtain s1 where s1: "io_ReadFull rd 46 s = Some (directoryHeader_wire h off, None, s1)"
    "inv s1" "fin s1 = fin s" "stream s1 = Name h @ directory_extra h off @ Comment h @ rest"
    using ReadFull_spec [OF assms(1), of 46] assms(2)
    by (auto simp: directory_record_def readFull_err_def)
  let ?n = "length (Name h) + length (directory_extra h off) + length (Comment h)"
  obtain s2 where s2: "io_ReadFull rd ?n s1 = Some (Name h @ directory_extra h off @ Comment h, None, s2)"
    "inv s2" "fin s2 = fin s" "stream s2 = rest"
    using ReadFull_spec [OF s1(2), of ?n] s1(3,4)
    by (auto simp: readFull_err_def)
  define f where "f = (newFile r sz)\<lparr>f_hdr := zeroFileHeader\<lparr>CreatorVersion := CreatorVersion h,
        ReaderVersion := ReaderVersion h,
        Flags := Flags h, Method := Method h, ModifiedTime := ModifiedTime h,
        ModifiedDate := ModifiedDate h, CRC32 := CRC32 h,
        CompressedSize := (if directory_zip64 h off then uint32max else CompressedSize h),
        UncompressedSize := (if directory_zip64 h off then uint32max else UncompressedSize h),
        CompressedSize64 := ucast (if directory_zip64 h off then uint32max else CompressedSize h),
        UncompressedSize64 := ucast (if directory_zip64 h off then uint32max else UncompressedSize h),
        ExternalAttrs := ExternalAttrs h, Name := Name h, Extra := directory_extra h off,
        Comment := Comment h\<rparr>,
      headerOffset := uint (if uint32max \<le> off then uint32max else ucast off :: u32)\<rparr>"
  have x: "readDirectoryHeader_extra f = Inr \<lparr>f_hdr = read_header h off aes, zipr = r, zipsize = sz,
      headerOffset = int64_of off\<rparr>"
    using readExtra_directory [OF assms(3), of f] read_header_parts [OF sz, of "f_hdr f" off aes]
    by (simp add: readDirectoryHeader_extra_loop f_def newFile_def)
  have "readDirectoryHeader rd (newFile r sz) s = Some (readDirectoryHeader_extra f, s2)"
    using s1(1) s2(1) fixed_wire [OF fits, of "newFile r sz"]
    by (simp add: readDirectoryHeader_def f_def newFile_def Let_def)
  with x s2 that show ?thesis by simp
qed

end

lemma file_at_exact:
  assumes "A = X @ Y @ Z" "0 < length Y"
  shows "file_at A (length Y) (int (length X)) = (Y, None)"
  using assms by (cases Y) (simp_all add: file_at_def Let_def)

lemma filled_exact [simp]: "length d = n \<Longrightarrow> filled n d = d"
  by (simp add: filled_def)

lemma end_at_last:
  assumes "b = Y @ directoryEnd_wire n s off"
  shows "findSignatureInBlock b = int (length Y)"
proof -
  have z: "end_at b (length Y)"
    by (simp add: assms end_at_def directoryEnd_wire_def numeral_2_eq_2 get16_def)
  have l: "length b = length Y + 22" by (simp add: assms)
  show ?thesis
  proof (cases rule: findSignatureInBlock_cases [of b])
    case (found i)
    then have "i \<le> length Y" using l by (simp add: end_at_def)
    with found(3) z have "i = length Y" by (metis le_neq_implies_less)
    with found(1) show ?thesis by simp
  next
    case none
    with z show ?thesis by blast
  qed
qed

lemma zero_bytes: "replicate 4 (0 :: byte) = put16 0 @ put16 0" "replicate 2 (0 :: byte) = put16 0"
  by (simp_all add: put16_def numeral_eq_Suc)

lemma parse_directoryEnd_wire:
  "parse_directoryEnd (directoryEnd_wire n s off) =
     Inr \<lparr>diskNbr = 0, dirDiskNbr = 0, dirRecordsThisDisk = ucast (ucast n :: u16),
       directoryRecords = ucast (ucast n :: u16), directorySize = ucast (ucast s :: u32),
       directoryOffset = ucast (ucast off :: u32), commentLen = 0, de_comment = []\<rparr>"
  by (simp add: parse_directoryEnd_def directoryEnd_wire_def zero_bytes slice_to_def)

text \<open>The last block of a file that ends in an end record.\<close>

lemma readDirectoryEnd_find_written:
  assumes "A = X @ directoryEnd_wire n s off"
  shows "readDirectoryEnd_find (file_at A) (int (length A)) [1024, 65 * 1024] =
     Inr (drop (length A - 1024) A, min 1024 (length A) - 22, int (length X))"
proof -
  let ?m = "min 1024 (length A)"
  have lA: "length A = length X + 22" by (simp add: assms)
  have b: "drop (length A - 1024) A = drop (length A - 1024) X @ directoryEnd_wire n s off"
    using lA by (simp add: assms)
  have "A = take (length A - 1024) A @ drop (length A - 1024) A @ []" by simp
  then have "file_at A (length (drop (length A - 1024) A)) (int (length (take (length A - 1024) A))) =
      (drop (length A - 1024) A, None)"
    by (rule file_at_exact) (simp add: lA)
  moreover have "length (drop (length A - 1024) A) = ?m"
    "length (take (length A - 1024) A) = length A - ?m"
    using lA by (auto simp: min_def)
  ultimately have r: "file_at A ?m (int (length A - ?m)) = (drop (length A - 1024) A, None)"
    "length (drop (length A - 1024) A) = ?m" by simp_all
  have f: "findSignatureInBlock (drop (length A - 1024) A) = int (?m - 22)"
    using end_at_last [OF b] lA by (simp add: min_def)
  have i: "(if int (length A) < 1024 then int (length A) else 1024) = int ?m" by simp
  have j: "int (length A) - int ?m = int (length A - ?m)" by simp
  have k: "int (length A - ?m) + int (?m - 22) = int (length X)" using lA by (simp add: min_def)
  show ?thesis
    unfolding readDirectoryEnd_find.simps Let_def i j nat_int r(1) split
    using r(2) f k by simp
qed


text \<open>
  The zip64 locator is looked for in the 20 bytes before the end record, whether or not the end
  record asks for it; \<open>no_locator X\<close> says they are not one by accident.
\<close>

definition no_locator :: "byte list \<Rightarrow> bool" where
  "no_locator X \<longleftrightarrow>
     (20 \<le> length X \<longrightarrow> take 4 (drop (length X - 20) X) \<noteq> put32 directory64LocSignature)"

lemma parseDirectory64Loc_no:
  assumes "length b = 20" "take 4 b \<noteq> put32 directory64LocSignature"
  shows "parseDirectory64Loc b = Inr (-1)"
proof -
  have "get32 b = get32 (take 4 b)" by (simp add: get32_def)
  then have "get32 b \<noteq> directory64LocSignature"
    using assms put_get(2) [of "take 4 b"] by auto
  then show ?thesis using assms(1) by (simp add: parseDirectory64Loc_def rb_enough)
qed

lemma last_block:
  assumes "A = X @ E" "length E = 22" "20 \<le> length X"
  shows "take 20 (drop (min 1024 (length A) - 22 - 20) (drop (length A - 1024) A)) = drop (length X - 20) X"
proof -
  have "min 1024 (length A) - 22 - 20 + (length A - 1024) = length X - 20"
    using assms by (simp add: min_def)
  then show ?thesis using assms by simp
qed

lemma last_record:
  assumes "A = X @ E" "length E = 22"
  shows "drop (min 1024 (length A) - 22) (drop (length A - 1024) A) = E"
proof -
  have "min 1024 (length A) - 22 + (length A - 1024) = length X"
    using assms by (simp add: min_def)
  then show ?thesis using assms(1) by simp
qed

lemma readDirectoryEnd_steps:
  assumes "readDirectoryEnd_find r sz [1024, 65 * 1024] = Inr (buf, p, eo)"
    and "parse_directoryEnd (drop p buf) = Inr d"
    and "(if 20 \<le> p then parseDirectory64Loc (take 20 (drop (p - 20) buf))
          else findDirectory64End r eo) = Inr p64"
    and "(if 0 \<le> p64 then readDirectory64End r p64 d else Inr d) = Inr d'"
    and "22 \<le> sz" "0 \<le> int64_of (directoryOffset d')" "int64_of (directoryOffset d') < sz"
  shows "readDirectoryEnd r sz = Inr d'"
  using assms by (simp add: readDirectoryEnd_def Let_def split: if_splits)

lemma readDirectoryEnd_narrow:
  assumes A: "A = X @ directoryEnd_wire n s off" and "no_locator X"
    and n: "n < 65535" and o: "off < 4294967295" "unat off < length A"
  shows "\<exists>d. readDirectoryEnd (file_at A) (int (length A)) = Inr d \<and> directoryRecords d = n
    \<and> directoryOffset d = off \<and> de_comment d = []"
proof -
  have lA: "length A = length X + 22" by (simp add: A)
  define d where "d = \<lparr>diskNbr = 0, dirDiskNbr = 0, dirRecordsThisDisk = ucast (ucast n :: u16),
       directoryRecords = ucast (ucast n :: u16), directorySize = ucast (ucast s :: u32),
       directoryOffset = ucast (ucast off :: u32), commentLen = 0, de_comment = []\<rparr>"
  have "drop (min 1024 (length A) - 22) (drop (length A - 1024) A) = directoryEnd_wire n s off"
    using last_record [OF A] by simp
  then have p: "parse_directoryEnd (drop (min 1024 (length A) - 22) (drop (length A - 1024) A)) = Inr d"
    by (simp add: parse_directoryEnd_wire d_def)
  have loc: "(if 20 \<le> min 1024 (length A) - 22
      then parseDirectory64Loc (take 20 (drop (min 1024 (length A) - 22 - 20) (drop (length A - 1024) A)))
      else findDirectory64End (file_at A) (int (length X))) = Inr (-1)"
  proof (cases "20 \<le> length X")
    case True
    then have "20 \<le> min 1024 (length A) - 22" using lA by (simp add: min_def)
    with last_block [OF A] True assms(2) parseDirectory64Loc_no [of "drop (length X - 20) X"]
    show ?thesis by (simp add: no_locator_def)
  next
    case False
    then have "\<not> 20 \<le> min 1024 (length A) - 22" using lA by (simp add: min_def)
    with False lA show ?thesis by (simp add: findDirectory64End_def)
  qed
  have "int64_of off = int (unat off)" using small_offset [of off] o by simp
  moreover have "ucast (ucast n :: u16) = n"
  proof -
    have "unat n < 65535" using n by (simp add: word_less_nat_alt)
    then show ?thesis
      by (intro word_unat_eq_iff [THEN iffD2])
         (simp add: unsigned_ucast_eq unsigned_take_bit_eq take_bit_nat_eq_self)
  qed
  moreover have "ucast (ucast off :: u32) = off" using o by (simp add: ucast_u32)
  moreover have "int (unat off) < int (length A)" using o(2) by (simp only: of_nat_less_iff)
  ultimately have "readDirectoryEnd (file_at A) (int (length A)) = Inr d" "directoryRecords d = n"
    "directoryOffset d = off" "de_comment d = []"
    using lA o(2) readDirectoryEnd_steps [OF readDirectoryEnd_find_written [OF A] p loc, of d]
    by (simp_all add: d_def)
  then show ?thesis by blast
qed

definition locator_wire :: "u64 \<Rightarrow> byte list" where
  "locator_wire p = put32 directory64LocSignature @ put32 0 @ put64 p @ put32 1"

definition end64_wire :: "u64 \<Rightarrow> u64 \<Rightarrow> u64 \<Rightarrow> byte list" where
  "end64_wire n s off = put32 directory64EndSignature @ put64 44 @ put16 zipVersion45
     @ put16 zipVersion45 @ put32 0 @ put32 0 @ put64 n @ put64 n @ put64 s @ put64 off"

lemma directory64_wire_parts:
  "directory64_wire n s off = end64_wire n s off @ locator_wire (off + s)"
  "length (end64_wire n s off) = 56" "length (locator_wire p) = 20"
  by (simp_all add: directory64_wire_def end64_wire_def locator_wire_def)

lemma parseDirectory64Loc_wire: "parseDirectory64Loc (locator_wire p) = Inr (int64_of p)"
  by (simp add: parseDirectory64Loc_def locator_wire_def)

lemma readDirectory64End_wire:
  assumes "A = X @ end64_wire n s off @ Z"
  shows "readDirectory64End (file_at A) (int (length X)) d = Inr (d\<lparr>diskNbr := 0, dirDiskNbr := 0,
    dirRecordsThisDisk := n, directoryRecords := n, directorySize := s, directoryOffset := off\<rparr>)"
proof -
  have r: "file_at A 56 (int (length X)) = (end64_wire n s off, None)"
    using file_at_exact [OF assms] by (simp add: directory64_wire_parts)
  have "slice_from 12 (put64 44 @ put16 zipVersion45 @ put16 zipVersion45 @ R) = Some R" for R
    using slice_append(1) [of 12 "put64 44 @ put16 zipVersion45 @ put16 zipVersion45" R] by simp
  then show ?thesis
    by (simp add: readDirectory64End_def r directory64_wire_parts)
       (simp add: end64_wire_def)
qed

lemma readDirectoryEnd_wide:
  assumes A: "A = X @ directory64_wire n s off @ directoryEnd_wire n' s' off'"
    and p: "off + s = of_nat (length X)" and o: "unat off < length A" "length A < 2 ^ 63"
  shows "\<exists>d. readDirectoryEnd (file_at A) (int (length A)) = Inr d \<and> directoryRecords d = n
    \<and> directoryOffset d = off \<and> de_comment d = []"
proof -
  let ?X = "X @ end64_wire n s off @ locator_wire (off + s)"
  have A': "A = ?X @ directoryEnd_wire n' s' off'" by (simp add: A directory64_wire_parts)
  have lA: "length A = length ?X + 22" by (simp add: A')
  have lX: "length ?X = length X + 76" by (simp add: directory64_wire_parts)
  define d where "d = \<lparr>diskNbr = 0, dirDiskNbr = 0, dirRecordsThisDisk = ucast (ucast n' :: u16),
       directoryRecords = ucast (ucast n' :: u16), directorySize = ucast (ucast s' :: u32),
       directoryOffset = ucast (ucast off' :: u32), commentLen = 0, de_comment = []\<rparr>"
  have "drop (min 1024 (length A) - 22) (drop (length A - 1024) A) = directoryEnd_wire n' s' off'"
    using last_record [OF A'] by simp
  then have pe: "parse_directoryEnd (drop (min 1024 (length A) - 22) (drop (length A - 1024) A)) = Inr d"
    by (simp add: parse_directoryEnd_wire d_def)
  have "unat (off + s) < 2 ^ 63"
    using o(2) lA lX by (simp add: p unat_of_nat take_bit_nat_eq_self)
  from int64_of_small [OF this] have i: "int64_of (off + s) = int (length X)"
    using o(2) lA lX by (simp add: p unat_of_nat take_bit_nat_eq_self)
  have g: "20 \<le> min 1024 (length A) - 22" using lA lX by (simp add: min_def)
  have "take 20 (drop (min 1024 (length A) - 22 - 20) (drop (length A - 1024) A)) = locator_wire (off + s)"
    using last_block [OF A'] lX by (simp add: directory64_wire_parts)
  then have loc: "parseDirectory64Loc (take 20 (drop (min 1024 (length A) - 22 - 20)
      (drop (length A - 1024) A))) = Inr (int (length X))"
    by (simp add: parseDirectory64Loc_wire i)
  have r: "readDirectory64End (file_at A) (int (length X)) d = Inr (d\<lparr>diskNbr := 0, dirDiskNbr := 0,
    dirRecordsThisDisk := n, directoryRecords := n, directorySize := s, directoryOffset := off\<rparr>)"
    by (rule readDirectory64End_wire) (simp add: A directory64_wire_parts)
  let ?d = "d\<lparr>diskNbr := 0, dirDiskNbr := 0,
    dirRecordsThisDisk := n, directoryRecords := n, directorySize := s, directoryOffset := off\<rparr>"
  have "int64_of off = int (unat off)" using o int64_of_small [of off] by simp
  moreover have "int (unat off) < int (length A)" using o(1) by (simp only: of_nat_less_iff)
  ultimately have "readDirectoryEnd (file_at A) (int (length A)) = Inr ?d"
    using readDirectoryEnd_steps [OF readDirectoryEnd_find_written [OF A'] pe, of "int (length X)" ?d]
      lA o(1) loc r g by simp
  moreover have "de_comment ?d = []" by (simp add: d_def)
  ultimately show ?thesis by fastforce
qed

lemma readDirectoryEnd_written:
  assumes A: "A = X @ directory_end n s off" and "length A < 2 ^ 63"
    and "off + s = of_nat (length X)" "unat off \<le> length X"
    and "\<not> end_wide n s off \<Longrightarrow> no_locator X"
  shows "\<exists>d. readDirectoryEnd (file_at A) (int (length A)) = Inr d \<and> directoryRecords d = n
    \<and> directoryOffset d = off \<and> de_comment d = []"
proof (cases "end_wide n s off")
  case True
  then have "A = X @ directory64_wire n s off @ directoryEnd_wire uint16max uint32max uint32max"
    using A by (simp add: directory_end_def)
  moreover have "unat off < length A" using assms(4) True A by (simp add: directory_end_def)
  ultimately show ?thesis using readDirectoryEnd_wide assms(2,3) by blast
next
  case False
  then have "A = X @ directoryEnd_wire n s off" "unat off < length A"
    using A assms(4) by (simp_all add: directory_end_def)
  moreover have "n < 65535" "off < 4294967295" using False by (auto simp: end_wide_def)
  ultimately show ?thesis using readDirectoryEnd_narrow assms(5) [OF False] by blast
qed

section \<open>The whole directory\<close>

type_synonym entry = "FileHeader \<times> u64 \<times> (byte \<times> u16) option"

definition directory_bytes :: "entry list \<Rightarrow> byte list" where
  "directory_bytes es = concat (map (\<lambda>(h, off, aes). directory_record h off) es)"

lemma directory_bytes_simps [simp]:
  "directory_bytes [] = []"
  "directory_bytes ((h, off, aes) # es) = directory_record h off @ directory_bytes es"
  "directory_bytes (es @ es') = directory_bytes es @ directory_bytes es'"
  by (simp_all add: directory_bytes_def)

definition read_entry :: "read_at \<Rightarrow> int \<Rightarrow> entry \<Rightarrow> File" where
  "read_entry r sz e = (case e of (h, off, aes) \<Rightarrow>
     \<lparr>f_hdr = read_header h off aes, zipr = r, zipsize = sz, headerOffset = int64_of off\<rparr>)"

definition entries_ok :: "entry list \<Rightarrow> bool" where
  "entries_ok es \<longleftrightarrow> (\<forall>(h, off, aes) \<in> set es. entry_ok h off aes)"

context io_reader
begin

lemma readDirectoryHeader_at_end:
  assumes "inv s" "fin s = ErrEOF" "stream s = directory_end n sz off"
  obtains e s' where "readDirectoryHeader rd f s = Some (Inl e, s')" "e \<in> {ErrFormat, ErrUnexpectedEOF}"
proof -
  obtain s1 where s1: "io_ReadFull rd 46 s = Some (take 46 (stream s), readFull_err 46 (stream s) (fin s), s1)"
    using ReadFull_spec [OF assms(1), of 46] by metis
  show ?thesis
  proof (cases "end_wide n sz off")
    case False
    then have "length (stream s) = 22" by (simp add: assms(3) directory_end_def)
    then have "readFull_err 46 (stream s) (fin s) = Some ErrUnexpectedEOF"
      by (auto simp: readFull_err_def assms(2))
    with s1 that show ?thesis by (simp add: readDirectoryHeader_def)
  next
    case True
    then have l: "readFull_err 46 (stream s) (fin s) = None"
      by (simp add: assms(3) directory_end_def readFull_err_def)
    have "take 46 (stream s) = put32 directory64EndSignature @ take 42 (drop 4 (directory64_wire n sz off))"
      using True by (simp add: assms(3) directory_end_def directory64_wire_def)
    then have "readDirectoryHeader_fixed (take 46 (stream s)) f = Inl ErrFormat"
      by (simp add: readDirectoryHeader_fixed_def zip_signatures)
    with s1 l that show ?thesis by (simp add: readDirectoryHeader_def)
  qed
qed

lemma init_loop_written:
  "inv s \<Longrightarrow> fin s = ErrEOF \<Longrightarrow> entries_ok es \<Longrightarrow>
   stream s = directory_bytes es @ directory_end n d off \<Longrightarrow>
     \<exists>e. init_loop rd (newFile r sz) fs s = Some (fs @ map (read_entry r sz) es, e)
       \<and> e \<in> {ErrFormat, ErrUnexpectedEOF}"
proof (induction es arbitrary: s fs)
  case Nil
  then have "stream s = directory_end n d off" by simp
  from readDirectoryHeader_at_end [OF Nil.prems(1,2) this] obtain e s' where
    "readDirectoryHeader rd (newFile r sz) s = Some (Inl e, s')" "e \<in> {ErrFormat, ErrUnexpectedEOF}"
    by metis
  then show ?case by (subst init_loop.simps) auto
next
  case (Cons x es)
  obtain h ofs aes where x: "x = (h, ofs, aes)" by (cases x) auto
  from Cons.prems(3) have ok: "entry_ok h ofs aes" "entries_ok es" by (auto simp: entries_ok_def x)
  have "stream s = directory_record h ofs @ (directory_bytes es @ directory_end n d off)"
    using Cons.prems(4) by (simp add: x)
  from readDirectoryHeader_record [OF Cons.prems(1) this ok(1), of r sz] obtain s' where
    s': "readDirectoryHeader rd (newFile r sz) s = Some (Inr (read_entry r sz x), s')"
    "inv s'" "stream s' = directory_bytes es @ directory_end n d off" "fin s' = fin s"
    by (auto simp: read_entry_def x)
  from Cons.IH [OF s'(2) _ ok(2) s'(3), of "fs @ [read_entry r sz x]"] s'(1,4) Cons.prems(2)
  show ?case by (subst init_loop.simps) auto
qed

end

lemma directory_bytes_length: "46 * length es \<le> length (directory_bytes es)"
proof (induction es)
  case (Cons x es)
  then show ?case by (cases x) (auto simp: length_directory_record)
qed simp

lemma ucast_of_nat_u16: "ucast (of_nat n :: u64) = (of_nat n :: u16)"
  by (rule bit_word_eqI) (simp add: bit_simps)

lemma NewReader_written:
  assumes A: "A = body @ directory_bytes es @ directory_end (of_nat (length es))
      (of_nat (length (directory_bytes es))) (of_nat (length body))"
    and "length A < 2 ^ 63" and "entries_ok es"
    and "end_wide (of_nat (length es)) (of_nat (length (directory_bytes es))) (of_nat (length body))
      \<or> no_locator (body @ directory_bytes es)"
  shows "NewReader (file_at A) (int (length A)) = Some (Inr \<lparr>rdr_r = file_at A,
    rdr_File = map (read_entry (file_at A) (int (length A))) es, rdr_Comment = []\<rparr>)"
proof -
  let ?n = "of_nat (length es) :: u64" and ?d = "of_nat (length (directory_bytes es)) :: u64"
  let ?o = "of_nat (length body) :: u64"
  have lA: "length body + length (directory_bytes es) + 22 \<le> length A"
    by (simp add: A directory_end_def)
  have small: "x \<le> length A \<Longrightarrow> unat (of_nat x :: u64) = x" for x
    using assms(2) by (simp add: unat_of_nat take_bit_nat_eq_self)
  have "?o + ?d = of_nat (length (body @ directory_bytes es))" by simp
  moreover have ou: "unat ?o = length body" using small lA by simp
  ultimately obtain d where d: "readDirectoryEnd (file_at A) (int (length A)) = Inr d"
    "directoryRecords d = ?n" "directoryOffset d = ?o" "de_comment d = []"
    using readDirectoryEnd_written [of A "body @ directory_bytes es" ?n ?d ?o] assms by auto
  have "unat ?o < 2 ^ 63" using ou lA assms(2) by simp
  from int64_of_small [OF this] have io: "int64_of ?o = int (length body)" by (simp only: ou)
  have nu: "unat ?n = length es"
    using small [of "length es"] lA directory_bytes_length [of es] by simp
  have "length es \<le> length A div 30"
    using directory_bytes_length [of es] lA by (simp add: less_eq_div_iff_mult_less_eq)
  then have toc: "\<not> uint64_of (int (length A)) div of_nat fileHeaderLen < ?n"
    using small [of "length A"]
    by (simp add: word_less_nat_alt unat_div uint64_of_nat nu del: unat_of_nat)
  let ?s = "NewSectionReader (file_at A) (int (length body)) (int (length A) - int (length body))"
  have rest: "drop (length body) A = directory_bytes es @ directory_end ?n ?d ?o" by (simp add: A)
  have m: "int (length body) + (int (length A) - int (length body)) \<le> maxint64"
  proof -
    have "int (length A) < int (2 ^ 63)" using assms(2) by (simp only: of_nat_less_iff)
    then show ?thesis by (simp add: maxint64_def)
  qed
  have "nat (int (length A) - int (length body)) = length (drop (length body) A)" by simp
  then have s: "sec_r ?s = file_at A \<and> 0 \<le> sec_off ?s"
    "section_bytes A ?s = directory_bytes es @ directory_end ?n ?d ?o"
    using section_bytes_fresh(1) [OF _ _ m, of A "file_at A"] section_bytes_fresh(2,3) [OF _ _ m, of "file_at A"] lA rest
    by simp_all
  let ?b = "bufio_NewReaderSize ?s (nat (min (int (length A) - int (length body)) maxCentralDirectoryBuffer))"
  have b: "fil.bsec.br_inv A ?b" "fil.bsec.br_stream A ?b = directory_bytes es @ directory_end ?n ?d ?o"
    using s fil.bsec.br_fresh [of ?s A] by simp_all
  from fil.bsec.bufr.init_loop_written [OF b(1) refl assms(3) b(2), of "file_at A" "int (length A)" "[]"]
  obtain e where i: "init_loop (bufio_Read section_Read) (newFile (file_at A) (int (length A))) [] ?b =
      Some (map (read_entry (file_at A) (int (length A))) es, e)" "e \<in> {ErrFormat, ErrUnexpectedEOF}"
    by auto
  show ?thesis
    using d toc io i ucast_of_nat_u16 [of "length es"] by (auto simp: NewReader_def Let_def)
qed

text \<open>
  C15. \<open>NewReader\<close> reads back every directory the package writes: for any body, any list of
  well-formed entries and any offsets, with or without zip64 records, the files of the reader are the
  entries, in order, with their names, attributes, sizes, checksums and offsets.
\<close>

theorem NewReader_archive:
  assumes A: "A = body @ directory_bytes es @ directory_end (of_nat (length es))
      (of_nat (length (directory_bytes es))) (of_nat (length body))"
    and "length A < 2 ^ 63" and "entries_ok es"
    and "end_wide (of_nat (length es)) (of_nat (length (directory_bytes es))) (of_nat (length body))
      \<or> no_locator (body @ directory_bytes es)"
  shows "NewReader (file_at A) (int (length A)) = Some (Inr \<lparr>rdr_r = file_at A,
    rdr_File = map (read_entry (file_at A) (int (length A))) es, rdr_Comment = []\<rparr>)"
  by (rule NewReader_written [OF assms])

lemma NewReader_archive_witness:
  "\<exists>A. length A = 69 \<and> NewReader (file_at A) 69 = Some (Inr \<lparr>rdr_r = file_at A,
     rdr_File = [read_entry (file_at A) 69 (zeroFileHeader\<lparr>Name := [97]\<rparr>, 0, None)], rdr_Comment = []\<rparr>)"
proof -
  let ?h = "zeroFileHeader\<lparr>Name := [97]\<rparr>"
  let ?es = "[(?h, 0, None)] :: entry list"
  have z: "\<not> directory_zip64 ?h 0"
    by (simp add: directory_zip64_def isZip64_def zeroFileHeader_def)
  have x: "directory_extra ?h 0 = []"
    using z by (simp add: directory_extra_def xxh3_field_def zip64_field_def zeroFileHeader_def)
  have c: "Comment ?h = []" "Extra ?h = []" by (simp_all add: zeroFileHeader_def)
  have l: "length (directory_bytes ?es) = 47" by (simp add: length_directory_record x c)
  have w: "\<not> end_wide 1 47 0" by code_simp
  define A where "A = [] @ directory_bytes ?es @ directory_end (of_nat (length ?es))
      (of_nat (length (directory_bytes ?es))) (of_nat (length ([] :: byte list)))"
  have lA: "length A = 69" using l w by (simp add: A_def directory_end_def)
  have "plain_fields []" by (simp add: plain_fields_def wfExtra_def)
  then have "entry_ok ?h 0 None"
    using x z c by (simp add: entry_ok_def directory_fits_def sizes_agree_def aes_field_def)
      (auto simp: zeroFileHeader_def intro: exI [of _ "[]"])
  then have "entries_ok ?es" by (simp add: entries_ok_def)
  moreover have "no_locator ([] @ directory_bytes ?es)"
    using l x c z by (simp add: no_locator_def directory_record_def directoryHeader_wire_def put16_def put32_def
        zip_signatures zeroFileHeader_def)
  ultimately have "NewReader (file_at A) (int (length A)) = Some (Inr \<lparr>rdr_r = file_at A,
    rdr_File = map (read_entry (file_at A) (int (length A))) ?es, rdr_Comment = []\<rparr>)"
    using lA by (intro NewReader_archive [OF A_def]) simp_all
  then show ?thesis using lA by (intro exI [of _ A]) simp
qed

text \<open>
  C26. The position \<open>findSignatureInBlock\<close> returns is that of the last end record of the block whose
  comment fits in it, and it returns -1 exactly when there is none.
\<close>

theorem findSignatureInBlock_last:
  "(\<exists>i. findSignatureInBlock b = int i \<and> end_at b i \<and> (\<forall>j>i. \<not> end_at b j))
   \<or> (findSignatureInBlock b = -1 \<and> (\<forall>i. \<not> end_at b i))"
  by (cases rule: findSignatureInBlock_cases [of b]) auto

lemma findSignatureInBlock_last_witness:
  "findSignatureInBlock (directoryEnd_wire 0 0 0) \<noteq> -1 \<longleftrightarrow> (\<exists>i. end_at (directoryEnd_wire 0 0 0) i)"
  using findSignatureInBlock_last [of "directoryEnd_wire 0 0 0"] by auto

text \<open>
  C27. The zip64 locator is taken at face value even when the end record does not ask for zip64: an
  archive written by the package whose last 20 bytes before the end record look like a locator that
  points past the end (the comment of its last entry may well do) cannot be opened.
\<close>

theorem NewReader_locator_confusion:
  assumes A: "A = X @ directory_end n s off" and "\<not> end_wide n s off"
    and "X = Y @ locator_wire p" and "int (length A) \<le> int64_of p"
  shows "NewReader (file_at A) (int (length A)) = Some (Inl ErrEOF)"
proof -
  have A': "A = X @ directoryEnd_wire n s off" using assms(1,2) by (simp add: directory_end_def)
  have lX: "20 \<le> length X" by (simp add: assms(3) directory64_wire_parts)
  have lA: "length A = length X + 22" by (simp add: A')
  have "drop (length X - 20) X = locator_wire p" by (simp add: assms(3) directory64_wire_parts)
  with last_block [OF A'] lX
  have loc: "take 20 (drop (min 1024 (length A) - 22 - 20) (drop (length A - 1024) A)) = locator_wire p"
    by simp
  have pe: "\<exists>d. parse_directoryEnd (drop (min 1024 (length A) - 22) (drop (length A - 1024) A)) = Inr d"
    using last_record [OF A'] by (simp add: parse_directoryEnd_wire)
  have g: "20 \<le> min 1024 (length A) - 22" using lA lX by (simp add: min_def)
  have r: "readDirectory64End (file_at A) (int64_of p) d = Inl ErrEOF" for d
    using assms(4) by (simp add: readDirectory64End_def file_at_def)
  have "readDirectoryEnd (file_at A) (int (length A)) = Inl ErrEOF"
    using readDirectoryEnd_find_written [OF A'] pe loc g r assms(4) lA
    by (auto simp: readDirectoryEnd_def Let_def parseDirectory64Loc_wire)
  then show ?thesis by (simp add: NewReader_def)
qed

text \<open>Such an archive: one empty file whose comment is a locator.\<close>

lemma NewReader_locator_confusion_witness:
  "\<exists>h A. A = directory_record h 0 @ directory_end 1 66 0 \<and> Comment h = locator_wire (2 ^ 40)
    \<and> NewReader (file_at A) (int (length A)) = Some (Inl ErrEOF)"
proof -
  let ?h = "zeroFileHeader\<lparr>Comment := locator_wire (2 ^ 40)\<rparr>"
  have w: "\<not> end_wide 1 66 0" by code_simp
  have "directory_record ?h 0 = (directoryHeader_wire ?h 0 @ Name ?h @ directory_extra ?h 0) @ locator_wire (2 ^ 40)"
    by (simp add: directory_record_def)
  then have X: "directory_record ?h 0 = (directoryHeader_wire ?h 0 @ Name ?h @ directory_extra ?h 0) @ locator_wire (2 ^ 40)"
    by simp
  have "length (directory_extra ?h 0) = 0"
    by (simp add: directory_extra_def zeroFileHeader_def xxh3_field_def zip64_field_def directory_zip64_def
        isZip64_def)
  then have "length (directory_record ?h 0 @ directory_end 1 66 0) = 88"
    using w by (simp add: length_directory_record directory64_wire_parts directory_end_def
        zeroFileHeader_def)
  moreover have "int64_of (2 ^ 40) = 2 ^ 40" using int64_of_small [of "2 ^ 40"] by simp
  ultimately have "int (length (directory_record ?h 0 @ directory_end 1 66 0)) \<le> int64_of (2 ^ 40)"
    by simp
  then have "NewReader (file_at (directory_record ?h 0 @ directory_end 1 66 0))
      (int (length (directory_record ?h 0 @ directory_end 1 66 0))) = Some (Inl ErrEOF)"
    by (rule NewReader_locator_confusion [OF refl w X])
  then show ?thesis by (intro exI [of _ ?h]) simp
qed

end
