(* ===== verification/Zip_Crypto.thy ===== *)
theory Zip_Crypto
  imports Zip_IO Zip_Struct
begin

text \<open>
  zipcrypto.go: the PKWARE stream cipher, its 12-byte header with the password check bytes, the
  encrypting writer and the decrypting reader.
\<close>

section \<open>The cipher\<close>

text \<open>\<open>crc32.IEEETable\<close> of the Go library, entry by entry: eight steps of the reflected polynomial.\<close>

definition crc_step :: "u32 \<Rightarrow> u32" where
  "crc_step c = (if c AND 1 = 1 then drop_bit 1 c XOR 0xEDB88320 else drop_bit 1 c)"

definition IEEETable :: "u32 \<Rightarrow> u32" where
  "IEEETable i = (crc_step ^^ 8) i"

definition crc32update :: "u32 \<Rightarrow> byte \<Rightarrow> u32" where
  "crc32update pCrc32 bval = IEEETable ((pCrc32 XOR ucast bval) AND 0xff) XOR drop_bit 8 pCrc32"

record ZipCrypto =
  zc_password :: "byte list"
  Key0 :: u32
  Key1 :: u32
  Key2 :: u32

definition updateKeys :: "ZipCrypto \<Rightarrow> byte \<Rightarrow> ZipCrypto" where
  "updateKeys z byteValue =
     (let k0 = crc32update (Key0 z) byteValue;
          k1 = Key1 z + (k0 AND 0xff);
          k1 = k1 * 134775813 + 1;
          k2 = crc32update (Key2 z) (ucast (drop_bit 24 k1))
      in z\<lparr>Key0 := k0, Key1 := k1, Key2 := k2\<rparr>)"

definition magicByte :: "ZipCrypto \<Rightarrow> byte" where
  "magicByte z = (let t = Key2 z OR 2 in ucast (drop_bit 8 (t * (t XOR 1))))"

text \<open>\<open>init\<close> and \<open>NewZipCrypto\<close>.\<close>

definition zc_init :: "ZipCrypto \<Rightarrow> ZipCrypto" where
  "zc_init z = foldl updateKeys
     (z\<lparr>Key0 := 0x12345678, Key1 := 0x23456789, Key2 := 0x34567890\<rparr>) (zc_password z)"

definition NewZipCrypto :: "byte list \<Rightarrow> ZipCrypto" where
  "NewZipCrypto passphrase =
     zc_init \<lparr>zc_password = passphrase, Key0 = 0, Key1 = 0, Key2 = 0\<rparr>"

text \<open>
  \<open>encryptTo(dst, src)\<close> and \<open>decryptTo(dst, src)\<close> write into a slice that may be the one they read
  from. They are modelled on a memory of arrays, with the loop counter explicit; a destination that
  is too short panics.
\<close>

type_synonym memory = "nat \<Rightarrow> byte list"

function encryptTo_loop ::
  "memory \<Rightarrow> nat \<Rightarrow> nat \<Rightarrow> nat \<Rightarrow> nat \<Rightarrow> ZipCrypto \<Rightarrow> (memory \<times> ZipCrypto) option" where
  "encryptTo_loop mem dst src i n z =
     (if i < n then
        let v = mem src ! i in
        if length (mem dst) \<le> i then None
        else encryptTo_loop (mem(dst := (mem dst)[i := v XOR magicByte z])) dst src (i + 1) n
               (updateKeys z v)
      else Some (mem, z))"
  by pat_completeness auto
termination
  by (relation "measure (\<lambda>(mem, dst, src, i, n, z). n - i)") auto

function decryptTo_loop ::
  "memory \<Rightarrow> nat \<Rightarrow> nat \<Rightarrow> nat \<Rightarrow> nat \<Rightarrow> ZipCrypto \<Rightarrow> (memory \<times> ZipCrypto) option" where
  "decryptTo_loop mem dst src i n z =
     (if i < n then
        let v = mem src ! i XOR magicByte z;
            z' = updateKeys z v in
        if length (mem dst) \<le> i then None
        else decryptTo_loop (mem(dst := (mem dst)[i := v])) dst src (i + 1) n z'
      else Some (mem, z))"
  by pat_completeness auto
termination
  by (relation "measure (\<lambda>(mem, dst, src, i, n, z). n - i)") auto

declare encryptTo_loop.simps [simp del] decryptTo_loop.simps [simp del]

definition encryptTo ::
  "ZipCrypto \<Rightarrow> memory \<Rightarrow> nat \<Rightarrow> nat \<Rightarrow> (memory \<times> ZipCrypto) option" where
  "encryptTo z mem dst src = encryptTo_loop mem dst src 0 (length (mem src)) z"

definition decryptTo ::
  "ZipCrypto \<Rightarrow> memory \<Rightarrow> nat \<Rightarrow> nat \<Rightarrow> (memory \<times> ZipCrypto) option" where
  "decryptTo z mem dst src = decryptTo_loop mem dst src 0 (length (mem src)) z"

text \<open>
  What the loops compute, as functions of the bytes: the reference the callers are stated with.
\<close>

fun zc_encrypt :: "ZipCrypto \<Rightarrow> byte list \<Rightarrow> byte list \<times> ZipCrypto" where
  "zc_encrypt z [] = ([], z)"
| "zc_encrypt z (v # vs) =
     (case zc_encrypt (updateKeys z v) vs of (cs, z') \<Rightarrow> ((v XOR magicByte z) # cs, z'))"

fun zc_decrypt :: "ZipCrypto \<Rightarrow> byte list \<Rightarrow> byte list \<times> ZipCrypto" where
  "zc_decrypt z [] = ([], z)"
| "zc_decrypt z (c # cs) =
     (let v = c XOR magicByte z in
      case zc_decrypt (updateKeys z v) cs of (vs, z') \<Rightarrow> (v # vs, z'))"

lemma length_zc_encrypt [simp]: "length (fst (zc_encrypt z p)) = length p"
  by (induction z p rule: zc_encrypt.induct) (simp_all add: split_beta)

lemma length_zc_decrypt [simp]: "length (fst (zc_decrypt z c)) = length c"
  by (induction z c rule: zc_decrypt.induct) (simp_all add: Let_def split_beta)

lemma zc_append:
  "zc_encrypt z (p @ q) =
     (let (c, z') = zc_encrypt z p; (d, z'') = zc_encrypt z' q in (c @ d, z''))"
  by (induction z p rule: zc_encrypt.induct) (auto split: prod.splits)

lemma zc_decrypt_append:
  "zc_decrypt z (c @ d) =
     (let (p, z') = zc_decrypt z c; (q, z'') = zc_decrypt z' d in (p @ q, z''))"
  by (induction z c rule: zc_decrypt.induct) (auto simp: Let_def split: prod.splits)

lemma xor_twice [simp]: "(a XOR b) XOR b = (a :: 'a::len word)"
  by (simp add: xor.assoc)

lemma zc_roundtrip: "zc_decrypt z (fst (zc_encrypt z p)) = (p, snd (zc_encrypt z p))"
  by (induction z p rule: zc_encrypt.induct) (auto simp: Let_def split: prod.splits)

lemma zc_roundtrip': "zc_encrypt z (fst (zc_decrypt z c)) = (c, snd (zc_decrypt z c))"
  by (induction z c rule: zc_decrypt.induct) (auto simp: Let_def split: prod.splits)

text \<open>
  The loop invariant: the part of the destination before \<open>i\<close> is written, the source from \<open>i\<close> on is
  as it was.
\<close>

lemma encryptTo_loop_spec:
  "i \<le> n \<Longrightarrow> n = length (mem src) \<Longrightarrow> n \<le> length (mem dst) \<Longrightarrow>
     encryptTo_loop mem dst src i n z =
       Some (mem(dst := take i (mem dst) @ fst (zc_encrypt z (drop i (mem src))) @ drop n (mem dst)),
             snd (zc_encrypt z (drop i (mem src))))"
proof (induction mem dst src i n z rule: encryptTo_loop.induct)
  case (1 mem dst src i n z)
  show ?case
  proof (cases "i < n")
    case False
    with "1.prems" show ?thesis by (subst encryptTo_loop.simps) simp
  next
    case True
    let ?v = "mem src ! i"
    let ?mem = "mem(dst := (mem dst)[i := ?v XOR magicByte z])"
    have i: "i < length (mem src)" "i < length (mem dst)" using True "1.prems" by auto
    have src: "drop i (mem src) = ?v # drop (i + 1) (mem src)"
      using i by (simp add: Cons_nth_drop_Suc)
    have src': "drop (i + 1) (?mem src) = drop (i + 1) (mem src)"
      by simp
    have dst: "take (i + 1) (?mem dst) = take i (mem dst) @ [?v XOR magicByte z]"
      using i by (simp add: take_Suc_conv_app_nth)
    have "encryptTo_loop mem dst src i n z = encryptTo_loop ?mem dst src (i + 1) n (updateKeys z ?v)"
      using i True by (subst encryptTo_loop.simps) (simp add: Let_def)
    also have "\<dots> = Some (?mem(dst := take (i + 1) (?mem dst)
          @ fst (zc_encrypt (updateKeys z ?v) (drop (i + 1) (?mem src))) @ drop n (?mem dst)),
        snd (zc_encrypt (updateKeys z ?v) (drop (i + 1) (?mem src))))"
      using True i "1.prems" by (intro "1.IH") (auto simp del: fun_upd_apply simp: fun_upd_def)
    finally show ?thesis
      unfolding src' dst src using i True by (simp add: split_beta fun_eq_iff)
  qed
qed

lemma decryptTo_loop_spec:
  "i \<le> n \<Longrightarrow> n = length (mem src) \<Longrightarrow> n \<le> length (mem dst) \<Longrightarrow>
     decryptTo_loop mem dst src i n z =
       Some (mem(dst := take i (mem dst) @ fst (zc_decrypt z (drop i (mem src))) @ drop n (mem dst)),
             snd (zc_decrypt z (drop i (mem src))))"
proof (induction mem dst src i n z rule: decryptTo_loop.induct)
  case (1 mem dst src i n z)
  show ?case
  proof (cases "i < n")
    case False
    with "1.prems" show ?thesis by (subst decryptTo_loop.simps) simp
  next
    case True
    let ?v = "mem src ! i XOR magicByte z"
    let ?mem = "mem(dst := (mem dst)[i := ?v])"
    have i: "i < length (mem src)" "i < length (mem dst)" using True "1.prems" by auto
    have src: "drop i (mem src) = mem src ! i # drop (i + 1) (mem src)"
      using i by (simp add: Cons_nth_drop_Suc)
    have src': "drop (i + 1) (?mem src) = drop (i + 1) (mem src)"
      by simp
    have dst: "take (i + 1) (?mem dst) = take i (mem dst) @ [?v]"
      using i by (simp add: take_Suc_conv_app_nth)
    have "decryptTo_loop mem dst src i n z = decryptTo_loop ?mem dst src (i + 1) n (updateKeys z ?v)"
      using i True by (subst decryptTo_loop.simps) (simp add: Let_def)
    also have "\<dots> = Some (?mem(dst := take (i + 1) (?mem dst)
          @ fst (zc_decrypt (updateKeys z ?v) (drop (i + 1) (?mem src))) @ drop n (?mem dst)),
        snd (zc_decrypt (updateKeys z ?v) (drop (i + 1) (?mem src))))"
      using True i "1.prems" by (intro "1.IH") (auto simp del: fun_upd_apply simp: fun_upd_def)
    finally show ?thesis
      unfolding src' dst src using i True by (simp add: split_beta Let_def fun_eq_iff)
  qed
qed

text \<open>\<open>Encrypt\<close> and \<open>Decrypt\<close>: into a fresh array.\<close>

definition Encrypt :: "ZipCrypto \<Rightarrow> byte list \<Rightarrow> (byte list \<times> ZipCrypto) option" where
  "Encrypt z data = do {
     (mem, z') \<leftarrow> encryptTo z ((\<lambda>_. [])(0 := data, 1 := replicate (length data) 0)) 1 0;
     Some (mem 1, z') }"

definition Decrypt :: "ZipCrypto \<Rightarrow> byte list \<Rightarrow> (byte list \<times> ZipCrypto) option" where
  "Decrypt z chiper = do {
     (mem, z') \<leftarrow> decryptTo z ((\<lambda>_. [])(0 := chiper, 1 := replicate (length chiper) 0)) 1 0;
     Some (mem 1, z') }"

lemma Encrypt_spec: "Encrypt z data = Some (zc_encrypt z data)"
  by (simp add: Encrypt_def encryptTo_def encryptTo_loop_spec)

lemma Decrypt_spec: "Decrypt z chiper = Some (zc_decrypt z chiper)"
  by (simp add: Decrypt_def decryptTo_def decryptTo_loop_spec)

end
