(* ===== verification/Zip_CryptoStream.thy ===== *)
theory Zip_CryptoStream
  imports Zip_Crypto
begin

text \<open>
  The streaming half of zipcrypto.go: the password check bytes, \<open>zipCryptoWriter\<close>,
  \<open>zipCryptoDecryptReader\<close> and the whole-payload \<open>ZipCryptoDecryptor\<close>.
\<close>

definition zipCryptoHeaderLen :: nat where "zipCryptoHeaderLen = 12"
definition zipCryptoChunkSize :: nat where "zipCryptoChunkSize = 32 * 1024"

definition zipCryptoCheckBytes :: "u16 \<Rightarrow> u16 \<Rightarrow> u32 \<Rightarrow> byte \<times> byte" where
  "zipCryptoCheckBytes flags modTime crc =
     (if flags AND 0x8 \<noteq> 0 then (ucast modTime, ucast (drop_bit 8 modTime))
      else (ucast (drop_bit 16 crc), ucast (drop_bit 24 crc)))"

section \<open>The encrypting writer\<close>

text \<open>
  \<open>zw_rand\<close> is what the one call of \<open>rand.Read\<close> of this writer returns: an error or ten bytes. The
  scratch buffer \<open>buf\<close> of the Go struct only holds ciphertext between two statements of \<open>Write\<close> and
  has no field here. The methods take the header \<open>z.fw\<close> points to, \<open>None\<close> for a nil \<open>fw\<close>.
\<close>

record 'w zipCryptoWriter =
  zw_w :: 'w
  zw_z :: ZipCrypto
  zw_first :: bool
  zw_rand :: "byte list result"
  zw_err :: "zip_error option"

definition ZipCryptoEncryptor ::
  "'w \<Rightarrow> byte list \<Rightarrow> byte list result \<Rightarrow> 'w zipCryptoWriter" where
  "ZipCryptoEncryptor i pass rnd =
     \<lparr>zw_w = i, zw_z = NewZipCrypto pass, zw_first = True, zw_rand = rnd, zw_err = None\<rparr>"

definition encrypt_in_place :: "ZipCrypto \<Rightarrow> byte list \<Rightarrow> (byte list \<times> ZipCrypto) option" where
  "encrypt_in_place z b = do { (mem, z') \<leftarrow> encryptTo z (\<lambda>_. b) 0 0; Some (mem 0, z') }"

definition decrypt_in_place :: "ZipCrypto \<Rightarrow> byte list \<Rightarrow> (byte list \<times> ZipCrypto) option" where
  "decrypt_in_place z b = do { (mem, z') \<leftarrow> decryptTo z (\<lambda>_. b) 0 0; Some (mem 0, z') }"

lemma in_place_spec [simp]:
  "encrypt_in_place z b = Some (zc_encrypt z b)" "decrypt_in_place z b = Some (zc_decrypt z b)"
  by (simp_all add: encrypt_in_place_def decrypt_in_place_def encryptTo_def decryptTo_def
      encryptTo_loop_spec decryptTo_loop_spec)

definition zcw_checkBytes :: "FileHeader option \<Rightarrow> byte \<times> byte" where
  "zcw_checkBytes fw = (case fw of
     None \<Rightarrow> zipCryptoCheckBytes 0 0 0
   | Some fh \<Rightarrow> zipCryptoCheckBytes (Flags fh) (ModifiedTime fh) (CRC32 fh))"

definition zipCryptoWriter_writeHeader ::
  "'w write_fn \<Rightarrow> FileHeader option \<Rightarrow> 'w zipCryptoWriter
     \<Rightarrow> zip_error option \<times> 'w zipCryptoWriter" where
  "zipCryptoWriter_writeHeader wr fw z =
     (if \<not> zw_first z then (zw_err z, z)
      else let z = z\<lparr>zw_first := False\<rparr> in
        case zw_rand z of
          Inl e \<Rightarrow> (Some e, z\<lparr>zw_err := Some e\<rparr>)
        | Inr r \<Rightarrow>
            let (lo, hi) = zcw_checkBytes fw; header = r @ [lo, hi] in
            (case encrypt_in_place (zw_z z) header of
               None \<Rightarrow> (Some GoPanic, z)
             | Some (header, zc) \<Rightarrow>
                 (case wr (zw_w z) header of
                    (n, e, w') \<Rightarrow> (e, z\<lparr>zw_w := w', zw_z := zc, zw_err := e\<rparr>))))"

function zipCryptoWriter_chunks ::
  "'w write_fn \<Rightarrow> 'w zipCryptoWriter \<Rightarrow> nat \<Rightarrow> byte list
     \<Rightarrow> nat \<times> zip_error option \<times> 'w zipCryptoWriter" where
  "zipCryptoWriter_chunks wr z n p =
     (if p = [] then (n, None, z)
      else let chunk = min (length p) zipCryptoChunkSize in
        case encrypt_in_place (zw_z z) (take chunk p) of
          None \<Rightarrow> (n, Some GoPanic, z)
        | Some (ct, zc) \<Rightarrow>
            (case wr (zw_w z) ct of
               (nn, Some err, w') \<Rightarrow>
                 (n + nn, Some err, z\<lparr>zw_w := w', zw_z := zc, zw_err := Some err\<rparr>)
             | (nn, None, w') \<Rightarrow>
                 zipCryptoWriter_chunks wr (z\<lparr>zw_w := w', zw_z := zc\<rparr>) (n + nn) (drop chunk p)))"
  by pat_completeness auto
termination
  by (relation "measure (\<lambda>(wr, z, n, p). length p)") (auto simp: zipCryptoChunkSize_def)

declare zipCryptoWriter_chunks.simps [simp del]

definition zipCryptoWriter_Write ::
  "FileHeader option \<Rightarrow> 'w write_fn \<Rightarrow> 'w zipCryptoWriter write_fn" where
  "zipCryptoWriter_Write fw wr z p =
     (case zipCryptoWriter_writeHeader wr fw z of
        (Some err, z) \<Rightarrow> (0, Some err, z)
      | (None, z) \<Rightarrow> zipCryptoWriter_chunks wr z 0 p)"

definition zipCryptoWriter_Close ::
  "FileHeader option \<Rightarrow> 'w write_fn \<Rightarrow> 'w zipCryptoWriter
     \<Rightarrow> zip_error option \<times> 'w zipCryptoWriter" where
  "zipCryptoWriter_Close fw wr z = zipCryptoWriter_writeHeader wr fw z"

text \<open>
  The writer's invariant: nothing is written before the first call, and afterwards the destination
  holds the encryption of the 12-byte header followed by everything taken so far.
\<close>

definition zcw_rel ::
  "('w \<Rightarrow> byte list) \<Rightarrow> byte list \<Rightarrow> byte list \<Rightarrow> byte list \<Rightarrow> byte \<times> byte \<Rightarrow> 'w zipCryptoWriter
     \<Rightarrow> byte list \<Rightarrow> bool" where
  "zcw_rel out base pw r chk z acc \<longleftrightarrow>
     zw_rand z = Inr r \<and> zw_err z = None \<and>
     (if zw_first z then acc = [] \<and> out (zw_w z) = base \<and> zw_z z = NewZipCrypto pw
      else out (zw_w z) = base @ fst (zc_encrypt (NewZipCrypto pw) (r @ [fst chk, snd chk] @ acc))
        \<and> zw_z z = snd (zc_encrypt (NewZipCrypto pw) (r @ [fst chk, snd chk] @ acc)))"

lemma zc_encrypt_split:
  "zc_encrypt z p = (let (c, z') = zc_encrypt z (take k p); (d, z'') = zc_encrypt z' (drop k p)
     in (c @ d, z''))"
  using zc_append [of z "take k p" "drop k p"] by simp

context io_writer
begin

lemma zcw_chunks_ok:
  "zipCryptoWriter_chunks wr z n p = (m, None, z') \<Longrightarrow>
     m = n + length p \<and> out (zw_w z') = out (zw_w z) @ fst (zc_encrypt (zw_z z) p)
     \<and> zw_z z' = snd (zc_encrypt (zw_z z) p)
     \<and> zw_first z' = zw_first z \<and> zw_rand z' = zw_rand z \<and> zw_err z' = zw_err z"
proof (induction "length p" arbitrary: z n p rule: less_induct)
  case less
  show ?case
  proof (cases "p = []")
    case True
    with less.prems show ?thesis by (simp add: zipCryptoWriter_chunks.simps)
  next
    case False
    define k where "k = min (length p) zipCryptoChunkSize"
    have k: "0 < k" "k \<le> length p" using False by (auto simp: k_def zipCryptoChunkSize_def)
    obtain c zc where c: "zc_encrypt (zw_z z) (take k p) = (c, zc)" by fastforce
    obtain nn e w' where w: "wr (zw_w z) c = (nn, e, w')" by (cases "wr (zw_w z) c") auto
    let ?z = "z\<lparr>zw_w := w', zw_z := zc\<rparr>"
    from less.prems False c w have e: "e = None"
      and rest: "zipCryptoWriter_chunks wr ?z (n + nn) (drop k p) = (m, None, z')"
      by (subst (asm) zipCryptoWriter_chunks.simps,
          auto simp: Let_def simp flip: k_def split: option.splits)+
    have "nn = k" "out w' = out (zw_w z) @ c"
      using write_ok w [unfolded e] length_zc_encrypt [of "zw_z z" "take k p"] c k by auto
    with less.hyps [OF _ rest] k show ?thesis
      using zc_encrypt_split [of "zw_z z" p k] c by (simp add: split_beta)
  qed
qed

lemma zcw_chunks_good:
  "good (zw_w z) \<Longrightarrow> \<exists>m z'. zipCryptoWriter_chunks wr z n p = (m, None, z') \<and> good (zw_w z')"
proof (induction "length p" arbitrary: z n p rule: less_induct)
  case less
  show ?case
  proof (cases "p = []")
    case True
    with less.prems show ?thesis by (simp add: zipCryptoWriter_chunks.simps)
  next
    case False
    define k where "k = min (length p) zipCryptoChunkSize"
    have k: "0 < k" "k \<le> length p" using False by (auto simp: k_def zipCryptoChunkSize_def)
    obtain c zc where c: "zc_encrypt (zw_z z) (take k p) = (c, zc)" by fastforce
    from write_good [OF less.prems, of c] obtain nn w' where
      w: "wr (zw_w z) c = (nn, None, w')" "good w'" by blast
    let ?z = "z\<lparr>zw_w := w', zw_z := zc\<rparr>"
    have "zipCryptoWriter_chunks wr z n p = zipCryptoWriter_chunks wr ?z (n + nn) (drop k p)"
      using False c w by (subst zipCryptoWriter_chunks.simps) (simp add: Let_def flip: k_def)
    moreover have "length (drop k p) < length p" "good (zw_w ?z)" using k w(2) by simp_all
    then obtain m z' where
      "zipCryptoWriter_chunks wr ?z (n + nn) (drop k p) = (m, None, z')" "good (zw_w z')"
      using less.hyps by blast
    ultimately show ?thesis by simp
  qed
qed

lemma zcw_header_ok:
  assumes "zcw_rel out base pw r (zcw_checkBytes fw) z acc"
    and "zipCryptoWriter_writeHeader wr fw z = (None, z')"
  shows "zcw_rel out base pw r (zcw_checkBytes fw) z' acc \<and> \<not> zw_first z'"
proof (cases "zw_first z")
  case False
  with assms show ?thesis by (simp add: zipCryptoWriter_writeHeader_def)
next
  case True
  let ?h = "r @ [fst (zcw_checkBytes fw), snd (zcw_checkBytes fw)]"
  from True assms obtain n w' where
    w: "wr (zw_w z) (fst (zc_encrypt (NewZipCrypto pw) ?h)) = (n, None, w')"
    and z': "z' = z\<lparr>zw_first := False, zw_w := w',
        zw_z := snd (zc_encrypt (NewZipCrypto pw) ?h), zw_err := None\<rparr>"
    by (auto simp: zipCryptoWriter_writeHeader_def zcw_rel_def Let_def split_beta prod_eq_iff
        split: prod.splits)
  from write_ok [OF w] True assms(1) show ?thesis by (simp add: z' zcw_rel_def)
qed

lemma zcw_header_good:
  assumes "zcw_rel out base pw r chk z acc" and "good (zw_w z)"
  shows "\<exists>z'. zipCryptoWriter_writeHeader wr fw z = (None, z') \<and> good (zw_w z')"
proof (cases "zw_first z")
  case False
  with assms show ?thesis by (simp add: zipCryptoWriter_writeHeader_def zcw_rel_def)
next
  case True
  let ?h = "fst (zc_encrypt (zw_z z) (r @ [fst (zcw_checkBytes fw), snd (zcw_checkBytes fw)]))"
  from write_good [OF assms(2), of ?h] obtain n w' where
    "wr (zw_w z) ?h = (n, None, w')" "good w'" by blast
  with True assms(1) show ?thesis
    by (simp add: zipCryptoWriter_writeHeader_def zcw_rel_def Let_def split_beta)
qed

end

text \<open>The encrypting writer over any writer accepts what it is given.\<close>

sublocale io_writer \<subseteq> zcw: accepting "zipCryptoWriter_Write fw wr"
  "zcw_rel out base pw r (zcw_checkBytes fw)" "\<lambda>z. good (zw_w z)" for fw base pw r
proof
  fix z :: "'w zipCryptoWriter" and acc p n z'
  assume rel: "zcw_rel out base pw r (zcw_checkBytes fw) z acc"
    and w: "zipCryptoWriter_Write fw wr z p = (n, None, z')"
  then obtain z1 where h: "zipCryptoWriter_writeHeader wr fw z = (None, z1)"
    and c: "zipCryptoWriter_chunks wr z1 0 p = (n, None, z')"
    by (auto simp: zipCryptoWriter_Write_def split: prod.splits option.splits)
  from zcw_header_ok [OF rel h] zcw_chunks_ok [OF c]
  show "n = length p \<and> zcw_rel out base pw r (zcw_checkBytes fw) z' (acc @ p)"
    using zc_append [of "NewZipCrypto pw" "r @ [fst (zcw_checkBytes fw), snd (zcw_checkBytes fw)] @ acc" p]
    by (auto simp: zcw_rel_def split_beta)
next
  fix z :: "'w zipCryptoWriter" and acc p
  assume "zcw_rel out base pw r (zcw_checkBytes fw) z acc" "good (zw_w z)"
  then obtain z1 where h: "zipCryptoWriter_writeHeader wr fw z = (None, z1)" "good (zw_w z1)"
    using zcw_header_good by blast
  then obtain n z' where "zipCryptoWriter_chunks wr z1 0 p = (n, None, z')" "good (zw_w z')"
    using zcw_chunks_good by blast
  with h show "\<exists>n z'. zipCryptoWriter_Write fw wr z p = (n, None, z') \<and> good (zw_w z')"
    by (simp add: zipCryptoWriter_Write_def)
qed

section \<open>The decrypting reader\<close>

record 's zipCryptoDecryptReader =
  zd_r :: 's
  zd_z :: ZipCrypto
  zd_check :: byte
  zd_verify :: bool
  zd_headerDone :: bool
  zd_err :: "zip_error option"

definition newZipCryptoDecryptReader ::
  "'s \<Rightarrow> byte list \<Rightarrow> byte \<Rightarrow> bool \<Rightarrow> 's zipCryptoDecryptReader" where
  "newZipCryptoDecryptReader r pw check verify =
     \<lparr>zd_r = r, zd_z = NewZipCrypto pw, zd_check = check, zd_verify = verify,
      zd_headerDone = False, zd_err = None\<rparr>"

definition zipCryptoDecryptReader_readHeader ::
  "'s read_fn \<Rightarrow> 's zipCryptoDecryptReader
     \<Rightarrow> (zip_error option \<times> 's zipCryptoDecryptReader) option" where
  "zipCryptoDecryptReader_readHeader rd zd =
     (if zd_headerDone zd then Some (zd_err zd, zd)
      else do {
        let zd = zd\<lparr>zd_headerDone := True\<rparr>;
        (header, err, r') \<leftarrow> io_ReadFull rd zipCryptoHeaderLen (zd_r zd);
        let zd = zd\<lparr>zd_r := r'\<rparr>;
        (case err of
           Some err \<Rightarrow>
             (let err = (if err = ErrEOF then ErrUnexpectedEOF else err)
              in Some (Some err, zd\<lparr>zd_err := Some err\<rparr>))
         | None \<Rightarrow>
             (case decrypt_in_place (zd_z zd) header of
                None \<Rightarrow> Some (Some GoPanic, zd)
              | Some (header, zc) \<Rightarrow>
                  (let zd = zd\<lparr>zd_z := zc\<rparr>;
                       zd = (if zd_verify zd \<and> header ! (zipCryptoHeaderLen - 1) \<noteq> zd_check zd
                             then zd\<lparr>zd_err := Some ErrPassword\<rparr> else zd)
                   in Some (zd_err zd, zd))))
      })"

definition zipCryptoDecryptReader_Read ::
  "'s read_fn \<Rightarrow> 's zipCryptoDecryptReader read_fn" where
  "zipCryptoDecryptReader_Read rd zd n = do {
     (err, zd) \<leftarrow> zipCryptoDecryptReader_readHeader rd zd;
     (case err of
        Some err \<Rightarrow> Some ([], Some err, zd)
      | None \<Rightarrow> do {
          (d, e, r') \<leftarrow> rd (zd_r zd) n;
          (case decrypt_in_place (zd_z zd) d of
             None \<Rightarrow> Some ([], Some GoPanic, zd)
           | Some (p, zc) \<Rightarrow> Some (p, e, zd\<lparr>zd_r := r', zd_z := zc\<rparr>)) }) }"

text \<open>The exported constructors; \<open>None\<close> is a nil \<open>FileHeader\<close>.\<close>

definition NewZipCryptoDecryptReader :: "'s \<Rightarrow> byte list \<Rightarrow> 's zipCryptoDecryptReader" where
  "NewZipCryptoDecryptReader r pw = newZipCryptoDecryptReader r pw 0 False"

definition NewVerifiedZipCryptoDecryptReader ::
  "'s \<Rightarrow> byte list \<Rightarrow> FileHeader option \<Rightarrow> 's zipCryptoDecryptReader" where
  "NewVerifiedZipCryptoDecryptReader r pw fh = (case fh of
     None \<Rightarrow> \<lparr>zd_r = r, zd_z = \<lparr>zc_password = [], Key0 = 0, Key1 = 0, Key2 = 0\<rparr>, zd_check = 0,
       zd_verify = False, zd_headerDone = True, zd_err = Some ErrNilHeader\<rparr>
   | Some fh \<Rightarrow>
       (let (_, check) = zipCryptoCheckBytes (Flags fh) (ModifiedTime fh) (CRC32 fh)
        in newZipCryptoDecryptReader r pw check True))"

text \<open>
  \<open>ZipCryptoDecryptor\<close>: \<open>sz\<close> is the section's declared length and \<open>avail\<close> the bytes it can
  deliver before its error \<open>e\<close>.
\<close>

definition ZipCryptoDecryptor ::
  "int \<Rightarrow> byte list \<Rightarrow> zip_error \<Rightarrow> byte list \<Rightarrow> byte list result" where
  "ZipCryptoDecryptor sz avail e pw =
     (if sz < int zipCryptoHeaderLen then Inl ErrUnexpectedEOF
      else if int (length avail) < sz then Inl (if e = ErrEOF then ErrUnexpectedEOF else e)
      else case decrypt_in_place (NewZipCrypto pw) (take (nat sz) avail) of
             None \<Rightarrow> Inl GoPanic
           | Some (b, _) \<Rightarrow> Inr (drop zipCryptoHeaderLen b))"

text \<open>
  What a decrypting reader delivers, from its state and what its source still holds: the plaintext
  and final error before the header is read, and after.
\<close>

definition zd_view ::
  "byte list \<Rightarrow> zip_error \<Rightarrow> 's zipCryptoDecryptReader \<Rightarrow> byte list \<times> zip_error" where
  "zd_view bs e zd =
     (if zd_headerDone zd then
        (case zd_err zd of
           Some err \<Rightarrow> ([], err)
         | None \<Rightarrow> (fst (zc_decrypt (zd_z zd) bs), e))
      else if length bs < zipCryptoHeaderLen then
        ([], if e = ErrEOF then ErrUnexpectedEOF else e)
      else let (h, zc) = zc_decrypt (zd_z zd) (take zipCryptoHeaderLen bs) in
        if zd_verify zd \<and> h ! (zipCryptoHeaderLen - 1) \<noteq> zd_check zd then ([], ErrPassword)
        else (fst (zc_decrypt zc (drop zipCryptoHeaderLen bs)), e))"

locale zc_source = io_reader rd inv stream fin rank
  for rd :: "'s read_fn" and inv :: "'s \<Rightarrow> bool" and stream :: "'s \<Rightarrow> byte list"
    and fin :: "'s \<Rightarrow> zip_error" and rank :: "'s \<Rightarrow> nat"
begin

definition zd_inv :: "'s zipCryptoDecryptReader \<Rightarrow> bool" where
  "zd_inv zd \<longleftrightarrow> inv (zd_r zd) \<and> (\<not> zd_headerDone zd \<longrightarrow> zd_err zd = None)"

text \<open>Reading the header does not change what is delivered.\<close>

lemma readHeader_spec:
  assumes "zd_inv zd"
  obtains e zd' where "zipCryptoDecryptReader_readHeader rd zd = Some (e, zd')"
    "zd_inv zd'" "zd_headerDone zd'" "e = zd_err zd'" "rank (zd_r zd') \<le> rank (zd_r zd)"
    "zd_view (stream (zd_r zd')) (fin (zd_r zd')) zd' = zd_view (stream (zd_r zd)) (fin (zd_r zd)) zd"
proof (cases "zd_headerDone zd")
  case True
  with assms that [of "zd_err zd" zd] show ?thesis
    by (simp add: zipCryptoDecryptReader_readHeader_def)
next
  case False
  with assms have i: "inv (zd_r zd)" "zd_err zd = None" by (auto simp: zd_inv_def)
  let ?bs = "stream (zd_r zd)" and ?n = zipCryptoHeaderLen
  obtain r' where r: "io_ReadFull rd ?n (zd_r zd) =
      Some (take ?n ?bs, readFull_err ?n ?bs (fin (zd_r zd)), r')"
    "inv r'" "fin r' = fin (zd_r zd)" "rank r' \<le> rank (zd_r zd)" "stream r' = drop ?n ?bs"
    using ReadFull_spec [OF i(1)] by blast
  obtain h zc where h: "zc_decrypt (zd_z zd) (take ?n ?bs) = (h, zc)" by fastforce
  show ?thesis
  proof (cases "length ?bs < ?n")
    case True
    then have "\<exists>err. readFull_err ?n ?bs (fin (zd_r zd)) = Some err
      \<and> (if err = ErrEOF then ErrUnexpectedEOF else err)
         = (if fin (zd_r zd) = ErrEOF then ErrUnexpectedEOF else fin (zd_r zd))"
      by (auto simp: readFull_err_def)
    then obtain err where err: "readFull_err ?n ?bs (fin (zd_r zd)) = Some err"
      "(if err = ErrEOF then ErrUnexpectedEOF else err)
         = (if fin (zd_r zd) = ErrEOF then ErrUnexpectedEOF else fin (zd_r zd))"
      by blast
    let ?e = "if err = ErrEOF then ErrUnexpectedEOF else err"
    let ?zd = "zd\<lparr>zd_headerDone := True, zd_r := r', zd_err := Some ?e\<rparr>"
    have "zipCryptoDecryptReader_readHeader rd zd = Some (Some ?e, ?zd)"
      using False r(1) err(1) by (simp add: zipCryptoDecryptReader_readHeader_def Let_def)
    moreover have "zd_view (stream (zd_r ?zd)) (fin (zd_r ?zd)) ?zd
        = zd_view (stream (zd_r zd)) (fin (zd_r zd)) zd"
      using False True err(2) by (simp add: zd_view_def)
    ultimately show ?thesis using r by (intro that [of "Some ?e" ?zd]) (simp_all add: zd_inv_def)
  next
    case long: False
    then have ok: "readFull_err ?n ?bs (fin (zd_r zd)) = None" by (simp add: readFull_err_def)
    let ?e = "if zd_verify zd \<and> h ! (?n - 1) \<noteq> zd_check zd then Some ErrPassword else None"
    let ?zd = "zd\<lparr>zd_headerDone := True, zd_r := r', zd_z := zc, zd_err := ?e\<rparr>"
    have "zipCryptoDecryptReader_readHeader rd zd = Some (?e, ?zd)"
      using False r(1) ok h i(2) by (simp add: zipCryptoDecryptReader_readHeader_def Let_def)
    moreover have "zd_view (stream (zd_r ?zd)) (fin (zd_r ?zd)) ?zd
        = zd_view (stream (zd_r zd)) (fin (zd_r zd)) zd"
      using False long h r by (simp add: zd_view_def)
    ultimately show ?thesis using r by (intro that [of ?e ?zd]) (simp_all add: zd_inv_def)
  qed
qed

text \<open>A read once the header is done.\<close>

definition zd_continue ::
  "'s zipCryptoDecryptReader \<Rightarrow> nat \<Rightarrow> (byte list \<times> zip_error option \<times> 's zipCryptoDecryptReader) option"
where
  "zd_continue zd1 n = (case zd_err zd1 of
     Some err \<Rightarrow> Some ([], Some err, zd1)
   | None \<Rightarrow> do { (d, er, r') \<leftarrow> rd (zd_r zd1) n;
       Some (fst (zc_decrypt (zd_z zd1) d), er,
         zd1\<lparr>zd_r := r', zd_z := snd (zc_decrypt (zd_z zd1) d)\<rparr>) })"

lemma Read_spec:
  assumes "zd_inv zd" and "0 < n"
  obtains zd1 where "zd_inv zd1" "zd_headerDone zd1"
    "rank (zd_r zd1) \<le> rank (zd_r zd)"
    "zd_view (stream (zd_r zd1)) (fin (zd_r zd1)) zd1 = zd_view (stream (zd_r zd)) (fin (zd_r zd)) zd"
    "zipCryptoDecryptReader_Read rd zd n = zd_continue zd1 n"
proof -
  obtain e zd1 where h: "zipCryptoDecryptReader_readHeader rd zd = Some (e, zd1)"
    "zd_inv zd1" "zd_headerDone zd1" "e = zd_err zd1" "rank (zd_r zd1) \<le> rank (zd_r zd)"
    "zd_view (stream (zd_r zd1)) (fin (zd_r zd1)) zd1 = zd_view (stream (zd_r zd)) (fin (zd_r zd)) zd"
    using readHeader_spec [OF assms(1)] by metis
  then have "zipCryptoDecryptReader_Read rd zd n = zd_continue zd1 n"
    by (simp add: zipCryptoDecryptReader_Read_def zd_continue_def split_beta split: option.split)
  with h that show ?thesis by blast
qed

lemma Read_cases:
  assumes "zd_inv zd" and "0 < n" and "zipCryptoDecryptReader_Read rd zd n = Some (d, er, zd')"
  obtains (failed) err where "d = []" "er = Some err" "zd_inv zd'"
      "rank (zd_r zd') \<le> rank (zd_r zd)"
      "zd_view (stream (zd_r zd)) (fin (zd_r zd)) zd = ([], err)"
      "zd_view (stream (zd_r zd')) (fin (zd_r zd')) zd' = ([], err)"
  | (data) c r1 zd1 where "zd_inv zd1" "zd_headerDone zd1" "zd_err zd1 = None"
      "rank (zd_r zd1) \<le> rank (zd_r zd)"
      "zd_view (stream (zd_r zd)) (fin (zd_r zd)) zd
         = (fst (zc_decrypt (zd_z zd1) (stream (zd_r zd1))), fin (zd_r zd1))"
      "rd (zd_r zd1) n = Some (c, er, r1)" "d = fst (zc_decrypt (zd_z zd1) c)"
      "zd' = zd1\<lparr>zd_r := r1, zd_z := snd (zc_decrypt (zd_z zd1) c)\<rparr>"
proof -
  obtain zd1 where h: "zd_inv zd1" "zd_headerDone zd1"
    "rank (zd_r zd1) \<le> rank (zd_r zd)"
    "zd_view (stream (zd_r zd1)) (fin (zd_r zd1)) zd1 = zd_view (stream (zd_r zd)) (fin (zd_r zd)) zd"
    "zipCryptoDecryptReader_Read rd zd n = zd_continue zd1 n"
    by (rule Read_spec [OF assms(1,2)])
  show ?thesis
  proof (cases "zd_err zd1")
    case (Some err)
    with h assms(3) show ?thesis
      by (intro failed [of err]) (auto simp: zd_view_def zd_continue_def)
  next
    case None
    have "zd_continue zd1 n = Some (d, er, zd')" using h(5) assms(3) by simp
    with None obtain c r1 where
      "rd (zd_r zd1) n = Some (c, er, r1)" "d = fst (zc_decrypt (zd_z zd1) c)"
      "zd' = zd1\<lparr>zd_r := r1, zd_z := snd (zc_decrypt (zd_z zd1) c)\<rparr>"
      by (auto simp: bind_eq_Some_conv zd_continue_def)
    with h None show ?thesis by (intro data [of zd1]) (auto simp: zd_view_def)
  qed
qed

end

text \<open>The decrypting reader over any source is a source of the plaintext.\<close>

sublocale zc_source \<subseteq> zd: io_reader "zipCryptoDecryptReader_Read rd" zd_inv
  "\<lambda>zd. fst (zd_view (stream (zd_r zd)) (fin (zd_r zd)) zd)"
  "\<lambda>zd. snd (zd_view (stream (zd_r zd)) (fin (zd_r zd)) zd)" "\<lambda>zd. rank (zd_r zd)"
proof (unfold_locales, goal_cases)
  case (1 zd n)
  obtain zd1 where h: "zd_inv zd1" "zipCryptoDecryptReader_Read rd zd n = zd_continue zd1 n"
    by (rule Read_spec [OF 1])
  from read_returns [of "zd_r zd1" n] h(1) 1(2) obtain d er r' where
    "rd (zd_r zd1) n = Some (d, er, r')" by (auto simp: zd_inv_def)
  with h(2) show ?case by (auto simp: zd_continue_def split: option.split)
next
  case (2 zd n d er zd')
  show ?case
    using 2
  proof (cases rule: Read_cases)
    case (data c r1 zd1)
    have l: "inv r1 \<and> length c \<le> n \<and> stream (zd_r zd1) = c @ stream r1 \<and> fin r1 = fin (zd_r zd1)
        \<and> rank r1 \<le> rank (zd_r zd1)"
      using data(1) 2(2) by (intro read_law [OF _ _ data(6)]) (auto simp: zd_inv_def)
    then show ?thesis
      using data zc_decrypt_append [of "zd_z zd1" c "stream r1"]
      by (simp add: zd_inv_def zd_view_def split_beta)
  qed auto
next
  case (3 zd n d err zd')
  show ?case
    using 3
  proof (cases rule: Read_cases)
    case (data c r1 zd1)
    have "err = fin (zd_r zd1) \<and> stream r1 = []"
      using data(1) 3(2) by (intro read_end [OF _ _ data(6)]) (auto simp: zd_inv_def)
    with data show ?thesis by (simp add: zd_view_def)
  qed auto
next
  case (4 zd n d zd')
  show ?case
    using 4
  proof (cases rule: Read_cases)
    case (data c r1 zd1)
    have "rank r1 < rank (zd_r zd1)"
      using data(1) 4(2) by (intro read_more [OF _ _ data(6)]) (auto simp: zd_inv_def)
    with data show ?thesis by simp
  qed auto
qed

interpretation zcr: zc_source creader_Read "\<lambda>_. True" creader_stream cr_end creader_rank
  by unfold_locales

text \<open>A fresh reader on what the writer produced: the header passes, the rest is the plaintext.\<close>

lemma zd_view_written:
  assumes "length r = 10" and "verify \<longrightarrow> check = hi"
  shows "zd_view (fst (zc_encrypt (NewZipCrypto pw) (r @ [lo, hi] @ p))) e
     (newZipCryptoDecryptReader s pw check verify) = (p, e)"
proof -
  let ?z = "NewZipCrypto pw" and ?h = "r @ [lo, hi]"
  obtain ch z1 where h: "zc_encrypt ?z ?h = (ch, z1)" by fastforce
  obtain cp z2 where p: "zc_encrypt z1 p = (cp, z2)" by fastforce
  have l: "length ch = 12" using length_zc_encrypt [of ?z ?h] h assms(1) by simp
  have "zc_encrypt ?z (r @ [lo, hi] @ p) = (ch @ cp, z2)"
    using zc_append [of ?z ?h p] h p by simp
  moreover have "zc_decrypt ?z ch = (?h, z1)" using zc_roundtrip [of ?z ?h] h by simp
  moreover have "zc_decrypt z1 cp = (p, z2)" using zc_roundtrip [of z1 p] p by simp
  moreover have "(r @ [lo, hi]) ! 11 = hi" using assms(1) by (simp add: nth_append)
  ultimately show ?thesis
    using l assms(2) by (auto simp: zd_view_def newZipCryptoDecryptReader_def zipCryptoHeaderLen_def)
qed

section \<open>Whole streams\<close>

interpretation zcp: io_pipe "zipCryptoDecryptReader_Read creader_Read" zcr.zd_inv
  "\<lambda>zd. fst (zd_view (creader_stream (zd_r zd)) (cr_end (zd_r zd)) zd)"
  "\<lambda>zd. snd (zd_view (creader_stream (zd_r zd)) (cr_end (zd_r zd)) zd)"
  "\<lambda>zd. creader_rank (zd_r zd)" sink_write sink_data sink_good
  by unfold_locales

lemma zd_drain:
  assumes "zcr.zd_inv zd" "0 < k"
    "zd_view (creader_stream (zd_r zd)) (cr_end (zd_r zd)) zd = (p, e)"
  shows "\<exists>n s zd'. io_Copy sink_write (zipCryptoDecryptReader_Read creader_Read) k 0 empty_sink zd
    = Some (n, (if e = ErrEOF then None else Some e), s, zd') \<and> sink_data s = p"
  using zcp.Copy_spec [OF assms(1,2), of 0 empty_sink] assms(3)
  by (auto simp: empty_sink_def sink_good_def)

lemma zcw_all:
  assumes "length r = 10"
  shows "\<exists>z z'. write_seq (zipCryptoWriter_Write (Some fh) sink_write) ps
      (ZipCryptoEncryptor empty_sink pw (Inr r)) = (None, z)
    \<and> zipCryptoWriter_Close (Some fh) sink_write z = (None, z')
    \<and> sink_data (zw_w z') = fst (zc_encrypt (NewZipCrypto pw)
        (r @ [fst (zcw_checkBytes (Some fh)), snd (zcw_checkBytes (Some fh))] @ concat ps))"
proof -
  let ?rel = "zcw_rel sink_data [] pw r (zcw_checkBytes (Some fh))"
  have "?rel (ZipCryptoEncryptor empty_sink pw (Inr r)) []"
    by (simp add: zcw_rel_def ZipCryptoEncryptor_def empty_sink_def)
  moreover have "sink_good (zw_w (ZipCryptoEncryptor empty_sink pw (Inr r)))"
    by (simp add: ZipCryptoEncryptor_def empty_sink_def sink_good_def)
  ultimately obtain z where z: "write_seq (zipCryptoWriter_Write (Some fh) sink_write) ps
      (ZipCryptoEncryptor empty_sink pw (Inr r)) = (None, z)" "sink_good (zw_w z)" "?rel z (concat ps)"
    using snk.zcw.write_seq_accept [of "[]" pw r "Some fh"] by fastforce
  obtain z' where z': "zipCryptoWriter_writeHeader sink_write (Some fh) z = (None, z')"
    using snk.zcw_header_good [OF z(3,2)] by blast
  have "?rel z' (concat ps) \<and> \<not> zw_first z'"
    by (rule snk.zcw_header_ok [OF z(3) z'])
  with z(1) z' show ?thesis by (auto simp: zipCryptoWriter_Close_def zcw_rel_def)
qed

text \<open>
  C18. The ZipCrypto stream is a round trip. Whatever the plaintext is cut into, the encrypting
  writer over an unbounded destination takes all of it, and closing it succeeds; a verifying reader
  with the same password and header over its output, handed out in arbitrary chunks and read through
  any buffer, delivers exactly the plaintext and then \<open>io.EOF\<close>.
\<close>

theorem zipcrypto_stream_roundtrip:
  assumes "length r = 10"
    and "write_seq (zipCryptoWriter_Write (Some fh) sink_write) ps
      (ZipCryptoEncryptor empty_sink pw (Inr r)) = (e, z)"
    and "zipCryptoWriter_Close (Some fh) sink_write z = (e', z')"
    and "concat chunks = sink_data (zw_w z')" and "0 < k"
  shows "e = None \<and> e' = None \<and>
    (\<exists>n s zd. io_Copy sink_write (zipCryptoDecryptReader_Read creader_Read) k 0 empty_sink
       (NewVerifiedZipCryptoDecryptReader
          \<lparr>cr_chunks = chunks, cr_end = ErrEOF, cr_eager = eager\<rparr> pw (Some fh)) = Some (n, None, s, zd)
     \<and> sink_data s = concat ps)"
proof -
  obtain lo hi where c: "zcw_checkBytes (Some fh) = (lo, hi)" by fastforce
  let ?zd = "newZipCryptoDecryptReader \<lparr>cr_chunks = chunks, cr_end = ErrEOF, cr_eager = eager\<rparr> pw hi True"
  from zcw_all [OF assms(1), of fh ps pw] assms(2,3) c have e: "e = None" "e' = None"
    and d: "sink_data (zw_w z') = fst (zc_encrypt (NewZipCrypto pw) (r @ [lo, hi] @ concat ps))"
    by auto
  have "NewVerifiedZipCryptoDecryptReader \<lparr>cr_chunks = chunks, cr_end = ErrEOF, cr_eager = eager\<rparr>
      pw (Some fh) = ?zd"
    using c by (simp add: NewVerifiedZipCryptoDecryptReader_def zcw_checkBytes_def)
  moreover have "zcr.zd_inv ?zd" by (simp add: zcr.zd_inv_def newZipCryptoDecryptReader_def)
  moreover have "zd_view (creader_stream (zd_r ?zd)) (cr_end (zd_r ?zd)) ?zd = (concat ps, ErrEOF)"
    using zd_view_written [OF assms(1), of True hi hi pw lo "concat ps"] assms(4) d
    by (simp add: newZipCryptoDecryptReader_def creader_stream_def)
  ultimately show ?thesis using e zd_drain [OF _ assms(5), of ?zd "concat ps" ErrEOF] by simp
qed

lemma zipcrypto_stream_roundtrip_witness:
  "\<exists>n s zd. io_Copy sink_write (zipCryptoDecryptReader_Read creader_Read) 5 0 empty_sink
     (NewVerifiedZipCryptoDecryptReader
        \<lparr>cr_chunks = [sink_data (zw_w (snd (zipCryptoWriter_Close (Some zeroFileHeader) sink_write
            (snd (write_seq (zipCryptoWriter_Write (Some zeroFileHeader) sink_write) [[1, 2], [3]]
               (ZipCryptoEncryptor empty_sink [112, 119] (Inr [0,1,2,3,4,5,6,7,8,9])))))))],
         cr_end = ErrEOF, cr_eager = False\<rparr> [112, 119] (Some zeroFileHeader))
       = Some (n, None, s, zd) \<and> sink_data s = [1, 2, 3]"
  using zipcrypto_stream_roundtrip [of "[0,1,2,3,4,5,6,7,8,9]" zeroFileHeader "[[1, 2], [3]]"
      "[112, 119]" _ _ _ _ _ 5 False, OF _ prod.collapse [symmetric] prod.collapse [symmetric]]
  by simp

text \<open>
  C21. A wrong password never produces plaintext. If the last byte of the decrypted 12-byte header
  is not the check byte of the header, the verifying reader delivers nothing and reports
  \<open>ErrPassword\<close>.
\<close>

theorem zipcrypto_wrong_password:
  assumes "12 \<le> length (concat chunks)"
    and "fst (zc_decrypt (NewZipCrypto pw) (take 12 (concat chunks))) ! 11
      \<noteq> snd (zipCryptoCheckBytes (Flags fh) (ModifiedTime fh) (CRC32 fh))"
    and "0 < k"
  shows "\<exists>n s zd. io_Copy sink_write (zipCryptoDecryptReader_Read creader_Read) k 0 empty_sink
       (NewVerifiedZipCryptoDecryptReader
          \<lparr>cr_chunks = chunks, cr_end = ErrEOF, cr_eager = eager\<rparr> pw (Some fh))
         = Some (n, Some ErrPassword, s, zd)
     \<and> sink_data s = []"
proof -
  let ?zd = "NewVerifiedZipCryptoDecryptReader
          \<lparr>cr_chunks = chunks, cr_end = ErrEOF, cr_eager = eager\<rparr> pw (Some fh)"
  have "zcr.zd_inv ?zd"
    by (simp add: zcr.zd_inv_def NewVerifiedZipCryptoDecryptReader_def newZipCryptoDecryptReader_def
        split_beta)
  moreover have "zd_view (creader_stream (zd_r ?zd)) (cr_end (zd_r ?zd)) ?zd = ([], ErrPassword)"
    using assms by (simp add: zd_view_def NewVerifiedZipCryptoDecryptReader_def
        newZipCryptoDecryptReader_def split_beta zipCryptoHeaderLen_def creader_stream_def)
  ultimately show ?thesis using zd_drain [OF _ assms(3), of ?zd "[]" ErrPassword] by simp
qed

lemma zipcrypto_wrong_password_witness:
  "\<exists>n s zd. io_Copy sink_write (zipCryptoDecryptReader_Read creader_Read) 5 0 empty_sink
       (NewVerifiedZipCryptoDecryptReader
          \<lparr>cr_chunks = [fst (zc_encrypt (NewZipCrypto [112]) (replicate 11 0 @ [1]))], cr_end = ErrEOF,
           cr_eager = False\<rparr> [112] (Some zeroFileHeader))
         = Some (n, Some ErrPassword, s, zd)
     \<and> sink_data s = []"
proof (rule zipcrypto_wrong_password)
  let ?c = "fst (zc_encrypt (NewZipCrypto [112]) (replicate 11 0 @ [1]))"
  have "take 12 (concat [?c]) = ?c" by (simp add: take_all)
  then show "fst (zc_decrypt (NewZipCrypto [112]) (take 12 (concat [?c]))) ! 11
      \<noteq> snd (zipCryptoCheckBytes (Flags zeroFileHeader) (ModifiedTime zeroFileHeader)
          (CRC32 zeroFileHeader))"
    by (simp add: zc_roundtrip zipCryptoCheckBytes_def zeroFileHeader_def nth_append)
qed simp_all



end
