(* ===== verification/Zip_CTR.thy ===== *)
theory Zip_CTR
  imports Zip_Prelude
begin

text \<open>
  The counter-mode stream of crypto.go: AES in counter mode with the little-endian, left-aligned
  counter that starts at 1, as WinZip wants it, over a 512-byte buffer of key stream.

  The block cipher is Go's \<open>crypto/aes\<close> under a fixed key: a parameter \<open>E\<close> from 16-byte blocks to
  16-byte blocks. \<open>block.BlockSize()\<close> is 16, the block size of AES.
\<close>

definition aes_BlockSize :: nat where "aes_BlockSize = 16"
definition streamBufferSize :: nat where "streamBufferSize = 512"

text \<open>
  \<open>out\<close> is a slice: its array \<open>ctr_arr\<close>, as long as its capacity, and its length \<open>ctr_len\<close>.
\<close>

record ctr =
  ctr_ctr :: "byte list"
  ctr_arr :: "byte list"
  ctr_len :: nat
  ctr_outUsed :: nat

definition newWinZipCTR :: ctr where
  "newWinZipCTR =
     (let bufSize = (if streamBufferSize < aes_BlockSize then aes_BlockSize else streamBufferSize);
          iv = (replicate aes_BlockSize 0)[0 := 1]
      in \<lparr>ctr_ctr = iv, ctr_arr = replicate bufSize 0, ctr_len = 0, ctr_outUsed = 0\<rparr>)"

text \<open>The increment loop: it stops at the first byte that does not wrap to 0.\<close>

fun inc_ctr :: "byte list \<Rightarrow> byte list" where
  "inc_ctr [] = []"
| "inc_ctr (b # bs) = (let b' = b + 1 in if b' \<noteq> 0 then b' # bs else b' # inc_ctr bs)"

text \<open>The inner loop of \<open>refill\<close>: \<open>n\<close> is \<open>len(x.out)\<close>, which is the capacity there.\<close>

function refill_loop ::
  "(byte list \<Rightarrow> byte list) \<Rightarrow> nat \<Rightarrow> byte list \<Rightarrow> byte list \<Rightarrow> nat \<Rightarrow> byte list \<times> byte list \<times> nat" where
  "refill_loop E n c arr remain =
     (if int remain < int n - int aes_BlockSize then
        refill_loop E n (inc_ctr c)
          (take remain arr @ E c @ drop (remain + aes_BlockSize) arr) (remain + aes_BlockSize)
      else (c, arr, remain))"
  by pat_completeness auto
termination
  by (relation "measure (\<lambda>(E, n, c, arr, remain). n - remain)") (auto simp: aes_BlockSize_def)

declare refill_loop.simps [simp del]

definition refill :: "(byte list \<Rightarrow> byte list) \<Rightarrow> ctr \<Rightarrow> ctr" where
  "refill E x =
     (let remain = int (ctr_len x) - int (ctr_outUsed x) in
      if int (ctr_outUsed x) < remain then x
      else
        let pending = drop (ctr_outUsed x) (take (ctr_len x) (ctr_arr x));
            arr = pending @ drop (length pending) (ctr_arr x);
            (c, arr, remain) = refill_loop E (length arr) (ctr_ctr x) arr (nat remain)
        in x\<lparr>ctr_ctr := c, ctr_arr := arr, ctr_len := remain, ctr_outUsed := 0\<rparr>)"

text \<open>
  \<open>XORKeyStream\<close> (the result is what it writes to \<open>dst\<close>): the loop takes as many key bytes as the
  buffer holds. It would never return if the buffer stayed empty, hence the option.
\<close>

partial_function (option) XORKeyStream ::
  "(byte list \<Rightarrow> byte list) \<Rightarrow> ctr \<Rightarrow> byte list \<Rightarrow> (byte list \<times> ctr) option" where
  "XORKeyStream E x src =
     (if src = [] then Some ([], x)
      else
        let x = (if int (ctr_len x) - int aes_BlockSize \<le> int (ctr_outUsed x) then refill E x else x);
            key = drop (ctr_outUsed x) (take (ctr_len x) (ctr_arr x));
            n = min (length src) (length key)
        in do {
          (dst, x') \<leftarrow> XORKeyStream E (x\<lparr>ctr_outUsed := ctr_outUsed x + n\<rparr>) (drop n src);
          Some (map2 (XOR) (take n src) key @ dst, x') })"

section \<open>The ideal key stream\<close>

text \<open>Block \<open>j\<close> of the stream is the encryption of the counter after \<open>j\<close> increments.\<close>

definition counter_at :: "nat \<Rightarrow> byte list" where
  "counter_at j = (inc_ctr ^^ j) (ctr_ctr newWinZipCTR)"

definition key_byte :: "(byte list \<Rightarrow> byte list) \<Rightarrow> nat \<Rightarrow> byte" where
  "key_byte E k = E (counter_at (k div 16)) ! (k mod 16)"

definition keystream :: "(byte list \<Rightarrow> byte list) \<Rightarrow> nat \<Rightarrow> nat \<Rightarrow> byte list" where
  "keystream E pos n = map (key_byte E) [pos ..< pos + n]"

definition xor_stream :: "(byte list \<Rightarrow> byte list) \<Rightarrow> nat \<Rightarrow> byte list \<Rightarrow> byte list" where
  "xor_stream E pos src = map2 (XOR) src (keystream E pos (length src))"

lemma length_keystream [simp]: "length (keystream E pos n) = n"
  by (simp add: keystream_def)

lemma length_xor_stream [simp]: "length (xor_stream E pos src) = length src"
  by (simp add: xor_stream_def)

lemma keystream_add: "keystream E pos (m + n) = keystream E pos m @ keystream E (pos + m) n"
  using upt_add_eq_append [of pos "pos + m" n] by (simp add: keystream_def add.assoc)

lemma keystream_split: "n \<le> r \<Longrightarrow> keystream E pos r = keystream E pos n @ keystream E (pos + n) (r - n)"
  using keystream_add [of E pos n "r - n"] by simp

lemma xor_stream_append:
  "xor_stream E pos (a @ b) = xor_stream E pos a @ xor_stream E (pos + length a) b"
  by (simp add: xor_stream_def keystream_add zip_append)

lemma xor_stream_twice: "xor_stream E pos (xor_stream E pos src) = src"
  by (rule nth_equalityI) (simp_all add: xor_stream_def xor.assoc)

lemma length_inc_ctr [simp]: "length (inc_ctr c) = length c"
  by (induction c) (auto simp: Let_def)

lemma length_counter_at [simp]: "length (counter_at j) = 16"
  by (induction j) (auto simp: counter_at_def newWinZipCTR_def aes_BlockSize_def)

lemma counter_at_Suc: "inc_ctr (counter_at j) = counter_at (Suc j)"
  by (simp add: counter_at_def)

lemma keystream_block:
  assumes "length (E (counter_at j)) = 16"
  shows "keystream E (16 * j) 16 = E (counter_at j)"
  using assms by (intro nth_equalityI) (auto simp: keystream_def key_byte_def)

text \<open>The counter is a little-endian number: block \<open>j\<close> encrypts \<open>j + 1\<close>.\<close>

fun le_nat :: "byte list \<Rightarrow> nat" where
  "le_nat [] = 0"
| "le_nat (b # bs) = unat b + 256 * le_nat bs"

lemma le_nat_inc: "le_nat (inc_ctr bs) = (le_nat bs + 1) mod 256 ^ length bs"
proof (induction bs)
  case (Cons b bs)
  have b: "unat b < 256" using unsigned_less [of b, where 'a = nat] by simp
  have m: "(256 * x) mod (256 * 256 ^ length bs) = 256 * (x mod 256 ^ length bs)" for x :: nat
    by (rule mod_mult_mult1)
  have bound: "le_nat bs < 256 ^ length bs" for bs
  proof (induction bs)
    case (Cons b bs)
    have "unat b < 256" using unsigned_less [of b, where 'a = nat] by simp
    with Cons show ?case by simp
  qed simp
  show ?case
  proof (cases "b + 1 = 0")
    case True
    then have "b = -1" by (simp add: eq_neg_iff_add_eq_0)
    moreover have "unat (- 1 :: byte) = 255" by code_simp
    ultimately have "le_nat (b # bs) + 1 = 256 * (le_nat bs + 1)" by simp
    with True Cons m [of "Suc (le_nat bs)"] show ?thesis by simp
  next
    case False
    then have u: "unat (b + 1) = unat b + 1" by (simp add: unatSuc add.commute)
    have "unat (b + 1) < 256" using unsigned_less [of "b + 1", where 'a = nat] by simp
    then have "unat b + 1 + 256 * le_nat bs < 256 * 256 ^ length bs"
      using u bound [of bs] by simp
    then show ?thesis using False u by simp
  qed
qed simp

lemma le_nat_zeros [simp]: "le_nat (replicate n 0) = 0"
  by (induction n) auto

lemma counter_at_0: "counter_at 0 = 1 # replicate 15 0"
  by (simp add: counter_at_def newWinZipCTR_def aes_BlockSize_def numeral_eq_Suc)

lemma le_nat_counter_at: "le_nat (counter_at j) = (j + 1) mod 256 ^ 16"
proof (induction j)
  case 0
  show ?case by (simp add: counter_at_0)
next
  case (Suc j)
  then show ?case
    by (simp add: counter_at_Suc [symmetric] le_nat_inc mod_simps)
qed

section \<open>The buffered key stream is the ideal one\<close>

definition block_ok :: "(byte list \<Rightarrow> byte list) \<Rightarrow> bool" where
  "block_ok E \<longleftrightarrow> (\<forall>c. length c = 16 \<longrightarrow> length (E c) = 16)"

text \<open>
  The state after \<open>pos\<close> bytes of stream: the unused part of the buffer holds the next key bytes, up
  to a block boundary, and the counter is that of the block after it.
\<close>

definition ctr_inv :: "(byte list \<Rightarrow> byte list) \<Rightarrow> nat \<Rightarrow> ctr \<Rightarrow> bool" where
  "ctr_inv E pos x \<longleftrightarrow>
     length (ctr_arr x) = 512 \<and> ctr_outUsed x \<le> ctr_len x \<and> ctr_len x \<le> 511 \<and>
     (ctr_len x = 0 \<or> 496 \<le> ctr_len x) \<and>
     drop (ctr_outUsed x) (take (ctr_len x) (ctr_arr x)) =
       keystream E pos (ctr_len x - ctr_outUsed x) \<and>
     (\<exists>j. pos + (ctr_len x - ctr_outUsed x) = 16 * j \<and> ctr_ctr x = counter_at j)"

lemma ctr_inv_init: "ctr_inv E 0 newWinZipCTR"
  by (auto simp: ctr_inv_def newWinZipCTR_def keystream_def streamBufferSize_def aes_BlockSize_def
      counter_at_def intro!: exI [of _ 0])

lemma refill_loop_spec:
  assumes "block_ok E" "length arr = 512" "remain \<le> 511" "take remain arr = keystream E pos remain"
    "pos + remain = 16 * j"
    "refill_loop E 512 (counter_at j) arr remain = (c', arr', r')"
  shows "length arr' = 512 \<and> 496 \<le> r' \<and> r' \<le> 511 \<and> take r' arr' = keystream E pos r' \<and>
    (\<exists>j'. pos + r' = 16 * j' \<and> c' = counter_at j')"
  using assms
proof (induction "512 - remain" arbitrary: arr remain j rule: less_induct)
  case less
  show ?case
  proof (cases "remain < 496")
    case True
    have E16: "length (E (counter_at j)) = 16" using less.prems(1) by (simp add: block_ok_def)
    let ?arr = "take remain arr @ E (counter_at j) @ drop (remain + aes_BlockSize) arr"
    have "take (remain + 16) ?arr = keystream E pos remain @ E (counter_at j)"
      using less.prems True E16 by (simp add: aes_BlockSize_def)
    then have "take (remain + 16) ?arr = keystream E pos (remain + 16)"
      using keystream_block [of E j] E16 less.prems(5) by (simp add: keystream_add)
    moreover have "refill_loop E 512 (counter_at (Suc j)) ?arr (remain + 16) = (c', arr', r')"
      using less.prems(6) True
      by (subst (asm) refill_loop.simps) (simp add: aes_BlockSize_def counter_at_Suc)
    moreover have "512 - (remain + 16) < 512 - remain" "remain + 16 \<le> 511"
        "pos + (remain + 16) = 16 * Suc j" "length ?arr = 512"
      using less.prems(2,5) True E16 by (simp_all add: aes_BlockSize_def)
    ultimately show ?thesis
      using less.hyps [of "remain + 16" ?arr "Suc j"] less.prems(1) by blast
  next
    case False
    then show ?thesis
      using less.prems by (subst (asm) refill_loop.simps) (auto simp: aes_BlockSize_def)
  qed
qed

lemma refill_inv:
  assumes "block_ok E" "ctr_inv E pos x" "ctr_len x \<le> ctr_outUsed x + 16"
  shows "ctr_inv E pos (refill E x)" "ctr_outUsed (refill E x) = 0" "496 \<le> ctr_len (refill E x)"
proof -
  let ?r = "ctr_len x - ctr_outUsed x"
  let ?arr = "keystream E pos ?r @ drop ?r (ctr_arr x)"
  from assms(2) obtain j where i: "length (ctr_arr x) = 512" "ctr_outUsed x \<le> ctr_len x"
      "ctr_len x \<le> 511" "ctr_len x = 0 \<or> 496 \<le> ctr_len x"
      "drop (ctr_outUsed x) (take (ctr_len x) (ctr_arr x)) = keystream E pos ?r"
      "pos + ?r = 16 * j" "ctr_ctr x = counter_at j"
    by (auto simp: ctr_inv_def)
  obtain c' arr' r' where l: "refill_loop E 512 (counter_at j) ?arr ?r = (c', arr', r')"
    by (cases "refill_loop E 512 (counter_at j) ?arr ?r") auto
  have s: "length arr' = 512 \<and> 496 \<le> r' \<and> r' \<le> 511 \<and> take r' arr' = keystream E pos r' \<and>
    (\<exists>j'. pos + r' = 16 * j' \<and> c' = counter_at j')"
    by (rule refill_loop_spec [OF assms(1) _ _ _ i(6) l]) (use i in simp_all)
  have n: "\<not> int (ctr_outUsed x) < int (ctr_len x) - int (ctr_outUsed x)"
    using i assms(3) by linarith
  have rm: "nat (int (ctr_len x) - int (ctr_outUsed x)) = ?r" by simp
  have "?r + (512 - ?r) = 512" using i by simp
  then have "refill E x = x\<lparr>ctr_ctr := c', ctr_arr := arr', ctr_len := r', ctr_outUsed := 0\<rparr>"
    unfolding refill_def Let_def using n i l by (simp only: if_False rm i(5) i(7)) simp
  with s show "ctr_inv E pos (refill E x)" "ctr_outUsed (refill E x) = 0"
      "496 \<le> ctr_len (refill E x)"
    by (auto simp: ctr_inv_def)
qed

lemma ctr_inv_use:
  assumes "ctr_inv E pos x" "n \<le> ctr_len x - ctr_outUsed x"
  shows "ctr_inv E (pos + n) (x\<lparr>ctr_outUsed := ctr_outUsed x + n\<rparr>)"
proof -
  let ?r = "ctr_len x - ctr_outUsed x"
  have "drop n (drop (ctr_outUsed x) (take (ctr_len x) (ctr_arr x))) = drop n (keystream E pos ?r)"
    using assms(1) by (simp add: ctr_inv_def)
  also have "\<dots> = keystream E (pos + n) (?r - n)"
    by (simp add: keystream_split [OF assms(2)])
  finally have "drop (ctr_outUsed x + n) (take (ctr_len x) (ctr_arr x)) =
      keystream E (pos + n) (ctr_len x - (ctr_outUsed x + n))"
    by (simp add: add.commute)
  with assms show ?thesis by (auto simp: ctr_inv_def)
qed

text \<open>
  However the data is cut into calls, and across every refill of the buffer, the bytes are
  combined with the ideal key stream at their position.
\<close>

lemma XORKeyStream_spec:
  assumes "block_ok E" "ctr_inv E pos x"
  shows "\<exists>x'. XORKeyStream E x src = Some (xor_stream E pos src, x') \<and>
    ctr_inv E (pos + length src) x'"
  using assms(2)
proof (induction "length src" arbitrary: src pos x rule: less_induct)
  case less
  show ?case
  proof (cases "src = []")
    case True
    with less.prems show ?thesis
      by (subst XORKeyStream.simps) (simp add: xor_stream_def)
  next
    case False
    define y where "y = (if int (ctr_len x) - int aes_BlockSize \<le> int (ctr_outUsed x)
      then refill E x else x)"
    have y: "ctr_inv E pos y" "ctr_outUsed y < ctr_len y"
      using refill_inv [OF assms(1) less.prems] less.prems
      by (auto simp: y_def aes_BlockSize_def split: if_splits)
    define r where "r = ctr_len y - ctr_outUsed y"
    have key: "drop (ctr_outUsed y) (take (ctr_len y) (ctr_arr y)) = keystream E pos r"
      using y(1) by (simp add: ctr_inv_def r_def)
    have len: "min (length (ctr_arr y)) (ctr_len y) - ctr_outUsed y = r"
      using y(1) by (auto simp: ctr_inv_def r_def)
    define n where "n = min (length src) r"
    have n: "0 < n" "n \<le> length src" "n \<le> r" using False y(2) by (auto simp: n_def r_def)
    have "ctr_inv E (pos + n) (y\<lparr>ctr_outUsed := ctr_outUsed y + n\<rparr>)"
      by (rule ctr_inv_use) (use y n in \<open>auto simp: r_def\<close>)
    with less.hyps [of "drop n src" "pos + n"] n False obtain x' where x':
      "XORKeyStream E (y\<lparr>ctr_outUsed := ctr_outUsed y + n\<rparr>) (drop n src) =
         Some (xor_stream E (pos + n) (drop n src), x')"
      "ctr_inv E (pos + length src) x'"
      by auto
    have "map2 (XOR) (take n src) (keystream E pos r) = xor_stream E pos (take n src)"
      using n by (simp add: keystream_split [OF n(3)] xor_stream_def zip_append2)
    with xor_stream_append [of E pos "take n src" "drop n src"] n
    have "map2 (XOR) (take n src) (keystream E pos r) @ xor_stream E (pos + n) (drop n src) =
      xor_stream E pos src" by simp
    with x' False show ?thesis
      by (subst XORKeyStream.simps)
         (simp add: Let_def y_def [symmetric] key len n_def [symmetric])
  qed
qed

text \<open>Successive calls on one stream: the outputs in order.\<close>

fun xor_calls ::
  "(byte list \<Rightarrow> byte list) \<Rightarrow> ctr \<Rightarrow> byte list list \<Rightarrow> (byte list \<times> ctr) option" where
  "xor_calls E x [] = Some ([], x)"
| "xor_calls E x (s # ss) = do {
     (d, x) \<leftarrow> XORKeyStream E x s;
     (ds, x) \<leftarrow> xor_calls E x ss;
     Some (d @ ds, x) }"

lemma xor_calls_spec:
  "block_ok E \<Longrightarrow> ctr_inv E pos x \<Longrightarrow>
     \<exists>x'. xor_calls E x ss = Some (xor_stream E pos (concat ss), x')
       \<and> ctr_inv E (pos + length (concat ss)) x'"
proof (induction ss arbitrary: x pos)
  case (Cons s ss)
  from XORKeyStream_spec [OF Cons.prems, of s] obtain y where y:
    "XORKeyStream E x s = Some (xor_stream E pos s, y)" "ctr_inv E (pos + length s) y" by blast
  from Cons.IH [OF Cons.prems(1) y(2)] obtain x' where
    "xor_calls E y ss = Some (xor_stream E (pos + length s) (concat ss), x')"
    "ctr_inv E (pos + length s + length (concat ss)) x'" by blast
  with y show ?case by (simp add: xor_stream_append add.assoc)
qed (simp add: xor_stream_def)

text \<open>The 16-byte little-endian encoding of a number.\<close>

fun le_bytes :: "nat \<Rightarrow> nat \<Rightarrow> byte list" where
  "le_bytes 0 v = []"
| "le_bytes (Suc n) v = of_nat v # le_bytes n (v div 256)"

lemma le_bytes_le_nat: "le_bytes (length bs) (le_nat bs) = bs"
proof (induction bs)
  case (Cons b bs)
  have "unat b < 256" using unsigned_less [of b, where 'a = nat] by simp
  then have "(unat b + 256 * le_nat bs) div 256 = le_nat bs" by simp
  moreover have "(256 :: byte) = 0" by code_simp
  then have "256 * x = (0 :: byte)" for x by (simp only: mult_zero_left)
  ultimately show ?case using Cons by simp
qed simp

lemma le_bytes_mod: "le_bytes n (v mod 256 ^ n) = le_bytes n v"
proof (induction n arbitrary: v)
  case (Suc n)
  have "of_nat (v mod (256 * 256 ^ n)) = (of_nat v :: byte)"
    by (simp add: word_of_nat_eq_iff take_bit_eq_mod mod_mod_cancel)
  moreover have "v mod (256 * 256 ^ n) div 256 = v div 256 mod 256 ^ n"
    by (simp add: mod_mult2_eq)
  ultimately show ?case using Suc by simp
qed simp

lemma counter_at_bytes: "counter_at j = le_bytes 16 (j + 1)"
  using le_bytes_le_nat [of "counter_at j"] le_bytes_mod [of 16 "j + 1"]
  by (simp add: le_nat_counter_at)

text \<open>
  C19. WinZip's counter mode. Any sequence of \<open>XORKeyStream\<close> calls on a fresh stream returns, and
  combines byte \<open>k\<close> of the data with byte \<open>k mod 16\<close> of the encryption of the little-endian number
  \<open>k div 16 + 1\<close>: the 512-byte buffer, its refills and the way the data is cut do not show.
\<close>

theorem XORKeyStream_winzip:
  assumes "block_ok E"
  shows "\<exists>x. xor_calls E newWinZipCTR ss =
    Some (map2 (XOR) (concat ss)
            (map (\<lambda>k. E (le_bytes 16 (k div 16 + 1)) ! (k mod 16)) [0 ..< length (concat ss)]), x)"
proof -
  have "key_byte E = (\<lambda>k. E (le_bytes 16 (k div 16 + 1)) ! (k mod 16))"
    by (simp add: fun_eq_iff key_byte_def counter_at_bytes)
  with xor_calls_spec [OF assms ctr_inv_init, of ss] show ?thesis
    by (auto simp: xor_stream_def keystream_def)
qed

lemma XORKeyStream_winzip_witness:
  "\<exists>x. xor_calls (\<lambda>c. c) newWinZipCTR [[1, 2], [3]] = Some ([0, 2, 3], x)"
proof -
  have "block_ok (\<lambda>c. c)" by (simp add: block_ok_def)
  from XORKeyStream_winzip [OF this, of "[[1, 2], [3]]"] show ?thesis
    using counter_at_bytes [of 0, symmetric] by (simp add: counter_at_0 del: xor_calls.simps)
qed

end
