(* ===== verification/Zip_AES.thy ===== *)
theory Zip_AES
  imports Zip_CTR Zip_Section Zip_Struct
begin

text \<open>
  WinZip AES (crypto.go): key derivation, the authenticating readers, the encrypting writer, and the
  stream wrappers of \<open>crypto/cipher\<close> over the counter mode of \<open>Zip_CTR\<close>.

  The primitives are Go's \<open>crypto/aes\<close>, \<open>crypto/hmac\<close> with \<open>crypto/sha1\<close>, and
  \<open>golang.org/x/crypto/pbkdf2\<close>: the parameter \<open>S\<close>, of which only the output lengths are assumed
  (\<open>suite_ok\<close>), where anything is.
\<close>

record aes_suite =
  pbkdf2_Key :: "byte list \<Rightarrow> byte list \<Rightarrow> nat \<Rightarrow> nat \<Rightarrow> byte list"
  hmac_sha1 :: "byte list \<Rightarrow> byte list \<Rightarrow> byte list"
  aes_Encrypt :: "byte list \<Rightarrow> byte list \<Rightarrow> byte list"

definition suite_ok :: "aes_suite \<Rightarrow> bool" where
  "suite_ok S \<longleftrightarrow>
     (\<forall>pw salt iter n. length (pbkdf2_Key S pw salt iter n) = n) \<and>
     (\<forall>k d. length (hmac_sha1 S k d) = 20) \<and>
     (\<forall>k. block_ok (aes_Encrypt S k))"

section \<open>Keys\<close>

definition aesKeyLen :: "byte \<Rightarrow> nat" where
  "aesKeyLen strength =
     (if strength = 1 then 16 else if strength = 2 then 24 else if strength = 3 then 32 else 0)"

definition generateKeys ::
  "aes_suite \<Rightarrow> byte list \<Rightarrow> byte list \<Rightarrow> nat \<Rightarrow> byte list \<times> byte list \<times> byte list" where
  "generateKeys S passwd salt keySize =
     (let totalSize = keySize * 2 + 2;
          key = pbkdf2_Key S passwd salt 1000 totalSize
      in (take keySize key, take keySize (drop keySize key), drop (keySize * 2) key))"

text \<open>\<open>subtle.ConstantTimeCompare\<close> is 1 for equal slices, 0 otherwise.\<close>

definition ConstantTimeCompare :: "byte list \<Rightarrow> byte list \<Rightarrow> int" where
  "ConstantTimeCompare x y = (if x = y then 1 else 0)"

definition checkPasswordVerification :: "byte list \<Rightarrow> byte list \<Rightarrow> bool" where
  "checkPasswordVerification pwvv pwv \<longleftrightarrow> 0 < ConstantTimeCompare pwvv pwv"

text \<open>\<open>aes.NewCipher\<close>: the block cipher, or an error for a key of another length.\<close>

definition aes_NewCipher ::
  "aes_suite \<Rightarrow> byte list \<Rightarrow> (byte list \<Rightarrow> byte list) result" where
  "aes_NewCipher S key =
     (if length key \<in> {16, 24, 32} then Inr (aes_Encrypt S key) else Inl (ErrKeySize (length key)))"

section \<open>The authenticating readers\<close>

text \<open>
  \<open>ar_mac\<close> is what has been written to the \<open>hmac\<close>, whose key is the argument \<open>akey\<close> of the methods.
  \<open>ab\<close> is the \<open>bytes.Buffer\<close> the code is copied to; \<open>bytes.Buffer.ReadFrom\<close>, which \<open>io.Copy\<close> calls,
  reads into at least 512 bytes of room.
\<close>

record ('s, 't) authReader =
  ar_data :: 's
  ar_adata :: 't
  ar_mac :: "byte list"
  ar_err :: "zip_error option"
  ar_auth :: bool

definition MinRead :: nat where "MinRead = 512"

definition checkAuthentication ::
  "aes_suite \<Rightarrow> byte list \<Rightarrow> ('s, 't, 'z) authReader_scheme \<Rightarrow> byte list \<Rightarrow> bool \<times> ('s, 't, 'z) authReader_scheme"
where
  "checkAuthentication S akey a authcode =
     (let expectedAuthCode = take 10 (hmac_sha1 S akey (ar_mac a));
          ok = 0 < ConstantTimeCompare expectedAuthCode authcode
      in (ok, a\<lparr>ar_auth := ok\<rparr>))"

definition authReader_Read ::
  "aes_suite \<Rightarrow> byte list \<Rightarrow> 's read_fn \<Rightarrow> 't read_fn \<Rightarrow> ('s, 't) authReader read_fn" where
  "authReader_Read S akey rd rda a n = (case ar_err a of
     Some err \<Rightarrow> Some ([], Some err, a)
   | None \<Rightarrow> do {
       (d, err, s) \<leftarrow> rd (ar_data a) n;
       let a = a\<lparr>ar_data := s\<rparr>;
       (if err \<noteq> None \<and> err \<noteq> Some ErrEOF then Some (d, err, a\<lparr>ar_err := err\<rparr>)
        else do {
          let end = (err = Some ErrEOF);
          let a = (if end then a\<lparr>ar_err := err\<rparr> else a);
          let a = a\<lparr>ar_mac := ar_mac a @ d\<rparr>;
          (if end then do {
             (nn, err, ab, t) \<leftarrow> io_Copy sink_write rda MinRead 0 empty_sink (ar_adata a);
             let a = a\<lparr>ar_adata := t\<rparr>;
             (if err \<noteq> None \<or> length (sink_data ab) \<noteq> 10
              then Some (d, Some ErrDecryption, a\<lparr>ar_err := Some ErrDecryption\<rparr>)
              else let (ok, a) = checkAuthentication S akey a (sink_data ab) in
                if \<not> ok then Some (d, Some ErrAuthentication, a\<lparr>ar_err := Some ErrAuthentication\<rparr>)
                else Some (d, ar_err a, a))
           } else Some (d, ar_err a, a)) }) })"

record ('s, 't) bufferedAuthReader = "('s, 't) authReader" +
  ba_buf :: "byte list"

text \<open>\<open>bytes.Buffer.Read\<close>.\<close>

definition buffer_Read :: "byte list \<Rightarrow> nat \<Rightarrow> byte list \<times> zip_error option \<times> byte list" where
  "buffer_Read buf n =
     (if buf = [] then (if n = 0 then ([], None, []) else ([], Some ErrEOF, []))
      else (take n buf, None, drop n buf))"

definition bufferedAuthReader_authenticate ::
  "aes_suite \<Rightarrow> byte list \<Rightarrow> 's read_fn \<Rightarrow> 't read_fn \<Rightarrow> ('s, 't) bufferedAuthReader
     \<Rightarrow> (zip_error option \<times> ('s, 't) bufferedAuthReader) option" where
  "bufferedAuthReader_authenticate S akey rd rda a =
     (if ar_auth a then Some (None, a)
      else do {
        (n, err, buf, s) \<leftarrow> io_Copy sink_write rd MinRead 0
           \<lparr>sink_data = ba_buf a, sink_room = None\<rparr> (ar_data a);
        let a = a\<lparr>ba_buf := sink_data buf, ar_data := s\<rparr>;
        (if err \<noteq> None then Some (err, a\<lparr>ar_err := err\<rparr>)
         else do {
           (nn, err, ab, t) \<leftarrow> io_Copy sink_write rda MinRead 0 empty_sink (ar_adata a);
           let a = a\<lparr>ar_adata := t\<rparr>;
           (if err \<noteq> None then Some (err, a\<lparr>ar_err := err\<rparr>)
            else if nn \<noteq> 10 then Some (Some ErrDecryption, a\<lparr>ar_err := Some ErrDecryption\<rparr>)
            else let a = a\<lparr>ar_mac := ar_mac a @ ba_buf a\<rparr>;
                     (ok, a) = checkAuthentication S akey a (sink_data ab)
                 in if \<not> ok then Some (Some ErrAuthentication, a\<lparr>ar_err := Some ErrAuthentication\<rparr>)
                    else Some (None, a)) }) })"

definition bufferedAuthReader_Read ::
  "aes_suite \<Rightarrow> byte list \<Rightarrow> 's read_fn \<Rightarrow> 't read_fn \<Rightarrow> ('s, 't) bufferedAuthReader read_fn" where
  "bufferedAuthReader_Read S akey rd rda a n = (case ar_err a of
     Some err \<Rightarrow> Some ([], Some err, a)
   | None \<Rightarrow> do {
       (err, a) \<leftarrow> bufferedAuthReader_authenticate S akey rd rda a;
       (case err of
          Some err \<Rightarrow> Some ([], Some err, a)
        | None \<Rightarrow>
            (case buffer_Read (ba_buf a) n of (d, err, buf) \<Rightarrow>
               let a = a\<lparr>ba_buf := buf\<rparr>;
                   a = (if err \<noteq> None then a\<lparr>ar_err := err\<rparr> else a)
               in Some (d, ar_err a, a))) })"

text \<open>The result of \<open>newAuthReader\<close>: one of the two, behind \<open>io.Reader\<close>.\<close>

datatype ('s, 't) auth_reader =
    Streaming "('s, 't) authReader"
  | Buffered "('s, 't) bufferedAuthReader"

definition newAuthReader :: "'s \<Rightarrow> 't \<Rightarrow> bool \<Rightarrow> ('s, 't) auth_reader" where
  "newAuthReader data adata streaming =
     (if streaming then
        Streaming \<lparr>ar_data = data, ar_adata = adata, ar_mac = [], ar_err = None, ar_auth = False\<rparr>
      else Buffered \<lparr>ar_data = data, ar_adata = adata, ar_mac = [], ar_err = None, ar_auth = False,
        ba_buf = []\<rparr>)"

definition auth_reader_Read ::
  "aes_suite \<Rightarrow> byte list \<Rightarrow> 's read_fn \<Rightarrow> 't read_fn \<Rightarrow> ('s, 't) auth_reader read_fn" where
  "auth_reader_Read S akey rd rda a n = (case a of
     Streaming a \<Rightarrow> do { (d, e, a) \<leftarrow> authReader_Read S akey rd rda a n; Some (d, e, Streaming a) }
   | Buffered a \<Rightarrow> do { (d, e, a) \<leftarrow> bufferedAuthReader_Read S akey rd rda a n; Some (d, e, Buffered a) })"

section \<open>\<open>cipher.StreamReader\<close> and \<open>decryptStream\<close>\<close>

record 's stream_reader =
  sr_S :: ctr
  sr_R :: 's

definition stream_reader_Read ::
  "(byte list \<Rightarrow> byte list) \<Rightarrow> 's read_fn \<Rightarrow> 's stream_reader read_fn" where
  "stream_reader_Read E rd r n = do {
     (d, e, s) \<leftarrow> rd (sr_R r) n;
     (p, c) \<leftarrow> XORKeyStream E (sr_S r) d;
     Some (p, e, r\<lparr>sr_R := s, sr_S := c\<rparr>) }"

definition decryptStream ::
  "aes_suite \<Rightarrow> byte list \<Rightarrow> 's \<Rightarrow> ((byte list \<Rightarrow> byte list) \<times> 's stream_reader) option" where
  "decryptStream S key ciphertext = (case aes_NewCipher S key of
     Inl e \<Rightarrow> None
   | Inr block \<Rightarrow> Some (block, \<lparr>sr_S = newWinZipCTR, sr_R = ciphertext\<rparr>))"

text \<open>
  \<open>newDecryptionReader\<close>. The result is the reader with the keys its methods need (the block cipher of
  \<open>StreamReader.S\<close> and the key of the \<open>hmac\<close>).
\<close>

record aes_reader =
  dr_block :: "byte list \<Rightarrow> byte list"
  dr_akey :: "byte list"
  dr_sr :: "(section_reader, section_reader) auth_reader stream_reader"

definition newDecryptionReader ::
  "aes_suite \<Rightarrow> section_reader \<Rightarrow> FileHeader \<Rightarrow> aes_reader result option" where
  "newDecryptionReader S r f =
     (let keyLen = aesKeyLen (aesStrength f); saltLen = keyLen div 2 in
      if saltLen = 0 then Some (Inl ErrDecryption)
      else do {
        (saltpwvv, err, r) \<leftarrow> io_ReadFull section_Read (saltLen + 2) r;
        (case err of
           Some err \<Rightarrow> Some (Inl (if err = ErrEOF then ErrUnexpectedEOF else err))
         | None \<Rightarrow>
             let salt = take saltLen saltpwvv; pwvv = drop saltLen saltpwvv in
             (case password f of
                None \<Rightarrow> Some (Inl ErrPassword)
              | Some passwd \<Rightarrow>
                  let (decKey, authKey, pwv) = generateKeys S passwd salt keyLen in
                  if \<not> checkPasswordVerification pwv pwvv then Some (Inl ErrPassword)
                  else
                    let overhead = of_nat saltLen + 2 + 10 :: u64 in
                    if CompressedSize64 f < overhead \<or> 2 ^ 63 - 1 < CompressedSize64 f - overhead
                    then Some (Inl ErrFormat)
                    else
                      let dataOff = int (saltLen + 2);
                          dataLen = int64_of (CompressedSize64 f - overhead);
                          data = NewSectionReader (section_ReadAt r) dataOff dataLen;
                          authOff = add64 dataOff dataLen;
                          authcode = NewSectionReader (section_ReadAt r) authOff 10;
                          ar = newAuthReader data authcode (DeferAuth f)
                      in (case decryptStream S decKey ar of
                            None \<Rightarrow> Some (Inl ErrDecryption)
                          | Some (block, dr) \<Rightarrow>
                              Some (Inr \<lparr>dr_block = block, dr_akey = authKey, dr_sr = dr\<rparr>)))) })"

definition aes_reader_Read :: "aes_suite \<Rightarrow> aes_reader read_fn" where
  "aes_reader_Read S a n = do {
     (d, e, r) \<leftarrow> stream_reader_Read (dr_block a)
        (auth_reader_Read S (dr_akey a) section_Read section_Read) (dr_sr a) n;
     Some (d, e, a\<lparr>dr_sr := r\<rparr>) }"

section \<open>The encrypting writer\<close>

text \<open>
  The \<open>encryptionWriter\<close> with the two writers under it. \<open>ew_w\<close> is the one \<open>compCount\<close> writer both
  \<open>ew.w\<close> and the \<open>authWriter\<close> point to, \<open>ew_hmac\<close> what was written to \<open>fw.hmac\<close>, \<open>ew_S\<close> the key stream
  of the \<open>cipher.StreamWriter\<close>.
\<close>

record 'w encryptionWriter =
  ew_pwv :: "byte list"
  ew_salt :: "byte list"
  ew_w :: 'w
  ew_hmac :: "byte list"
  ew_S :: ctr
  ew_first :: bool
  ew_err :: "zip_error option"

definition authWriter_Write ::
  "'w write_fn \<Rightarrow> 'w encryptionWriter write_fn" where
  "authWriter_Write wr ew p =
     (let ew = ew\<lparr>ew_hmac := ew_hmac ew @ p\<rparr> in
      case wr (ew_w ew) p of (n, e, w) \<Rightarrow> (n, e, ew\<lparr>ew_w := w\<rparr>))"

text \<open>\<open>cipher.StreamWriter\<close> over the \<open>authWriter\<close>.\<close>

definition stream_writer_Write ::
  "(byte list \<Rightarrow> byte list) \<Rightarrow> 'w write_fn \<Rightarrow> 'w encryptionWriter write_fn" where
  "stream_writer_Write E wr ew src = (case XORKeyStream E (ew_S ew) src of
     None \<Rightarrow> (0, Some GoPanic, ew)
   | Some (c, x) \<Rightarrow>
       (case authWriter_Write wr (ew\<lparr>ew_S := x\<rparr>) c of (n, e, ew) \<Rightarrow>
          (n, if n \<noteq> length src \<and> e = None then Some ErrShortWrite else e, ew)))"

definition encryptionWriter_start ::
  "'w write_fn \<Rightarrow> 'w encryptionWriter \<Rightarrow> zip_error option \<times> 'w encryptionWriter" where
  "encryptionWriter_start wr ew =
     (case wr (ew_w ew) (ew_salt ew) of (n1, err1, w) \<Rightarrow>
      case wr w (ew_pwv ew) of (n2, err2, w) \<Rightarrow>
        let ew = ew\<lparr>ew_w := w\<rparr> in
        if err1 \<noteq> None \<or> err2 \<noteq> None then (Some ErrSaltWrite, ew\<lparr>ew_err := Some ErrSaltWrite\<rparr>)
        else (None, ew))"

definition encryptionWriter_Write ::
  "(byte list \<Rightarrow> byte list) \<Rightarrow> 'w write_fn \<Rightarrow> 'w encryptionWriter write_fn" where
  "encryptionWriter_Write E wr ew p = (case ew_err ew of
     Some e \<Rightarrow> (0, Some e, ew)
   | None \<Rightarrow>
       if ew_first ew then
         (case encryptionWriter_start wr ew of
            (Some e, ew) \<Rightarrow> (0, Some e, ew)
          | (None, ew) \<Rightarrow> stream_writer_Write E wr (ew\<lparr>ew_first := False\<rparr>) p)
       else stream_writer_Write E wr ew p)"

definition encryptionWriter_Close ::
  "'w write_fn \<Rightarrow> 'w encryptionWriter \<Rightarrow> zip_error option \<times> 'w encryptionWriter" where
  "encryptionWriter_Close wr ew =
     (if ew_first ew then encryptionWriter_start wr (ew\<lparr>ew_first := False\<rparr>) else (None, ew))"

text \<open>
  \<open>encryptStream\<close> and \<open>newEncryptionWriter\<close>; \<open>rnd\<close> is what the call of \<open>rand.Read\<close> fills the salt with,
  or its error. The result also carries the block cipher and the \<open>hmac\<close> key.
\<close>

definition encryptStream :: "aes_suite \<Rightarrow> byte list \<Rightarrow> ((byte list \<Rightarrow> byte list) \<times> ctr) result" where
  "encryptStream S key = bindR (aes_NewCipher S key) (\<lambda>block. Inr (block, newWinZipCTR))"

definition newEncryptionWriter ::
  "aes_suite \<Rightarrow> 'w \<Rightarrow> byte list \<Rightarrow> byte \<Rightarrow> (nat \<Rightarrow> byte list result)
     \<Rightarrow> ((byte list \<Rightarrow> byte list) \<times> byte list \<times> 'w encryptionWriter) result" where
  "newEncryptionWriter S w passwd aesstrength rnd =
     (let keysize = aesKeyLen aesstrength in
      case rnd (keysize div 2) of
        Inl e \<Rightarrow> Inl ErrSalt
      | Inr salt \<Rightarrow>
          let (ekey, akey, pwv) = generateKeys S passwd salt keysize in
          bindR (encryptStream S ekey) (\<lambda>(block, stream).
            Inr (block, akey, \<lparr>ew_pwv = pwv, ew_salt = salt, ew_w = w, ew_hmac = [], ew_S = stream,
              ew_first = True, ew_err = None\<rparr>)))"

section \<open>What the readers deliver\<close>

definition sr_inv :: "(byte list \<Rightarrow> byte list) \<Rightarrow> ('s \<Rightarrow> bool) \<Rightarrow> 's stream_reader \<Rightarrow> bool" where
  "sr_inv E I r \<longleftrightarrow> I (sr_R r) \<and> block_ok E \<and> (\<exists>pos. ctr_inv E pos (sr_S r))"

definition sr_bytes :: "(byte list \<Rightarrow> byte list) \<Rightarrow> ctr \<Rightarrow> byte list \<Rightarrow> byte list" where
  "sr_bytes E x bs = fst (the (XORKeyStream E x bs))"

lemma sr_bytes_at: "block_ok E \<Longrightarrow> ctr_inv E pos x \<Longrightarrow> sr_bytes E x bs = xor_stream E pos bs"
  using XORKeyStream_spec [of E pos x bs] by (auto simp: sr_bytes_def)

locale stream_source = io_reader rd inv stream fin rank
  for rd :: "'s read_fn" and inv stream fin rank
begin

lemma stream_reader_step:
  assumes "sr_inv E inv r" "0 < n" "stream_reader_Read E rd r n = Some (d, e, r')"
  obtains c s where "rd (sr_R r) n = Some (c, e, s)" "sr_R r' = s" "sr_inv E (\<lambda>_. True) r'"
    "length d = length c" "sr_bytes E (sr_S r) (c @ bs) = d @ sr_bytes E (sr_S r') bs"
proof -
  from assms(1) obtain pos where i: "inv (sr_R r)" "block_ok E" "ctr_inv E pos (sr_S r)"
    by (auto simp: sr_inv_def)
  from assms(3) obtain c s x where c: "rd (sr_R r) n = Some (c, e, s)"
    "XORKeyStream E (sr_S r) c = Some (d, x)" "r' = r\<lparr>sr_R := s, sr_S := x\<rparr>"
    by (auto simp: stream_reader_Read_def bind_eq_Some_conv split: prod.splits)
  from XORKeyStream_spec [OF i(2,3), of c] c(2) have x: "d = xor_stream E pos c"
    "ctr_inv E (pos + length c) x" by auto
  show ?thesis
    by (rule that [OF c(1)])
       (use c(3) x i sr_bytes_at [OF i(2) i(3)] sr_bytes_at [OF i(2) x(2)] in
         \<open>auto simp: sr_inv_def xor_stream_append\<close>)
qed

end

text \<open>A \<open>StreamReader\<close> over a source is a source.\<close>

sublocale stream_source \<subseteq> sr: io_reader "stream_reader_Read E rd" "sr_inv E inv"
  "\<lambda>r. sr_bytes E (sr_S r) (stream (sr_R r))" "\<lambda>r. fin (sr_R r)" "\<lambda>r. rank (sr_R r)" for E
proof (unfold_locales, goal_cases)
  case (1 r n)
  then obtain pos where i: "inv (sr_R r)" "block_ok E" "ctr_inv E pos (sr_S r)"
    by (auto simp: sr_inv_def)
  from read_returns [OF i(1) 1(2)] obtain d e s where "rd (sr_R r) n = Some (d, e, s)" by blast
  with XORKeyStream_spec [OF i(2,3), of d] show ?case
    by (auto simp: stream_reader_Read_def)
next
  case (2 r n d e r')
  from 2 obtain c s where c: "rd (sr_R r) n = Some (c, e, s)" "sr_R r' = s"
    "sr_inv E (\<lambda>_. True) r'" "length d = length c"
    "sr_bytes E (sr_S r) (c @ stream s) = d @ sr_bytes E (sr_S r') (stream s)"
    using stream_reader_step by blast
  moreover have "inv (sr_R r)" using 2(1) by (simp add: sr_inv_def)
  ultimately show ?case using read_law [OF _ 2(2) c(1)] by (auto simp: sr_inv_def)
next
  case (3 r n d err r')
  from 3 obtain c s where c: "rd (sr_R r) n = Some (c, Some err, s)" "sr_R r' = s"
    "sr_inv E (\<lambda>_. True) r'"
    using stream_reader_step by blast
  moreover have "inv (sr_R r)" using 3(1) by (simp add: sr_inv_def)
  moreover have "sr_bytes E x [] = []" for x
    by (simp add: sr_bytes_def XORKeyStream.simps)
  ultimately show ?case using read_end [OF _ 3(2) c(1)] by auto
next
  case (4 r n d r')
  from 4 obtain c s where c: "rd (sr_R r) n = Some (c, None, s)" "sr_R r' = s"
    using stream_reader_step by blast
  moreover have "inv (sr_R r)" using 4(1) by (simp add: sr_inv_def)
  ultimately show ?case using read_more [OF _ 4(2) c(1)] by auto
qed

text \<open>The verdict on the data \<open>m\<close> against the authentication code, as the two readers give it.\<close>

definition auth_verdict :: "aes_suite \<Rightarrow> byte list \<Rightarrow> byte list \<Rightarrow> byte list \<Rightarrow> zip_error" where
  "auth_verdict S akey m code =
     (if length code \<noteq> 10 then ErrDecryption
      else if take 10 (hmac_sha1 S akey m) = code then ErrEOF else ErrAuthentication)"

locale auth_pair =
  data: io_reader rd inv stream fin rank + adata: io_reader rda inva streama fina ranka
  for rd :: "'s read_fn" and inv stream fin rank
    and rda :: "'t read_fn" and inva streama fina ranka

sublocale auth_pair \<subseteq> dp: io_pipe rd inv stream fin rank sink_write sink_data sink_good
  by unfold_locales

sublocale auth_pair \<subseteq> ap: io_pipe rda inva streama fina ranka sink_write sink_data sink_good
  by unfold_locales

context auth_pair
begin

lemma copy_data:
  assumes "inv s"
  obtains n b s' where "io_Copy sink_write rd MinRead 0 \<lparr>sink_data = [], sink_room = None\<rparr> s =
      Some (n, if fin s = ErrEOF then None else Some (fin s), b, s')"
    "sink_data b = stream s" "inv s'" "fin s = ErrEOF \<Longrightarrow> n = length (stream s)"
  using dp.Copy_spec [OF assms, of MinRead 0 "\<lparr>sink_data = [], sink_room = None\<rparr>"]
  by (auto simp: MinRead_def sink_good_def split: if_splits)

lemma copy_adata:
  assumes "inva t"
  obtains n b t' where "io_Copy sink_write rda MinRead 0 empty_sink t =
      Some (n, if fina t = ErrEOF then None else Some (fina t), b, t')"
    "sink_data b = streama t" "inva t'" "fina t = ErrEOF \<Longrightarrow> n = length (streama t)"
  using ap.Copy_spec [OF assms, of MinRead 0 empty_sink]
  by (auto simp: MinRead_def sink_good_def empty_sink_def split: if_splits)

subsection \<open>\<open>authReader\<close>\<close>

definition ar_inv :: "('s, 't) authReader \<Rightarrow> bool" where
  "ar_inv a \<longleftrightarrow> (ar_err a = None \<longrightarrow> inv (ar_data a) \<and> inva (ar_adata a))"

definition ar_view :: "aes_suite \<Rightarrow> byte list \<Rightarrow> ('s, 't) authReader \<Rightarrow> byte list \<times> zip_error" where
  "ar_view S akey a = (case ar_err a of
     Some e \<Rightarrow> ([], e)
   | None \<Rightarrow> (stream (ar_data a),
       if fin (ar_data a) \<noteq> ErrEOF then fin (ar_data a)
       else if fina (ar_adata a) \<noteq> ErrEOF then ErrDecryption
       else auth_verdict S akey (ar_mac a @ stream (ar_data a)) (streama (ar_adata a))))"

definition ar_rank :: "('s, 't) authReader \<Rightarrow> nat" where
  "ar_rank a = (if ar_err a = None then Suc (rank (ar_data a)) else 0)"

lemma ar_step:
  assumes "ar_inv a" "ar_err a = None" "0 < n"
  obtains (more) d s where
      "authReader_Read S akey rd rda a n = Some (d, None, a\<lparr>ar_data := s, ar_mac := ar_mac a @ d\<rparr>)"
      "rd (ar_data a) n = Some (d, None, s)"
  | (last) d s a' where
      "authReader_Read S akey rd rda a n = Some (d, Some (snd (ar_view S akey a)), a')"
      "rd (ar_data a) n = Some (d, Some (fin (ar_data a)), s)"
      "ar_err a' = Some (snd (ar_view S akey a))"
proof -
  from assms have i: "inv (ar_data a)" "inva (ar_adata a)" by (auto simp: ar_inv_def)
  from data.read_returns [OF i(1) assms(3)] obtain d e s where
    r: "rd (ar_data a) n = Some (d, e, s)" by blast
  show ?thesis
  proof (cases e)
    case None
    with r assms(2) show ?thesis by (intro more) (simp_all add: authReader_Read_def)
  next
    case (Some err)
    with data.read_end [OF i(1) assms(3)] data.read_law [OF i(1) assms(3)] r
    have e: "err = fin (ar_data a)" and d: "d = stream (ar_data a)" by fastforce+
    obtain m b t where c: "io_Copy sink_write rda MinRead 0 empty_sink (ar_adata a) =
      Some (m, if fina (ar_adata a) = ErrEOF then None else Some (fina (ar_adata a)), b, t)"
      "sink_data b = streama (ar_adata a)"
      using copy_adata [OF i(2)] by metis
    have "\<exists>a'. authReader_Read S akey rd rda a n = Some (d, Some (snd (ar_view S akey a)), a')
        \<and> ar_err a' = Some (snd (ar_view S akey a))"
      using r Some e d c assms(2)
      by (simp add: authReader_Read_def ar_view_def auth_verdict_def checkAuthentication_def
          ConstantTimeCompare_def Let_def)
    then show ?thesis using last r Some e by blast
  qed
qed

lemma ar_law:
  assumes "ar_inv a" "0 < n" "authReader_Read S akey rd rda a n = Some (d, e, a')"
  shows "ar_inv a' \<and> length d \<le> n \<and> fst (ar_view S akey a) = d @ fst (ar_view S akey a')
      \<and> snd (ar_view S akey a') = snd (ar_view S akey a) \<and> ar_rank a' \<le> ar_rank a"
    and "e = Some err \<Longrightarrow> err = snd (ar_view S akey a) \<and> fst (ar_view S akey a') = []"
    and "e = None \<Longrightarrow> ar_rank a' < ar_rank a"
proof -
  have "ar_inv a' \<and> length d \<le> n \<and> fst (ar_view S akey a) = d @ fst (ar_view S akey a')
      \<and> snd (ar_view S akey a') = snd (ar_view S akey a) \<and> ar_rank a' \<le> ar_rank a
      \<and> (\<forall>err. e = Some err \<longrightarrow> err = snd (ar_view S akey a) \<and> fst (ar_view S akey a') = [])
      \<and> (e = None \<longrightarrow> ar_rank a' < ar_rank a)"
  proof (cases "ar_err a")
    case (Some err)
    with assms(3) have "d = []" "e = Some err" "a' = a" by (simp_all add: authReader_Read_def)
    with assms(1) Some show ?thesis by (simp add: ar_view_def)
  next
    case None
    with assms(1) have i: "inv (ar_data a)" "inva (ar_adata a)" by (auto simp: ar_inv_def)
    show ?thesis
    proof (rule ar_step [OF assms(1) None assms(2), of S akey])
      fix c s
      assume "authReader_Read S akey rd rda a n =
          Some (c, None, a\<lparr>ar_data := s, ar_mac := ar_mac a @ c\<rparr>)"
        and r: "rd (ar_data a) n = Some (c, None, s)"
      then have c: "c = d" "e = None" "a' = a\<lparr>ar_data := s, ar_mac := ar_mac a @ d\<rparr>"
        using assms(3) by auto
      from data.read_law [OF i(1) assms(2) r] data.read_more [OF i(1) assms(2) r] c i None
      show ?thesis by (auto simp: ar_inv_def ar_view_def ar_rank_def)
    next
      fix c s b
      assume "authReader_Read S akey rd rda a n = Some (c, Some (snd (ar_view S akey a)), b)"
        and r: "rd (ar_data a) n = Some (c, Some (fin (ar_data a)), s)"
        and b: "ar_err b = Some (snd (ar_view S akey a))"
      then have c: "c = d" "e = Some (snd (ar_view S akey a))" "a' = b"
        using assms(3) by auto
      from data.read_law [OF i(1) assms(2) r] data.read_end [OF i(1) assms(2) r] c b None
      show ?thesis by (auto simp: ar_inv_def ar_view_def ar_rank_def)
    qed
  qed
  then show "ar_inv a' \<and> length d \<le> n \<and> fst (ar_view S akey a) = d @ fst (ar_view S akey a')
      \<and> snd (ar_view S akey a') = snd (ar_view S akey a) \<and> ar_rank a' \<le> ar_rank a"
    and "e = Some err \<Longrightarrow> err = snd (ar_view S akey a) \<and> fst (ar_view S akey a') = []"
    and "e = None \<Longrightarrow> ar_rank a' < ar_rank a"
    by blast+
qed

lemma ar_returns:
  assumes "ar_inv a" "0 < n"
  shows "\<exists>d e a'. authReader_Read S akey rd rda a n = Some (d, e, a')"
proof (cases "ar_err a")
  case None
  show ?thesis by (rule ar_step [OF assms(1) None assms(2), of S akey]) auto
qed (simp add: authReader_Read_def)

subsection \<open>\<open>bufferedAuthReader\<close>\<close>

definition ba_inv :: "('s, 't) bufferedAuthReader \<Rightarrow> bool" where
  "ba_inv a \<longleftrightarrow> (ar_err a = None \<longrightarrow> \<not> ar_auth a \<longrightarrow>
     inv (ar_data a) \<and> inva (ar_adata a) \<and> ba_buf a = [])"

definition ba_view :: "aes_suite \<Rightarrow> byte list \<Rightarrow> ('s, 't) bufferedAuthReader \<Rightarrow> byte list \<times> zip_error"
where
  "ba_view S akey a = (case ar_err a of
     Some e \<Rightarrow> ([], e)
   | None \<Rightarrow>
       if ar_auth a then (ba_buf a, ErrEOF)
       else if fin (ar_data a) \<noteq> ErrEOF then ([], fin (ar_data a))
       else if fina (ar_adata a) \<noteq> ErrEOF then ([], fina (ar_adata a))
       else let v = auth_verdict S akey (ar_mac a @ stream (ar_data a)) (streama (ar_adata a))
         in (if v = ErrEOF then stream (ar_data a) else [], v))"

text \<open>Authentication changes nothing of what will be delivered.\<close>

lemma ba_auth:
  assumes "ba_inv a" "ar_err a = None"
  obtains (ok) a' where "bufferedAuthReader_authenticate S akey rd rda a = Some (None, a')"
      "ar_auth a'" "ar_err a' = None" "ba_view S akey a = (ba_buf a', ErrEOF)"
  | (failed) err a' where "bufferedAuthReader_authenticate S akey rd rda a = Some (Some err, a')"
      "ar_err a' = Some err" "ba_view S akey a = ([], err)"
proof (cases "ar_auth a")
  case True
  with assms show ?thesis
    by (intro ok [of a]) (simp_all add: bufferedAuthReader_authenticate_def ba_view_def)
next
  case False
  with assms have i: "inv (ar_data a)" "inva (ar_adata a)" "ba_buf a = []" by (auto simp: ba_inv_def)
  obtain m b s where c: "io_Copy sink_write rd MinRead 0 \<lparr>sink_data = [], sink_room = None\<rparr> (ar_data a)
      = Some (m, if fin (ar_data a) = ErrEOF then None else Some (fin (ar_data a)), b, s)"
    "sink_data b = stream (ar_data a)" by (rule copy_data [OF i(1)]) blast
  obtain m' b' t where c': "io_Copy sink_write rda MinRead 0 empty_sink (ar_adata a) =
      Some (m', if fina (ar_adata a) = ErrEOF then None else Some (fina (ar_adata a)), b', t)"
    "sink_data b' = streama (ar_adata a)"
    "fina (ar_adata a) = ErrEOF \<Longrightarrow> m' = length (streama (ar_adata a))"
    by (rule copy_adata [OF i(2)]) blast
  have "\<exists>err a'. bufferedAuthReader_authenticate S akey rd rda a = Some (err, a')
    \<and> (case err of
         Some err \<Rightarrow> ar_err a' = Some err \<and> ba_view S akey a = ([], err)
       | None \<Rightarrow> ar_auth a' \<and> ar_err a' = None \<and> ba_view S akey a = (ba_buf a', ErrEOF))"
    using False assms(2) i(3) c c'
    by (simp add: bufferedAuthReader_authenticate_def ba_view_def auth_verdict_def
        checkAuthentication_def ConstantTimeCompare_def Let_def)
  then show ?thesis using ok failed by (auto split: option.splits)
qed

lemma ba_step:
  assumes "ba_inv a" "0 < n"
  obtains (ok) a1 where "ba_view S akey a = (ba_buf a1, ErrEOF)" "ba_buf a1 \<noteq> []"
      "bufferedAuthReader_Read S akey rd rda a n =
         Some (take n (ba_buf a1), None, a1\<lparr>ba_buf := drop n (ba_buf a1)\<rparr>)"
      "ar_auth a1" "ar_err a1 = None"
  | (failed) err a1 where "ba_view S akey a = ([], err)"
      "bufferedAuthReader_Read S akey rd rda a n = Some ([], Some err, a1)"
      "ar_err a1 = Some err"
proof (cases "ar_err a")
  case (Some err)
  then show ?thesis
    by (intro failed [of err a]) (simp_all add: ba_view_def bufferedAuthReader_Read_def)
next
  case None
  from assms(1) None show ?thesis
  proof (rule ba_auth [of a S akey])
    fix a1
    assume a1: "bufferedAuthReader_authenticate S akey rd rda a = Some (None, a1)"
      "ar_auth a1" "ar_err a1 = None" "ba_view S akey a = (ba_buf a1, ErrEOF)"
    show ?thesis
    proof (cases "ba_buf a1 = []")
      case True
      with a1 None assms(2) show ?thesis
        by (intro failed [of ErrEOF "a1\<lparr>ar_err := Some ErrEOF\<rparr>"])
           (simp_all add: bufferedAuthReader_Read_def buffer_Read_def)
    next
      case False
      with a1 None show ?thesis
        by (intro ok [of a1]) (simp_all add: bufferedAuthReader_Read_def buffer_Read_def)
    qed
  next
    fix err a1
    assume "bufferedAuthReader_authenticate S akey rd rda a = Some (Some err, a1)"
      "ar_err a1 = Some err" "ba_view S akey a = ([], err)"
    with None show ?thesis
      by (intro failed [of err a1]) (simp_all add: bufferedAuthReader_Read_def)
  qed
qed

lemma ba_law:
  assumes "ba_inv a" "0 < n" "bufferedAuthReader_Read S akey rd rda a n = Some (d, e, a')"
  shows "ba_inv a' \<and> length d \<le> n \<and> fst (ba_view S akey a) = d @ fst (ba_view S akey a')
      \<and> snd (ba_view S akey a') = snd (ba_view S akey a)
      \<and> length (fst (ba_view S akey a')) \<le> length (fst (ba_view S akey a))"
    and "e = Some err \<Longrightarrow> err = snd (ba_view S akey a) \<and> fst (ba_view S akey a') = []"
    and "e = None \<Longrightarrow> length (fst (ba_view S akey a')) < length (fst (ba_view S akey a))"
proof -
  have "ba_inv a' \<and> length d \<le> n \<and> fst (ba_view S akey a) = d @ fst (ba_view S akey a')
      \<and> snd (ba_view S akey a') = snd (ba_view S akey a)
      \<and> (\<forall>err. e = Some err \<longrightarrow> err = snd (ba_view S akey a) \<and> fst (ba_view S akey a') = [])
      \<and> (e = None \<longrightarrow> d \<noteq> [])"
  proof (rule ba_step [OF assms(1,2), of S akey])
    fix a1
    assume v: "ba_view S akey a = (ba_buf a1, ErrEOF)" "ba_buf a1 \<noteq> []" "ar_auth a1" "ar_err a1 = None"
      and "bufferedAuthReader_Read S akey rd rda a n =
         Some (take n (ba_buf a1), None, a1\<lparr>ba_buf := drop n (ba_buf a1)\<rparr>)"
    then have "d = take n (ba_buf a1)" "e = None" "a' = a1\<lparr>ba_buf := drop n (ba_buf a1)\<rparr>"
      using assms(3) by simp_all
    with v assms(2) show ?thesis by (simp add: ba_inv_def ba_view_def)
  next
    fix err a1
    assume v: "ba_view S akey a = ([], err)" "ar_err a1 = Some err"
      and "bufferedAuthReader_Read S akey rd rda a n = Some ([], Some err, a1)"
    then have "d = []" "e = Some err" "a' = a1" using assms(3) by simp_all
    with v show ?thesis by (simp add: ba_inv_def ba_view_def)
  qed
  then show "ba_inv a' \<and> length d \<le> n \<and> fst (ba_view S akey a) = d @ fst (ba_view S akey a')
      \<and> snd (ba_view S akey a') = snd (ba_view S akey a)
      \<and> length (fst (ba_view S akey a')) \<le> length (fst (ba_view S akey a))"
    and "e = Some err \<Longrightarrow> err = snd (ba_view S akey a) \<and> fst (ba_view S akey a') = []"
    and "e = None \<Longrightarrow> length (fst (ba_view S akey a')) < length (fst (ba_view S akey a))"
    by auto
qed

lemma ba_returns:
  assumes "ba_inv a" "0 < n"
  shows "\<exists>d e a'. bufferedAuthReader_Read S akey rd rda a n = Some (d, e, a')"
  by (rule ba_step [OF assms, of S akey]) auto

subsection \<open>Either\<close>

definition auth_inv :: "('s, 't) auth_reader \<Rightarrow> bool" where
  "auth_inv a = (case a of Streaming a \<Rightarrow> ar_inv a | Buffered a \<Rightarrow> ba_inv a)"

definition auth_view :: "aes_suite \<Rightarrow> byte list \<Rightarrow> ('s, 't) auth_reader \<Rightarrow> byte list \<times> zip_error" where
  "auth_view S akey a =
     (case a of Streaming a \<Rightarrow> ar_view S akey a | Buffered a \<Rightarrow> ba_view S akey a)"

definition auth_rank :: "aes_suite \<Rightarrow> byte list \<Rightarrow> ('s, 't) auth_reader \<Rightarrow> nat" where
  "auth_rank S akey a =
     (case a of Streaming a \<Rightarrow> ar_rank a | Buffered a \<Rightarrow> length (fst (ba_view S akey a)))"

lemma auth_read_cases:
  assumes "auth_reader_Read S akey rd rda a n = Some (d, e, a')"
  obtains b b' where "a = Streaming b" "a' = Streaming b'"
      "authReader_Read S akey rd rda b n = Some (d, e, b')"
  | b b' where "a = Buffered b" "a' = Buffered b'"
      "bufferedAuthReader_Read S akey rd rda b n = Some (d, e, b')"
  using assms
  by (auto simp: auth_reader_Read_def bind_eq_Some_conv split: auth_reader.splits)

lemmas auth_defs = auth_inv_def auth_view_def auth_rank_def

end

text \<open>An authenticating reader over two sources is a source.\<close>

sublocale auth_pair \<subseteq> auth: io_reader "auth_reader_Read S akey rd rda" auth_inv
  "\<lambda>a. fst (auth_view S akey a)" "\<lambda>a. snd (auth_view S akey a)" "auth_rank S akey" for S akey
proof (unfold_locales, goal_cases)
  case (1 a n)
  show ?case
  proof (cases a)
    case (Streaming b)
    with 1 ar_returns [of b n S akey] show ?thesis
      by (auto simp: auth_reader_Read_def auth_inv_def)
  next
    case (Buffered b)
    with 1 ba_returns [of b n S akey] show ?thesis
      by (auto simp: auth_reader_Read_def auth_inv_def)
  qed
next
  case (2 a n d e a')
  from 2(3) show ?case
  proof (cases rule: auth_read_cases)
    case (1 b b')
    with 2 ar_law(1) [of b n S akey d e b'] show ?thesis by (simp add: auth_defs)
  next
    case b: (2 b b')
    with 2 ba_law(1) [of b n S akey d e b'] show ?thesis by (simp add: auth_defs)
  qed
next
  case (3 a n d err a')
  from 3(3) show ?case
  proof (cases rule: auth_read_cases)
    case (1 b b')
    with 3 ar_law(2) [of b n S akey d "Some err" b' err] show ?thesis by (simp add: auth_defs)
  next
    case b: (2 b b')
    with 3 ba_law(2) [of b n S akey d "Some err" b' err] show ?thesis by (simp add: auth_defs)
  qed
next
  case (4 a n d a')
  from 4(3) show ?case
  proof (cases rule: auth_read_cases)
    case (1 b b')
    with 4 ar_law(3) [of b n S akey d None b'] show ?thesis by (simp add: auth_defs)
  next
    case b: (2 b b')
    with 4 ba_law(3) [of b n S akey d None b'] show ?thesis by (simp add: auth_defs)
  qed
qed

section \<open>What the writer writes\<close>

text \<open>
  The writer has taken \<open>acc\<close>: after the salt and the password verification value come the encrypted
  bytes, which are also what the \<open>hmac\<close> has seen.
\<close>

definition ew_rel ::
  "('w \<Rightarrow> byte list) \<Rightarrow> byte list \<Rightarrow> byte list \<Rightarrow> byte list \<Rightarrow> (byte list \<Rightarrow> byte list)
     \<Rightarrow> 'w encryptionWriter \<Rightarrow> byte list \<Rightarrow> bool" where
  "ew_rel out base salt pwv E ew acc \<longleftrightarrow>
     block_ok E \<and> ew_salt ew = salt \<and> ew_pwv ew = pwv \<and> ew_err ew = None \<and>
     ew_hmac ew = xor_stream E 0 acc \<and> ctr_inv E (length acc) (ew_S ew) \<and>
     (if ew_first ew then acc = [] \<and> out (ew_w ew) = base
      else out (ew_w ew) = base @ salt @ pwv @ xor_stream E 0 acc)"

context io_writer
begin

lemma ew_start_ok:
  assumes "ew_rel out base salt pwv E ew acc" "ew_first ew"
    and "encryptionWriter_start wr (ew\<lparr>ew_first := f\<rparr>) = (None, ew')"
  shows "ew_rel out base salt pwv E (ew'\<lparr>ew_first := False\<rparr>) acc \<and> ew_first ew' = f"
proof -
  from assms(3) obtain n1 w1 n2 w2 where w: "wr (ew_w ew) (ew_salt ew) = (n1, None, w1)"
    "wr w1 (ew_pwv ew) = (n2, None, w2)" "ew' = ew\<lparr>ew_first := f, ew_w := w2\<rparr>"
    by (auto simp: encryptionWriter_start_def Let_def split: prod.splits if_splits)
  from write_ok [OF w(1)] write_ok [OF w(2)] assms(1,2) w(3) show ?thesis
    by (auto simp: ew_rel_def xor_stream_def)
qed

lemma ew_start_good:
  assumes "good (ew_w ew)"
  shows "\<exists>ew'. encryptionWriter_start wr ew = (None, ew') \<and> good (ew_w ew')
    \<and> ew' = ew\<lparr>ew_w := ew_w ew'\<rparr>"
proof -
  from write_good [OF assms, of "ew_salt ew"] obtain n w where
    w: "wr (ew_w ew) (ew_salt ew) = (n, None, w)" "good w" by blast
  from write_good [OF w(2), of "ew_pwv ew"] w(1) show ?thesis
    by (auto simp: encryptionWriter_start_def)
qed

lemma stream_writer_ok:
  assumes "ew_rel out base salt pwv E ew acc" "\<not> ew_first ew"
    and "stream_writer_Write E wr ew p = (n, None, ew')"
  shows "n = length p \<and> ew_rel out base salt pwv E ew' (acc @ p)"
proof -
  from assms(1) have i: "block_ok E" "ctr_inv E (length acc) (ew_S ew)" by (auto simp: ew_rel_def)
  from XORKeyStream_spec [OF i, of p] obtain x where
    x: "XORKeyStream E (ew_S ew) p = Some (xor_stream E (length acc) p, x)"
    "ctr_inv E (length acc + length p) x" by blast
  with assms(3) obtain w where w: "wr (ew_w ew) (xor_stream E (length acc) p) = (n, None, w)"
    "ew' = ew\<lparr>ew_S := x, ew_hmac := ew_hmac ew @ xor_stream E (length acc) p, ew_w := w\<rparr>"
    by (auto simp: stream_writer_Write_def authWriter_Write_def Let_def split: prod.splits if_splits)
  from write_ok [OF w(1)] assms(1,2) x(2) w(2) show ?thesis
    by (simp add: ew_rel_def xor_stream_append)
qed

lemma stream_writer_good:
  assumes "ew_rel out base salt pwv E ew acc" "good (ew_w ew)"
  shows "\<exists>n ew'. stream_writer_Write E wr ew p = (n, None, ew') \<and> good (ew_w ew')"
proof -
  from assms(1) have i: "block_ok E" "ctr_inv E (length acc) (ew_S ew)" by (auto simp: ew_rel_def)
  from XORKeyStream_spec [OF i, of p] obtain x where
    x: "XORKeyStream E (ew_S ew) p = Some (xor_stream E (length acc) p, x)" by blast
  from write_good [OF assms(2), of "xor_stream E (length acc) p"] obtain n w where
    w: "wr (ew_w ew) (xor_stream E (length acc) p) = (n, None, w)" "good w" by blast
  with x write_ok [OF w(1)] show ?thesis
    by (simp add: stream_writer_Write_def authWriter_Write_def)
qed

lemma ew_Close_ok:
  assumes "ew_rel out base salt pwv E ew acc" "encryptionWriter_Close wr ew = (None, ew')"
  shows "ew_rel out base salt pwv E ew' acc \<and> \<not> ew_first ew'"
proof (cases "ew_first ew")
  case True
  with ew_start_ok [OF assms(1) True, of False ew'] assms(2) show ?thesis
    by (cases ew') (simp add: encryptionWriter_Close_def)
qed (use assms in \<open>auto simp: encryptionWriter_Close_def\<close>)

lemma ew_Close_good:
  assumes "good (ew_w ew)"
  shows "\<exists>ew'. encryptionWriter_Close wr ew = (None, ew') \<and> good (ew_w ew')"
  using assms ew_start_good [of "ew\<lparr>ew_first := False\<rparr>"]
  by (auto simp: encryptionWriter_Close_def)

end

text \<open>The encrypting writer over any writer accepts what it is given.\<close>

sublocale io_writer \<subseteq> ew: accepting "encryptionWriter_Write E wr"
  "ew_rel out base salt pwv E" "\<lambda>ew. good (ew_w ew)" for E base salt pwv
proof
  fix ew :: "'w encryptionWriter" and acc p n ew'
  assume rel: "ew_rel out base salt pwv E ew acc"
    and w: "encryptionWriter_Write E wr ew p = (n, None, ew')"
  then have err: "ew_err ew = None" by (simp add: ew_rel_def)
  show "n = length p \<and> ew_rel out base salt pwv E ew' (acc @ p)"
  proof (cases "ew_first ew")
    case True
    with w err obtain ew1 where s: "encryptionWriter_start wr ew = (None, ew1)"
      and p: "stream_writer_Write E wr (ew1\<lparr>ew_first := False\<rparr>) p = (n, None, ew')"
      by (auto simp: encryptionWriter_Write_def split: prod.splits option.splits)
    have "ew\<lparr>ew_first := True\<rparr> = ew" using True by simp
    then have "ew_rel out base salt pwv E (ew1\<lparr>ew_first := False\<rparr>) acc"
      using ew_start_ok [OF rel True, of True ew1] s by simp
    from stream_writer_ok [OF this _ p] show ?thesis by simp
  next
    case False
    with w err have "stream_writer_Write E wr ew p = (n, None, ew')"
      by (simp add: encryptionWriter_Write_def)
    with stream_writer_ok [OF rel False] show ?thesis by blast
  qed
next
  fix ew :: "'w encryptionWriter" and acc p
  assume rel: "ew_rel out base salt pwv E ew acc" and good: "good (ew_w ew)"
  then have err: "ew_err ew = None" by (simp add: ew_rel_def)
  show "\<exists>n ew'. encryptionWriter_Write E wr ew p = (n, None, ew') \<and> good (ew_w ew')"
  proof (cases "ew_first ew")
    case True
    from ew_start_good [OF good] obtain ew1 where
      s: "encryptionWriter_start wr ew = (None, ew1)" "good (ew_w ew1)" by blast
    have "ew\<lparr>ew_first := True\<rparr> = ew" using True by simp
    then have "ew_rel out base salt pwv E (ew1\<lparr>ew_first := False\<rparr>) acc"
      using ew_start_ok [OF rel True, of True ew1] s by simp
    from stream_writer_good [OF this, of p] s True err show ?thesis
      by (simp add: encryptionWriter_Write_def)
  next
    case False
    with stream_writer_good [OF rel good, of p] err show ?thesis
      by (simp add: encryptionWriter_Write_def)
  qed
qed

section \<open>Reading from an archive\<close>

sublocale random_access \<subseteq> sec_auth: auth_pair
  section_Read "\<lambda>s. sec_r s = ra \<and> 0 \<le> sec_off s" "section_bytes D" "\<lambda>_. ErrEOF"
    "\<lambda>s. nat (sec_limit s - sec_off s)"
  section_Read "\<lambda>s. sec_r s = ra \<and> 0 \<le> sec_off s" "section_bytes D" "\<lambda>_. ErrEOF"
    "\<lambda>s. nat (sec_limit s - sec_off s)"
  by unfold_locales

sublocale auth_pair \<subseteq> asr: stream_source "auth_reader_Read S akey rd rda" auth_inv
  "\<lambda>a. fst (auth_view S akey a)" "\<lambda>a. snd (auth_view S akey a)" "auth_rank S akey" for S akey
  by unfold_locales

context random_access
begin

definition aes_inv :: "aes_reader \<Rightarrow> bool" where
  "aes_inv a \<longleftrightarrow> sr_inv (dr_block a) sec_auth.auth_inv (dr_sr a)"

definition aes_view :: "aes_suite \<Rightarrow> aes_reader \<Rightarrow> byte list \<times> zip_error" where
  "aes_view S a = (case sec_auth.auth_view S (dr_akey a) (sr_R (dr_sr a)) of
     (bs, e) \<Rightarrow> (sr_bytes (dr_block a) (sr_S (dr_sr a)) bs, e))"

lemma aes_read_cases:
  assumes "aes_reader_Read S a n = Some (d, e, a')"
  obtains r where "stream_reader_Read (dr_block a)
      (auth_reader_Read S (dr_akey a) section_Read section_Read) (dr_sr a) n = Some (d, e, r)"
    "a' = a\<lparr>dr_sr := r\<rparr>"
  using assms by (auto simp: aes_reader_Read_def bind_eq_Some_conv)

end

sublocale random_access \<subseteq> aes: io_reader "aes_reader_Read S" aes_inv
  "\<lambda>a. fst (aes_view S a)" "\<lambda>a. snd (aes_view S a)"
  "\<lambda>a. sec_auth.auth_rank S (dr_akey a) (sr_R (dr_sr a))" for S
proof (unfold_locales, goal_cases)
  case (1 a n)
  then show ?case
    using sec_auth.asr.sr.read_returns [of "dr_block a" "dr_sr a" n S "dr_akey a"]
    by (auto simp: aes_reader_Read_def aes_inv_def)
next
  case (2 a n d e a')
  from 2(3) obtain r where r: "stream_reader_Read (dr_block a)
      (auth_reader_Read S (dr_akey a) section_Read section_Read) (dr_sr a) n = Some (d, e, r)"
    "a' = a\<lparr>dr_sr := r\<rparr>" by (rule aes_read_cases)
  show ?case
    using sec_auth.asr.sr.read_law [OF _ 2(2) r(1)] 2(1) r(2)
    by (simp add: aes_inv_def aes_view_def split_beta)
next
  case (3 a n d err a')
  from 3(3) obtain r where r: "stream_reader_Read (dr_block a)
      (auth_reader_Read S (dr_akey a) section_Read section_Read) (dr_sr a) n = Some (d, Some err, r)"
    "a' = a\<lparr>dr_sr := r\<rparr>" by (rule aes_read_cases)
  show ?case
    using sec_auth.asr.sr.read_end [OF _ 3(2) r(1)] 3(1) r(2)
    by (simp add: aes_inv_def aes_view_def split_beta)
next
  case (4 a n d a')
  from 4(3) obtain r where r: "stream_reader_Read (dr_block a)
      (auth_reader_Read S (dr_akey a) section_Read section_Read) (dr_sr a) n = Some (d, None, r)"
    "a' = a\<lparr>dr_sr := r\<rparr>" by (rule aes_read_cases)
  show ?case
    using sec_auth.asr.sr.read_more [OF _ 4(2) r(1)] 4(1) r(2)
    by (simp add: aes_inv_def)
qed

sublocale random_access \<subseteq> aesp: io_pipe "aes_reader_Read S" aes_inv
  "\<lambda>a. fst (aes_view S a)" "\<lambda>a. snd (aes_view S a)"
  "\<lambda>a. sec_auth.auth_rank S (dr_akey a) (sr_R (dr_sr a))" sink_write sink_data sink_good for S
  by unfold_locales

section \<open>Opening an encrypted entry\<close>

context random_access
begin

text \<open>A fresh reader over the ciphertext \<open>ct\<close> and the authentication code \<open>code\<close>.\<close>

lemma aes_fresh_view:
  assumes "suite_ok S" "sec_r data = ra" "0 \<le> sec_off data" "sec_r adata = ra" "0 \<le> sec_off adata"
    and "section_bytes D data = ct" "section_bytes D adata = code"
    and "a = \<lparr>dr_block = aes_Encrypt S ekey, dr_akey = akey,
      dr_sr = \<lparr>sr_S = newWinZipCTR, sr_R = newAuthReader data adata defer\<rparr>\<rparr>"
  defines "v \<equiv> auth_verdict S akey ct code"
  shows "aes_inv a"
    and "aes_view S a = (if defer \<or> v = ErrEOF then xor_stream (aes_Encrypt S ekey) 0 ct else [], v)"
proof -
  have b: "block_ok (aes_Encrypt S ekey)" using assms(1) by (simp add: suite_ok_def)
  show "aes_inv a"
    using assms(2-5) b ctr_inv_init [of "aes_Encrypt S ekey"]
    by (auto simp: assms(8) aes_inv_def sr_inv_def newAuthReader_def sec_auth.auth_inv_def
        sec_auth.ar_inv_def sec_auth.ba_inv_def)
  show "aes_view S a = (if defer \<or> v = ErrEOF then xor_stream (aes_Encrypt S ekey) 0 ct else [], v)"
    using assms(6,7) sr_bytes_at [OF b ctr_inv_init]
    by (simp add: assms(8) aes_view_def newAuthReader_def sec_auth.auth_view_def
        sec_auth.ar_view_def sec_auth.ba_view_def v_def xor_stream_def split: prod.splits)
qed

lemma aes_drain:
  assumes "aes_inv a" "0 < k"
  shows "\<exists>n s a'. io_Copy sink_write (aes_reader_Read S) k 0 empty_sink a =
      Some (n, if snd (aes_view S a) = ErrEOF then None else Some (snd (aes_view S a)), s, a')
    \<and> sink_data s = fst (aes_view S a)"
  using aesp.Copy_spec [OF assms, of S 0 empty_sink] by (auto simp: empty_sink_def sink_good_def)

end

text \<open>
  The entry of the archive \<open>A\<close> at \<open>pre\<close>: salt, password verification value, ciphertext and
  authentication code.
\<close>

definition aes_payload :: "byte list \<Rightarrow> byte list \<Rightarrow> byte list \<Rightarrow> byte list \<Rightarrow> byte list" where
  "aes_payload salt pwv ct code = salt @ pwv @ ct @ code"

lemma newDecryptionReader_view:
  fixes f :: FileHeader
  assumes S: "suite_ok S" and kl: "aesKeyLen (aesStrength f) = kl" "kl \<noteq> 0"
    and len: "length salt = kl div 2" "length pwvv = 2" "length code = 10"
    and A: "A = pre @ aes_payload salt pwvv ct code @ post" "length A < 2 ^ 63"
    and sz: "CompressedSize64 f = of_nat (length (aes_payload salt pwvv ct code))"
    and r: "r = NewSectionReader (file_at A) (int (length pre)) (int64_of (CompressedSize64 f))"
    and pw: "password f = Some pw" and keys: "generateKeys S pw salt kl = (ek, ak, pwv)"
  shows "if pwv = pwvv then \<exists>a. newDecryptionReader S r f = Some (Inr a)
        \<and> random_access (section_ReadAt r) (aes_payload salt pwvv ct code)
        \<and> random_access.aes_inv (section_ReadAt r) a
        \<and> random_access.aes_view (aes_payload salt pwvv ct code) S a =
            (if DeferAuth f \<or> auth_verdict S ak ct code = ErrEOF
             then xor_stream (aes_Encrypt S ek) 0 ct else [], auth_verdict S ak ct code)
     else newDecryptionReader S r f = Some (Inl ErrPassword)"
proof -
  let ?P = "aes_payload salt pwvv ct code" and ?s = "kl div 2"
  have klen: "kl \<in> {16, 24, 32}" using kl by (auto simp: aesKeyLen_def split: if_splits)
  then have k0: "kl div 2 \<noteq> 0" by auto
  have P: "length ?P = ?s + length ct + 12" using len by (simp add: aes_payload_def)
  have M: "length pre + length ?P < 2 ^ 63" using A by simp
  then have m: "int (length pre) + int (length ?P) \<le> maxint64"
    by (simp add: maxint64_def)
  have usz: "unat (CompressedSize64 f) = length ?P"
    using sz M by (simp add: unat_of_nat take_bit_nat_eq_self)
  then have isz: "int64_of (CompressedSize64 f) = int (length ?P)"
    using int64_of_small [of "CompressedSize64 f"] M by simp
  have D: "section_bytes A r = ?P" and Rr: "sec_r r = file_at A" "0 \<le> sec_off r"
    using section_bytes_fresh [of "int (length pre)" "int (length ?P)", OF _ _ m] r isz A
    by simp_all
  let ?ra = "section_ReadAt r"
  have ra: "random_access ?ra ?P"
  proof -
    have "0 \<le> sec_base r" "take (nat (sec_limit r - sec_base r)) (drop (nat (sec_base r)) A) = ?P"
      using section_bytes_fresh [of "int (length pre)" "int (length ?P)", OF _ _ m] r isz A
      by simp_all
    with section_random_access [OF fil.random_access_axioms Rr(1)] show ?thesis by simp
  qed
  obtain r' where r': "io_ReadFull section_Read (?s + 2) r = Some (salt @ pwvv, None, r')"
    "section_ReadAt r' = ?ra"
  proof (rule fil.section_ReadFull [OF Rr, of "?s + 2"])
    fix r'
    assume "io_ReadFull section_Read (?s + 2) r = Some (take (?s + 2) (section_bytes A r),
        readFull_err (?s + 2) (section_bytes A r) ErrEOF, r')" "section_ReadAt r' = ?ra"
    moreover have "take (?s + 2) ?P = salt @ pwvv" using len by (simp add: aes_payload_def)
    moreover have "readFull_err (?s + 2) ?P ErrEOF = None" using P by (simp add: readFull_err_def)
    ultimately show thesis using that D by simp
  qed
  define data where "data = NewSectionReader ?ra (int (?s + 2)) (int (length ct))"
  define adata where "adata = NewSectionReader ?ra (int (?s + 2) + int (length ct)) 10"
  have dlim: "int (?s + 2) + int (length ct) \<le> maxint64"
    "int (?s + 2) + int (length ct) + 10 \<le> maxint64"
    using m P by simp_all
  have data: "sec_r data = ?ra" "0 \<le> sec_off data" "section_bytes ?P data = ct"
    using section_bytes_fresh [of "int (?s + 2)" "int (length ct)", OF _ _ dlim(1)] len
    by (simp_all add: data_def aes_payload_def nat_add_distrib)
  have adata: "sec_r adata = ?ra" "0 \<le> sec_off adata" "section_bytes ?P adata = code"
    using section_bytes_fresh [of "int (?s + 2) + int (length ct)" 10, OF _ _ dlim(2)] len
    by (simp_all add: adata_def aes_payload_def nat_add_distrib)
  let ?ov = "12 + of_nat ?s :: u64"
  have oh: "unat ?ov = ?s + 12"
    using klen by auto
  have sub: "unat (CompressedSize64 f - ?ov) = length ct"
    using usz oh P by (simp add: unat_sub_if_size)
  have ok: "\<not> CompressedSize64 f < ?ov" "\<not> 2 ^ 63 - 1 < CompressedSize64 f - ?ov"
    using usz oh P sub M by (simp_all add: word_less_nat_alt)
  have "unat (CompressedSize64 f - ?ov) < 2 ^ 63" using sub M P by simp
  from int64_of_small [OF this] have dl: "int64_of (CompressedSize64 f - ?ov) = int (length ct)"
    by (simp only: sub)
  have ao: "add64 (int (?s + 2)) (int (length ct)) = int (?s + 2) + int (length ct)"
    using dlim by (intro add64_exact) (simp add: in_int64_def maxint64_def)
  have ek: "length ek \<in> {16, 24, 32}"
    using keys S klen by (auto simp: generateKeys_def suite_ok_def Let_def)
  show ?thesis
  proof (cases "pwv = pwvv")
    case False
    have "newDecryptionReader S r f = Some (Inl ErrPassword)"
      using False kl klen k0 r' pw keys len
      by (simp add: newDecryptionReader_def Let_def checkPasswordVerification_def
          ConstantTimeCompare_def)
    with False show ?thesis by simp
  next
    case True
    let ?a = "\<lparr>dr_block = aes_Encrypt S ek, dr_akey = ak,
      dr_sr = \<lparr>sr_S = newWinZipCTR, sr_R = newAuthReader data adata (DeferAuth f)\<rparr>\<rparr>"
    have "decryptStream S ek (newAuthReader data adata (DeferAuth f)) =
        Some (aes_Encrypt S ek, dr_sr ?a)"
      using ek by (auto simp: decryptStream_def aes_NewCipher_def)
    then have "newDecryptionReader S r f = Some (Inr ?a)"
      using True kl klen k0 r' pw keys len ok dl ao
      by (simp add: newDecryptionReader_def Let_def checkPasswordVerification_def
          ConstantTimeCompare_def data_def adata_def ac_simps)
    with True ra random_access.aes_fresh_view [OF ra S data(1,2) adata(1,2) data(3) adata(3) refl]
    show ?thesis by auto
  qed
qed

lemma newDecryptionReader_spec:
  fixes f :: FileHeader
  assumes S: "suite_ok S" and kl: "aesKeyLen (aesStrength f) = kl" "kl \<noteq> 0"
    and len: "length salt = kl div 2" "length pwvv = 2" "length code = 10"
    and A: "A = pre @ aes_payload salt pwvv ct code @ post" "length A < 2 ^ 63"
    and sz: "CompressedSize64 f = of_nat (length (aes_payload salt pwvv ct code))"
    and r: "r = NewSectionReader (file_at A) (int (length pre)) (int64_of (CompressedSize64 f))"
    and pw: "password f = Some pw" and keys: "generateKeys S pw salt kl = (ek, ak, pwv)"
  shows "if pwv = pwvv then \<exists>a. newDecryptionReader S r f = Some (Inr a) \<and>
        (\<forall>k>0. \<exists>n s a'. io_Copy sink_write (aes_reader_Read S) k 0 empty_sink a =
           Some (n, if auth_verdict S ak ct code = ErrEOF then None
                    else Some (auth_verdict S ak ct code), s, a')
         \<and> sink_data s = (if DeferAuth f \<or> auth_verdict S ak ct code = ErrEOF
             then xor_stream (aes_Encrypt S ek) 0 ct else []))
     else newDecryptionReader S r f = Some (Inl ErrPassword)"
proof (cases "pwv = pwvv")
  case True
  with newDecryptionReader_view [OF assms] obtain a where a: "newDecryptionReader S r f = Some (Inr a)"
    "random_access (section_ReadAt r) (aes_payload salt pwvv ct code)"
    "random_access.aes_inv (section_ReadAt r) a"
    "random_access.aes_view (aes_payload salt pwvv ct code) S a =
       (if DeferAuth f \<or> auth_verdict S ak ct code = ErrEOF
        then xor_stream (aes_Encrypt S ek) 0 ct else [], auth_verdict S ak ct code)" by auto
  with True random_access.aes_drain [OF a(2,3), of _ S] show ?thesis by auto
qed (use newDecryptionReader_view [OF assms] in simp)
lemma auth_verdict_match:
  "suite_ok S \<Longrightarrow> auth_verdict S akey m (take 10 (hmac_sha1 S akey m)) = ErrEOF"
  by (simp add: auth_verdict_def suite_ok_def)

lemma newEncryptionWriter_ok:
  assumes "suite_ok S" "rnd (aesKeyLen strength div 2) = Inr salt" "aesKeyLen strength \<noteq> 0"
    and "generateKeys S pw salt (aesKeyLen strength) = (ek, ak, pwv)"
  shows "newEncryptionWriter S w pw strength rnd =
      Inr (aes_Encrypt S ek, ak, \<lparr>ew_pwv = pwv, ew_salt = salt, ew_w = w, ew_hmac = [],
        ew_S = newWinZipCTR, ew_first = True, ew_err = None\<rparr>)"
    and "length pwv = 2"
proof -
  have kl: "aesKeyLen strength \<in> {16, 24, 32}"
    using assms(3) by (auto simp: aesKeyLen_def split: if_splits)
  with assms(1,4) have "length ek \<in> {16, 24, 32}" "length pwv = 2"
    by (auto simp: generateKeys_def suite_ok_def Let_def)
  then show "newEncryptionWriter S w pw strength rnd =
      Inr (aes_Encrypt S ek, ak, \<lparr>ew_pwv = pwv, ew_salt = salt, ew_w = w, ew_hmac = [],
        ew_S = newWinZipCTR, ew_first = True, ew_err = None\<rparr>)" "length pwv = 2"
    using assms(2,4) by (auto simp: newEncryptionWriter_def encryptStream_def aes_NewCipher_def Let_def)
qed

context io_writer
begin

text \<open>A whole entry written through a fresh encrypting writer.\<close>

lemma ew_all:
  assumes "suite_ok S" "good w" "out w = base"
    and "ew0 = \<lparr>ew_pwv = pwv, ew_salt = salt, ew_w = w, ew_hmac = [],
        ew_S = newWinZipCTR, ew_first = True, ew_err = None\<rparr>"
  obtains ew ew' where "write_seq (encryptionWriter_Write (aes_Encrypt S ek) wr) ps ew0 = (None, ew)"
    "encryptionWriter_Close wr ew = (None, ew')" "good (ew_w ew')"
    "out (ew_w ew') = base @ salt @ pwv @ xor_stream (aes_Encrypt S ek) 0 (concat ps)"
    "ew_hmac ew' = xor_stream (aes_Encrypt S ek) 0 (concat ps)"
proof -
  let ?E = "aes_Encrypt S ek"
  have "block_ok ?E" using assms(1) by (simp add: suite_ok_def)
  then have "ew_rel out base salt pwv ?E ew0 []" "good (ew_w ew0)"
    using assms(2,3) ctr_inv_init by (auto simp: assms(4) ew_rel_def xor_stream_def)
  from ew.write_seq_accept [OF this, of ps] obtain ew where ew:
    "write_seq (encryptionWriter_Write ?E wr) ps ew0 = (None, ew)" "good (ew_w ew)"
    "ew_rel out base salt pwv ?E ew (concat ps)" by auto
  from ew_Close_good [OF ew(2)] obtain ew' where
    c: "encryptionWriter_Close wr ew = (None, ew')" "good (ew_w ew')" by blast
  from ew_Close_ok [OF ew(3) c(1)] ew(1) c that show ?thesis by (auto simp: ew_rel_def)
qed

end

text \<open>
  C16. A WinZip AES entry is a round trip. Whatever the plaintext is cut into, the encrypting writer
  takes all of it; its output followed by the first 10 bytes of its \<open>hmac\<close>, placed anywhere in an
  archive, is decrypted by \<open>newDecryptionReader\<close> with the same password to exactly the plaintext,
  through any read buffer, with the authentication passing, whether it is deferred or not.
\<close>

theorem aes_roundtrip:
  fixes f :: FileHeader
  assumes "suite_ok S" and "aesKeyLen (aesStrength f) \<noteq> 0"
    and "rnd (aesKeyLen (aesStrength f) div 2) = Inr salt"
    and "length salt = aesKeyLen (aesStrength f) div 2"
    and "newEncryptionWriter S empty_sink pw (aesStrength f) rnd = Inr (E, akey, ew)"
    and "write_seq (encryptionWriter_Write E sink_write) ps ew = (e, ew')"
    and "encryptionWriter_Close sink_write ew' = (e', ew'')"
    and "payload = sink_data (ew_w ew'') @ take 10 (hmac_sha1 S akey (ew_hmac ew''))"
    and "length (pre @ payload @ post) < 2 ^ 63"
    and "CompressedSize64 f = of_nat (length payload)" and "password f = Some pw" and "0 < k"
  shows "e = None \<and> e' = None \<and>
    (\<exists>a n s a'. newDecryptionReader S (NewSectionReader (file_at (pre @ payload @ post))
         (int (length pre)) (int64_of (CompressedSize64 f))) f = Some (Inr a)
       \<and> io_Copy sink_write (aes_reader_Read S) k 0 empty_sink a = Some (n, None, s, a')
       \<and> sink_data s = concat ps)"
proof -
  obtain ek ak pwv where keys: "generateKeys S pw salt (aesKeyLen (aesStrength f)) = (ek, ak, pwv)"
    using prod_cases3 by blast
  note n = newEncryptionWriter_ok [where rnd = rnd and strength = "aesStrength f", OF assms(1,3,2) keys]
  from n(1) [of empty_sink] assms(5) have ew: "E = aes_Encrypt S ek" "akey = ak"
    "ew = \<lparr>ew_pwv = pwv, ew_salt = salt, ew_w = empty_sink, ew_hmac = [], ew_S = newWinZipCTR,
        ew_first = True, ew_err = None\<rparr>" by simp_all
  define ct where "ct = xor_stream E 0 (concat ps)"
  have w: "e = None" "e' = None" "sink_data (ew_w ew'') = salt @ pwv @ ct" "ew_hmac ew'' = ct"
    using snk.ew_all [OF assms(1) empty_sink_simps(2,1) ew(3), of ek ps] assms(6,7) ew(1)
    by (auto simp: ct_def)
  then have p: "payload = aes_payload salt pwv ct (take 10 (hmac_sha1 S ak ct))"
    using assms(8) ew by (simp add: aes_payload_def)
  have "length (take 10 (hmac_sha1 S ak ct)) = 10" using assms(1) by (simp add: suite_ok_def)
  from newDecryptionReader_spec [OF assms(1) refl assms(2,4) n(2) this _ assms(9) _ refl assms(11) keys,
      where pre = pre and ct = ct and post = post, folded p]
  have "\<exists>a. newDecryptionReader S (NewSectionReader (file_at (pre @ payload @ post))
         (int (length pre)) (int64_of (CompressedSize64 f))) f = Some (Inr a)
     \<and> (\<forall>k>0. \<exists>n s a'. io_Copy sink_write (aes_reader_Read S) k 0 empty_sink a = Some (n, None, s, a')
         \<and> sink_data s = xor_stream E 0 ct)"
    using assms(10) auth_verdict_match [OF assms(1), of ak ct] ew(1) by simp
  moreover have "xor_stream E 0 ct = concat ps" by (simp add: ct_def xor_stream_twice)
  ultimately show ?thesis using assms(12) w(1,2) by auto
qed


text \<open>A suite for the examples: the lengths are right, nothing else is.\<close>

definition toy_suite :: aes_suite where
  "toy_suite = \<lparr>pbkdf2_Key = (\<lambda>pw salt iter n. replicate n (of_nat (length pw))),
     hmac_sha1 = (\<lambda>k d. replicate 20 (of_nat (length d))), aes_Encrypt = (\<lambda>k b. b)\<rparr>"

lemma toy_suite_ok: "suite_ok toy_suite"
  by (simp add: suite_ok_def toy_suite_def block_ok_def)

lemma aes_roundtrip_witness:
  "\<exists>E akey ew ew' e' ew'' payload f e. newEncryptionWriter toy_suite empty_sink [7, 2] 1 (\<lambda>n. Inr (replicate n 5))
       = Inr (E, akey, ew)
   \<and> write_seq (encryptionWriter_Write E sink_write) [[1], [2, 3]] ew = (e, ew')
   \<and> encryptionWriter_Close sink_write ew' = (e', ew'')
   \<and> payload = sink_data (ew_w ew'') @ take 10 (hmac_sha1 toy_suite akey (ew_hmac ew''))
   \<and> f = zeroFileHeader\<lparr>aesStrength := 1, password := Some [7, 2],
       CompressedSize64 := of_nat (length payload)\<rparr>
   \<and> (e = None \<and> e' = None \<and>
       (\<exists>a n s a'. newDecryptionReader toy_suite (NewSectionReader (file_at ([9] @ payload @ [8]))
          1 (int64_of (CompressedSize64 f))) f = Some (Inr a)
       \<and> io_Copy sink_write (aes_reader_Read toy_suite) 4 0 empty_sink a = Some (n, None, s, a')
       \<and> sink_data s = [1, 2, 3]))"
proof -
  let ?rnd = "\<lambda>n. Inr (replicate n 5) :: byte list result"
  obtain ek ak pwv where keys: "generateKeys toy_suite [7, 2] (replicate 8 5) 16 = (ek, ak, pwv)"
    using prod_cases3 by blast
  have kl: "aesKeyLen 1 = 16" by (simp add: aesKeyLen_def)
  note n = newEncryptionWriter_ok [where rnd = ?rnd and strength = 1 and salt = "replicate 8 5"
      and S = toy_suite and pw = "[7, 2]", unfolded kl, OF toy_suite_ok _ _ keys, simplified]
  let ?ew = "\<lparr>ew_pwv = pwv, ew_salt = replicate 8 5, ew_w = empty_sink, ew_hmac = [],
    ew_S = newWinZipCTR, ew_first = True, ew_err = None\<rparr>"
  obtain ew' ew'' where w:
    "write_seq (encryptionWriter_Write (aes_Encrypt toy_suite ek) sink_write) [[1], [2, 3]] ?ew = (None, ew')"
    "encryptionWriter_Close sink_write ew' = (None, ew'')"
    "sink_data (ew_w ew'') = [] @ replicate 8 5 @ pwv @ xor_stream (aes_Encrypt toy_suite ek) 0 (concat [[1], [2, 3]])"
    by (rule snk.ew_all [OF toy_suite_ok empty_sink_simps(2,1) refl, of ek "[[1], [2, 3]]" pwv "replicate 8 5"])
  define payload where "payload = sink_data (ew_w ew'') @ take 10 (hmac_sha1 toy_suite ak (ew_hmac ew''))"
  define f where "f = zeroFileHeader\<lparr>aesStrength := 1, password := Some [7, 2],
       CompressedSize64 := of_nat (length payload)\<rparr>"
  have "length payload = 23"
    using toy_suite_ok n(2) w(3) by (simp add: payload_def suite_ok_def)
  then have l: "length ([9] @ payload @ [8]) < 2 ^ 63" by simp
  have f: "aesStrength f = 1" "CompressedSize64 f = of_nat (length payload)" "password f = Some [7, 2]"
    by (simp_all add: f_def)
  have kf: "aesKeyLen (aesStrength f) = 16" by (simp add: f kl)
  have "?rnd (aesKeyLen (aesStrength f) div 2) = Inr (replicate 8 5)"
    "length (replicate 8 (5 :: byte)) = aesKeyLen (aesStrength f) div 2" "aesKeyLen (aesStrength f) \<noteq> 0"
    by (simp_all add: kf)
  from aes_roundtrip [where rnd = ?rnd, OF toy_suite_ok this(3,1,2) n(1) [of empty_sink, folded f(1)]
      w(1,2) payload_def l f(2,3), of 4]
  have res: "\<exists>a n s a'. newDecryptionReader toy_suite (NewSectionReader (file_at ([9] @ payload @ [8]))
          1 (int64_of (CompressedSize64 f))) f = Some (Inr a)
       \<and> io_Copy sink_write (aes_reader_Read toy_suite) 4 0 empty_sink a = Some (n, None, s, a')
       \<and> sink_data s = [1, 2, 3]"
    by simp
  show ?thesis
    by (rule exI [of _ "aes_Encrypt toy_suite ek"], rule exI [of _ ak], rule exI [of _ ?ew],
        rule exI [of _ ew'], rule exI [of _ None], rule exI [of _ ew''], rule exI [of _ payload],
        rule exI [of _ f], rule exI [of _ None])
       (intro conjI n(1) w(1,2) payload_def f_def res refl)
qed


text \<open>
  C17. Tampered ciphertext is never delivered: if the authentication code is not that of the
  ciphertext, a reader that does not defer authentication delivers no byte and reports
  \<open>ErrAuthentication\<close>, even though the password is right.
\<close>

theorem aes_tampered:
  fixes f :: FileHeader
  assumes "suite_ok S" and "aesKeyLen (aesStrength f) \<noteq> 0"
    and "length salt = aesKeyLen (aesStrength f) div 2" "length pwv = 2" "length code = 10"
    and "length (pre @ aes_payload salt pwv ct code @ post) < 2 ^ 63"
    and "CompressedSize64 f = of_nat (length (aes_payload salt pwv ct code))"
    and "password f = Some pw" and "generateKeys S pw salt (aesKeyLen (aesStrength f)) = (ek, ak, pwv)"
    and "code \<noteq> take 10 (hmac_sha1 S ak ct)" and "\<not> DeferAuth f" and "0 < k"
  shows "\<exists>a n s a'. newDecryptionReader S
         (NewSectionReader (file_at (pre @ aes_payload salt pwv ct code @ post)) (int (length pre))
            (int64_of (CompressedSize64 f))) f = Some (Inr a)
       \<and> io_Copy sink_write (aes_reader_Read S) k 0 empty_sink a
           = Some (n, Some ErrAuthentication, s, a')
       \<and> sink_data s = []"
proof -
  have "auth_verdict S ak ct code = ErrAuthentication"
    using assms(5,10) by (auto simp: auth_verdict_def)
  with newDecryptionReader_spec [OF assms(1) refl assms(2-5) refl assms(6,7) refl assms(8,9)] assms(11,12)
  show ?thesis by auto
qed

lemma aes_tampered_witness:
  "\<exists>f a n s a'. newDecryptionReader toy_suite
       (NewSectionReader (file_at ([9] @ aes_payload (replicate 8 5) [2, 2] [1, 2, 3] (replicate 10 0) @ [8]))
          1 (int64_of (CompressedSize64 f))) f = Some (Inr a)
     \<and> io_Copy sink_write (aes_reader_Read toy_suite) 4 0 empty_sink a
         = Some (n, Some ErrAuthentication, s, a')
     \<and> sink_data s = []"
proof -
  define f where "f = zeroFileHeader\<lparr>aesStrength := 1, password := Some [7, 2],
       CompressedSize64 := 23\<rparr>"
  have f: "aesKeyLen (aesStrength f) = 16" "CompressedSize64 f = 23" "password f = Some [7, 2]"
    "\<not> DeferAuth f"
    by (simp_all add: f_def aesKeyLen_def zeroFileHeader_def)
  have keys: "generateKeys toy_suite [7, 2] (replicate 8 5) 16 = (replicate 16 2, replicate 16 2, [2, 2])"
    by (simp add: generateKeys_def toy_suite_def numeral_2_eq_2)
  have "\<exists>a n s a'. newDecryptionReader toy_suite
       (NewSectionReader (file_at ([9] @ aes_payload (replicate 8 5) [2, 2] [1, 2, 3] (replicate 10 0) @ [8]))
          (int (length [9 :: byte])) (int64_of (CompressedSize64 f))) f = Some (Inr a)
     \<and> io_Copy sink_write (aes_reader_Read toy_suite) 4 0 empty_sink a
         = Some (n, Some ErrAuthentication, s, a')
     \<and> sink_data s = []"
    by (rule aes_tampered [OF toy_suite_ok, where pw = "[7, 2]" and ek = "replicate 16 2" and ak = "replicate 16 2"])
       (simp_all add: f keys aes_payload_def, simp add: toy_suite_def)
  then show ?thesis by (intro exI [of _ f]) simp
qed

text \<open>
  A password whose verification value differs from the stored one is rejected before anything
  is decrypted.
\<close>

theorem aes_wrong_password:
  fixes f :: FileHeader
  assumes "suite_ok S" and "aesKeyLen (aesStrength f) \<noteq> 0"
    and "length salt = aesKeyLen (aesStrength f) div 2" "length stored = 2" "length code = 10"
    and "length (pre @ aes_payload salt stored ct code @ post) < 2 ^ 63"
    and "CompressedSize64 f = of_nat (length (aes_payload salt stored ct code))"
    and "password f = Some pw" and "generateKeys S pw salt (aesKeyLen (aesStrength f)) = (ek, ak, pwv)"
    and "pwv \<noteq> stored"
  shows "newDecryptionReader S
         (NewSectionReader (file_at (pre @ aes_payload salt stored ct code @ post)) (int (length pre))
            (int64_of (CompressedSize64 f))) f = Some (Inl ErrPassword)"
  using newDecryptionReader_spec [OF assms(1) refl assms(2-5) refl assms(6,7) refl assms(8,9)] assms(10)
  by simp

lemma aes_wrong_password_witness:
  "\<exists>f. newDecryptionReader toy_suite
       (NewSectionReader (file_at ([9] @ aes_payload (replicate 8 5) [2, 2] [1, 2, 3] (replicate 10 0) @ [8]))
          1 (int64_of (CompressedSize64 f))) f = Some (Inl ErrPassword)"
proof -
  define f where "f = zeroFileHeader\<lparr>aesStrength := 1, password := Some [7],
       CompressedSize64 := 23\<rparr>"
  have f: "aesKeyLen (aesStrength f) = 16" "CompressedSize64 f = 23" "password f = Some [7]"
    by (simp_all add: f_def aesKeyLen_def)
  have keys: "generateKeys toy_suite [7] (replicate 8 5) 16 = (replicate 16 1, replicate 16 1, [1, 1])"
    by (simp add: generateKeys_def toy_suite_def numeral_2_eq_2)
  have "newDecryptionReader toy_suite
       (NewSectionReader (file_at ([9] @ aes_payload (replicate 8 5) [2, 2] [1, 2, 3] (replicate 10 0) @ [8]))
          (int (length [9 :: byte])) (int64_of (CompressedSize64 f))) f = Some (Inl ErrPassword)"
    by (rule aes_wrong_password [OF toy_suite_ok, where pw = "[7]" and ek = "replicate 16 1"
          and ak = "replicate 16 1" and pwv = "[1, 1]"])
       (simp_all add: f keys aes_payload_def)
  then show ?thesis by (intro exI [of _ f]) simp
qed

end
