(* ===== verification/Zip_Register.thy ===== *)
theory Zip_Register
  imports Zip_Buffered Zip_Struct
begin

text \<open>
  register.go: the registered compressors and decompressors and their lookup, and the pools of
  \<open>flate\<close> writers and readers. The \<open>flate\<close> package is a parameter.
\<close>

section \<open>Compressors\<close>

text \<open>
  A \<open>Compressor\<close> (register.go): \<open>cz_new\<close> wraps a writer, \<open>cz_Write\<close> and \<open>cz_Close\<close> are the methods of
  the \<open>io.WriteCloser\<close> it returns. The object \<open>'c\<close> holds a pointer to the wrapped writer, whose state
  \<open>'e\<close> is passed along.
\<close>

record ('e, 'c) compressor =
  cz_new :: "'e \<Rightarrow> 'c result \<times> 'e"
  cz_Write :: "'e write_fn \<Rightarrow> ('c \<times> 'e) write_fn"
  cz_Close :: "'e write_fn \<Rightarrow> 'c \<times> 'e \<Rightarrow> zip_error option \<times> 'c \<times> 'e"

text \<open>
  What the package relies on: making a compressor writes nothing; over a writer that accepts bytes
  it accepts what it is given, and once closed has passed on an encoding of it.
\<close>

definition comp_ok :: "('e, 'c) compressor \<Rightarrow> (byte list \<Rightarrow> byte list \<Rightarrow> bool) \<Rightarrow> bool" where
  "comp_ok C codes \<longleftrightarrow>
     (\<exists>c0. \<forall>e. cz_new C e = (Inr c0, e)) \<and>
     (\<forall>wr rel good. accepting wr rel good \<longrightarrow>
        (\<exists>crel cgood. accepting (cz_Write C wr) crel cgood \<and>
           (\<forall>e c. cz_new C e = (Inr c, e) \<longrightarrow> rel e [] \<longrightarrow> crel (c, e) [] \<and> (good e \<longrightarrow> cgood (c, e))) \<and>
           (\<forall>s acc. crel s acc \<longrightarrow> cgood s \<longrightarrow>
              (\<exists>s' enc. cz_Close C wr s = (None, s') \<and> good (snd s') \<and> rel (snd s') enc
                 \<and> codes enc acc))))"

text \<open>\<open>nopCloser\<close> (writer.go), the compressor of the \<open>Store\<close> method.\<close>

datatype 'c comp_writer = NopCloser | Custom 'c

definition nop_compressor :: "('e, 'c comp_writer) compressor" where
  "nop_compressor = \<lparr>cz_new = (\<lambda>e. (Inr NopCloser, e)),
     cz_Write = (\<lambda>wr (c, e) p. case wr e p of (n, err, e) \<Rightarrow> (n, err, c, e)),
     cz_Close = (\<lambda>wr (c, e). (None, c, e))\<rparr>"

definition custom_compressor :: "('e, 'c) compressor \<Rightarrow> ('e, 'c comp_writer) compressor" where
  "custom_compressor C = \<lparr>
     cz_new = (\<lambda>e. case cz_new C e of (Inl err, e) \<Rightarrow> (Inl err, e) | (Inr c, e) \<Rightarrow> (Inr (Custom c), e)),
     cz_Write = (\<lambda>wr (c, e) p. case c of
        NopCloser \<Rightarrow> (0, Some GoPanic, c, e)
      | Custom c \<Rightarrow> (case cz_Write C wr (c, e) p of (n, err, c, e) \<Rightarrow> (n, err, Custom c, e))),
     cz_Close = (\<lambda>wr (c, e). case c of
        NopCloser \<Rightarrow> (Some GoPanic, c, e)
      | Custom c \<Rightarrow> (case cz_Close C wr (c, e) of (err, c, e) \<Rightarrow> (err, Custom c, e)))\<rparr>"

text \<open>
  The registered compressors, and \<open>compressor\<close>: \<open>flate\<close> stands for \<open>newFlateWriter\<close> at a level.
\<close>

type_synonym ('e, 'c) compressors = "u16 \<rightharpoonup> ('e, 'c) compressor"

definition RegisterCompressor ::
  "u16 \<Rightarrow> ('e, 'c) compressor \<Rightarrow> ('e, 'c) compressors \<Rightarrow> ('e, 'c) compressors result" where
  "RegisterCompressor mtd c m = (if mtd \<in> dom m then Inl GoPanic else Inr (m(mtd \<mapsto> c)))"

definition compressor ::
  "(int \<Rightarrow> ('e, 'c) compressor) \<Rightarrow> ('e, 'c) compressors \<Rightarrow> u16 \<Rightarrow> int
     \<Rightarrow> ('e, 'c comp_writer) compressor option" where
  "compressor flate m mtd level =
     (if mtd = Store then Some nop_compressor
      else if mtd = Deflate then Some (custom_compressor (flate level))
      else map_option custom_compressor (m mtd))"

lemma comp_okI:
  assumes "\<And>e. cz_new C e = (Inr c0, e)"
    and "\<And>wr rel good. accepting wr rel good \<Longrightarrow>
        (\<exists>crel cgood. accepting (cz_Write C wr) crel cgood \<and>
           (\<forall>e. rel e [] \<longrightarrow> crel (c0, e) [] \<and> (good e \<longrightarrow> cgood (c0, e))) \<and>
           (\<forall>s acc. crel s acc \<longrightarrow> cgood s \<longrightarrow>
              (\<exists>s' enc. cz_Close C wr s = (None, s') \<and> good (snd s') \<and> rel (snd s') enc
                 \<and> codes enc acc)))"
  shows "comp_ok C codes"
  unfolding comp_ok_def using assms by (auto 0 3)

context accepting
begin

lemma accept_any:
  "rel w acc \<Longrightarrow> wr w p = (n, e, w') \<Longrightarrow>
     (e = None \<longrightarrow> n = length p \<and> rel w' (acc @ p)) \<and> (good w \<longrightarrow> e = None \<and> good w')"
  using accept_ok [of w acc p n w'] accept_good [of w acc p] by (cases e) auto

end

lemma acceptingI:
  assumes "\<And>w acc p n e w'. rel w acc \<Longrightarrow> wr w p = (n, e, w') \<Longrightarrow>
     (e = None \<longrightarrow> n = length p \<and> rel w' (acc @ p)) \<and> (good w \<longrightarrow> e = None \<and> good w')"
  shows "accepting wr rel good"
proof
  show "n = length p \<and> rel w' (acc @ p)" if "rel w acc" "wr w p = (n, None, w')" for w acc p n w'
    using assms [OF that] by simp
  show "\<exists>n w'. wr w p = (n, None, w') \<and> good w'" if "rel w acc" "good w" for w acc p
    using assms [OF that(1)] that(2) by (cases "wr w p") auto
qed

context accepting
begin

lemma nop_accepting:
  "accepting (cz_Write nop_compressor wr) (\<lambda>s. rel (snd s)) (\<lambda>s. good (snd s))"
  by (rule acceptingI) (auto simp: nop_compressor_def split: prod.splits dest: accept_any)

lemma custom_accepting:
  fixes C :: "('w, 'c) compressor"
  assumes "accepting (cz_Write C wr) crel cgood"
  shows "accepting (cz_Write (custom_compressor C) wr)
    (\<lambda>s acc. \<exists>d. fst s = Custom d \<and> crel (d, snd s) acc) (\<lambda>s. \<exists>d. fst s = Custom d \<and> cgood (d, snd s))"
proof (rule acceptingI)
  fix w :: "'c comp_writer \<times> 'w" and acc p n e w'
  assume r: "\<exists>d. fst w = Custom d \<and> crel (d, snd w) acc"
    and w: "cz_Write (custom_compressor C) wr w p = (n, e, w')"
  then obtain d x where d: "w = (Custom d, x)" "crel (d, x) acc" by (cases w) auto
  obtain m err d' x' where s: "cz_Write C wr (d, x) p = (m, err, d', x')" by (metis prod_cases4)
  with w d have "n = m" "e = err" "w' = (Custom d', x')" by (auto simp: custom_compressor_def)
  with accepting.accept_any [OF assms d(2) s] d(1)
  show "(e = None \<longrightarrow> n = length p \<and> (\<exists>d. fst w' = Custom d \<and> crel (d, snd w') (acc @ p)))
    \<and> ((\<exists>d. fst w = Custom d \<and> cgood (d, snd w)) \<longrightarrow>
       e = None \<and> (\<exists>d. fst w' = Custom d \<and> cgood (d, snd w')))" by auto
qed

end

lemma nop_compressor_ok: "comp_ok nop_compressor (=)"
proof (rule comp_okI)
  show "cz_new nop_compressor e = (Inr NopCloser, e)" for e by (simp add: nop_compressor_def)
  show "\<exists>crel cgood. accepting (cz_Write nop_compressor wr) crel cgood \<and>
           (\<forall>e. rel e [] \<longrightarrow> crel (NopCloser, e) [] \<and> (good e \<longrightarrow> cgood (NopCloser, e))) \<and>
           (\<forall>s acc. crel s acc \<longrightarrow> cgood s \<longrightarrow>
              (\<exists>s' enc. cz_Close nop_compressor wr s = (None, s') \<and> good (snd s') \<and> rel (snd s') enc
                 \<and> enc = acc))"
    if "accepting wr rel good" for wr :: "'a write_fn" and rel good
    by (rule exI, rule exI, rule conjI [OF accepting.nop_accepting [OF that]])
       (auto simp: nop_compressor_def)
qed

lemma custom_compressor_ok:
  assumes "comp_ok C codes"
  shows "comp_ok (custom_compressor C) codes"
proof -
  from assms obtain c0 where c0: "\<And>e. cz_new C e = (Inr c0, e)" by (auto simp: comp_ok_def)
  show ?thesis
  proof (rule comp_okI)
    show "cz_new (custom_compressor C) e = (Inr (Custom c0), e)" for e
      by (simp add: custom_compressor_def c0)
    show "\<exists>crel cgood. accepting (cz_Write (custom_compressor C) wr) crel cgood \<and>
           (\<forall>e. rel e [] \<longrightarrow> crel (Custom c0, e) [] \<and> (good e \<longrightarrow> cgood (Custom c0, e))) \<and>
           (\<forall>s acc. crel s acc \<longrightarrow> cgood s \<longrightarrow>
              (\<exists>s' enc. cz_Close (custom_compressor C) wr s = (None, s') \<and> good (snd s')
                 \<and> rel (snd s') enc \<and> codes enc acc))"
      if a: "accepting wr rel good" for wr :: "'a write_fn" and rel good
    proof -
      from assms [unfolded comp_ok_def] a obtain crel cgood where
        cr: "accepting (cz_Write C wr) crel cgood"
        "\<forall>e c. cz_new C e = (Inr c, e) \<longrightarrow> rel e [] \<longrightarrow> crel (c, e) [] \<and> (good e \<longrightarrow> cgood (c, e))"
        "\<forall>s acc. crel s acc \<longrightarrow> cgood s \<longrightarrow>
              (\<exists>s' enc. cz_Close C wr s = (None, s') \<and> good (snd s') \<and> rel (snd s') enc \<and> codes enc acc)"
        by (elim conjE) (drule spec [of _ wr], drule spec [of _ rel], drule spec [of _ good], auto)
      show ?thesis
      proof (rule exI, rule exI, intro conjI allI impI)
        show "accepting (cz_Write (custom_compressor C) wr)
          (\<lambda>s acc. \<exists>d. fst s = Custom d \<and> crel (d, snd s) acc) (\<lambda>s. \<exists>d. fst s = Custom d \<and> cgood (d, snd s))"
          by (rule accepting.custom_accepting [OF a cr(1)])
      qed (use c0 cr(2,3) in \<open>force simp: custom_compressor_def\<close>)+
    qed
  qed
qed


lemma compressor_ok:
  assumes "compressor flate m mtd level = Some C"
    and "comp_ok (flate level) (codec Deflate)"
    and "\<And>D. m mtd = Some D \<Longrightarrow> comp_ok D (codec mtd)" and "codec Store = (=)"
  shows "comp_ok C (codec mtd)"
  using assms nop_compressor_ok custom_compressor_ok
  by (auto simp: compressor_def split: if_splits)

section \<open>The pools of \<open>flate\<close> writers\<close>

text \<open>
  The writers of the \<open>flate\<close> package: \<open>NewWriter\<close>, \<open>Reset\<close>, \<open>Write\<close>, \<open>Close\<close>, and the level a writer was
  made with. As for every compressor, the writer below is passed along.
\<close>

record ('e, 'f) flate =
  flate_NewWriter :: "int \<Rightarrow> 'f result"
  flate_Reset :: "'f \<Rightarrow> 'f"
  flate_Write :: "'e write_fn \<Rightarrow> ('f \<times> 'e) write_fn"
  flate_Close :: "'e write_fn \<Rightarrow> 'f \<times> 'e \<Rightarrow> zip_error option \<times> 'f \<times> 'e"
  flate_level :: "'f \<Rightarrow> int"

definition HuffmanOnly :: int where "HuffmanOnly = -2"
definition BestCompression :: int where "BestCompression = 9"

text \<open>
  The documented behaviour of the package: a level in range is accepted, \<open>Write\<close> and \<open>Close\<close> keep the
  level, and \<open>Reset\<close> makes a writer equivalent to a new one of its level.
\<close>

definition flate_ok :: "('e, 'f) flate \<Rightarrow> bool" where
  "flate_ok F \<longleftrightarrow>
     (\<forall>l. HuffmanOnly \<le> l \<and> l \<le> BestCompression \<longrightarrow>
        (\<exists>f. flate_NewWriter F l = Inr f \<and> flate_level F f = l)) \<and>
     (\<forall>f. HuffmanOnly \<le> flate_level F f \<and> flate_level F f \<le> BestCompression \<longrightarrow>
        flate_NewWriter F (flate_level F f) = Inr (flate_Reset F f)) \<and>
     (\<forall>wr f e p n err f' e'. flate_Write F wr (f, e) p = (n, err, f', e') \<longrightarrow>
        flate_level F f' = flate_level F f) \<and>
     (\<forall>wr f e err f' e'. flate_Close F wr (f, e) = (err, f', e') \<longrightarrow>
        flate_level F f' = flate_level F f)"

text \<open>
  The \<open>flate\<close> writers of the process by address, and \<open>flateWriterPools\<close>. \<open>pool_Get\<close> is \<open>sync.Pool.Get\<close>: it
  may return any item of the pool or nothing; \<open>k\<close> is the choice.
\<close>

record 'f flates =
  fl_heap :: "nat \<Rightarrow> 'f"
  fl_next :: nat
  fl_pools :: "nat \<Rightarrow> nat list"

definition pool_Get :: "nat option \<Rightarrow> nat list \<Rightarrow> nat option \<times> nat list" where
  "pool_Get k xs = (case k of
     None \<Rightarrow> (None, xs)
   | Some i \<Rightarrow> if i < length xs then (Some (xs ! i), take i xs @ drop (Suc i) xs) else (None, xs))"

record pooledFlateWriter =
  pw_fw :: "nat option"
  pw_pool :: nat

definition newFlateWriter ::
  "('e, 'f) flate \<Rightarrow> nat option \<Rightarrow> int \<Rightarrow> 'f flates \<Rightarrow> pooledFlateWriter result \<times> 'f flates" where
  "newFlateWriter F k level st =
     (if level < HuffmanOnly \<or> BestCompression < level then (Inl (ErrLevel level), st)
      else let i = nat (level - HuffmanOnly) in
        case pool_Get k (fl_pools st i) of (got, rest) \<Rightarrow>
          let st = st\<lparr>fl_pools := (fl_pools st)(i := rest)\<rparr> in
          (case got of
             Some a \<Rightarrow>
               (Inr \<lparr>pw_fw = Some a, pw_pool = i\<rparr>,
                st\<lparr>fl_heap := (fl_heap st)(a := flate_Reset F (fl_heap st a))\<rparr>)
           | None \<Rightarrow>
               (case flate_NewWriter F level of
                  Inl err \<Rightarrow> (Inl err, st)
                | Inr f \<Rightarrow>
                    (Inr \<lparr>pw_fw = Some (fl_next st), pw_pool = i\<rparr>,
                     st\<lparr>fl_heap := (fl_heap st)(fl_next st := f), fl_next := Suc (fl_next st)\<rparr>))))"

definition pooledFlateWriter_Write ::
  "('e, 'f) flate \<Rightarrow> 'e write_fn \<Rightarrow> ((pooledFlateWriter \<times> 'f flates) \<times> 'e) write_fn" where
  "pooledFlateWriter_Write F wr s p = (case s of ((w, st), e) \<Rightarrow>
     (case pw_fw w of
        None \<Rightarrow> (0, Some ErrWriteAfterClose, s)
      | Some a \<Rightarrow> (case flate_Write F wr (fl_heap st a, e) p of (n, err, f, e) \<Rightarrow>
          (n, err, (w, st\<lparr>fl_heap := (fl_heap st)(a := f)\<rparr>), e))))"

definition pooledFlateWriter_Close ::
  "('e, 'f) flate \<Rightarrow> 'e write_fn \<Rightarrow> (pooledFlateWriter \<times> 'f flates) \<times> 'e
     \<Rightarrow> zip_error option \<times> (pooledFlateWriter \<times> 'f flates) \<times> 'e" where
  "pooledFlateWriter_Close F wr s = (case s of ((w, st), e) \<Rightarrow>
     (case pw_fw w of
        None \<Rightarrow> (None, s)
      | Some a \<Rightarrow> (case flate_Close F wr (fl_heap st a, e) of (err, f, e) \<Rightarrow>
          (err, (w\<lparr>pw_fw := None\<rparr>,
            st\<lparr>fl_heap := (fl_heap st)(a := f),
              fl_pools := (fl_pools st)(pw_pool w := a # fl_pools st (pw_pool w))\<rparr>), e))))"

text \<open>
  The pooled writers of the process, any number of them open at a time. Each operation holds its
  writer's mutex, and a pool is safe for concurrent use, so an execution is a sequence of these steps.
\<close>

inductive pool_step :: "('e, 'f) flate \<Rightarrow> pooledFlateWriter list \<times> 'f flates
    \<Rightarrow> pooledFlateWriter list \<times> 'f flates \<Rightarrow> bool" for F where
  pool_new: "newFlateWriter F k level st = (Inr w, st') \<Longrightarrow>
    pool_step F (ws, st) (ws @ [w], st')"
| pool_new_err: "newFlateWriter F k level st = (Inl err, st') \<Longrightarrow>
    pool_step F (ws, st) (ws, st')"
| pool_write: "j < length ws \<Longrightarrow> pooledFlateWriter_Write F wr ((ws ! j, st), e) p = (n, err, (w, st'), e')
    \<Longrightarrow> pool_step F (ws, st) (ws[j := w], st')"
| pool_close: "j < length ws \<Longrightarrow> pooledFlateWriter_Close F wr ((ws ! j, st), e) = (err, (w, st'), e')
    \<Longrightarrow> pool_step F (ws, st) (ws[j := w], st')"

definition pool_init :: "pooledFlateWriter list \<times> 'f flates \<Rightarrow> bool" where
  "pool_init s \<longleftrightarrow> fst s = [] \<and> (\<forall>i. fl_pools (snd s) i = [])"

text \<open>
  Every \<open>flate\<close> writer has one owner, a pool or an open pooled writer, and the level of the pool it
  belongs to.
\<close>

definition owned :: "('e, 'f) flate \<Rightarrow> 'f flates \<Rightarrow> nat \<Rightarrow> nat \<Rightarrow> bool" where
  "owned F st i a \<longleftrightarrow> a < fl_next st \<and> i < 12 \<and> flate_level F (fl_heap st a) = int i + HuffmanOnly"

definition pool_inv :: "('e, 'f) flate \<Rightarrow> pooledFlateWriter list \<times> 'f flates \<Rightarrow> bool" where
  "pool_inv F s \<longleftrightarrow> (case s of (ws, st) \<Rightarrow>
     (\<forall>i. distinct (fl_pools st i)) \<and>
     (\<forall>i j a. a \<in> set (fl_pools st i) \<longrightarrow> a \<in> set (fl_pools st j) \<longrightarrow> i = j) \<and>
     (\<forall>i j a. i < length ws \<longrightarrow> j < length ws \<longrightarrow> pw_fw (ws ! i) = Some a \<longrightarrow> pw_fw (ws ! j) = Some a
        \<longrightarrow> i = j) \<and>
     (\<forall>i j a. j < length ws \<longrightarrow> pw_fw (ws ! j) = Some a \<longrightarrow> a \<notin> set (fl_pools st i)) \<and>
     (\<forall>i a. a \<in> set (fl_pools st i) \<longrightarrow> owned F st i a) \<and>
     (\<forall>j a. j < length ws \<longrightarrow> pw_fw (ws ! j) = Some a \<longrightarrow> owned F st (pw_pool (ws ! j)) a))"

lemma pool_invD:
  assumes "pool_inv F (ws, st)"
  shows "distinct (fl_pools st i)"
    and "a \<in> set (fl_pools st i) \<Longrightarrow> a \<in> set (fl_pools st j) \<Longrightarrow> i = j"
    and "i < length ws \<Longrightarrow> j < length ws \<Longrightarrow> pw_fw (ws ! i) = Some a \<Longrightarrow> pw_fw (ws ! j) = Some a \<Longrightarrow> i = j"
    and "j < length ws \<Longrightarrow> pw_fw (ws ! j) = Some a \<Longrightarrow> a \<notin> set (fl_pools st i)"
    and "a \<in> set (fl_pools st i) \<Longrightarrow> owned F st i a"
    and "j < length ws \<Longrightarrow> pw_fw (ws ! j) = Some a \<Longrightarrow> owned F st (pw_pool (ws ! j)) a"
  using assms unfolding pool_inv_def prod.case by blast+

lemma pool_invI:
  assumes "\<And>i. distinct (fl_pools st i)"
    and "\<And>i j a. a \<in> set (fl_pools st i) \<Longrightarrow> a \<in> set (fl_pools st j) \<Longrightarrow> i = j"
    and "\<And>i j a. i < length ws \<Longrightarrow> j < length ws \<Longrightarrow> pw_fw (ws ! i) = Some a \<Longrightarrow> pw_fw (ws ! j) = Some a \<Longrightarrow> i = j"
    and "\<And>i j a. j < length ws \<Longrightarrow> pw_fw (ws ! j) = Some a \<Longrightarrow> a \<notin> set (fl_pools st i)"
    and "\<And>i a. a \<in> set (fl_pools st i) \<Longrightarrow> owned F st i a"
    and "\<And>j a. j < length ws \<Longrightarrow> pw_fw (ws ! j) = Some a \<Longrightarrow> owned F st (pw_pool (ws ! j)) a"
  shows "pool_inv F (ws, st)"
  using assms unfolding pool_inv_def prod.case by blast

lemma flate_okD:
  assumes "flate_ok F"
  shows "HuffmanOnly \<le> l \<Longrightarrow> l \<le> BestCompression \<Longrightarrow>
      \<exists>f. flate_NewWriter F l = Inr f \<and> flate_level F f = l"
    and "HuffmanOnly \<le> flate_level F f \<Longrightarrow> flate_level F f \<le> BestCompression \<Longrightarrow>
      flate_NewWriter F (flate_level F f) = Inr (flate_Reset F f)"
    and "flate_Write F wr (f, e) p = (n, err, f', e') \<Longrightarrow> flate_level F f' = flate_level F f"
    and "flate_Close F wr (f, e) = (err, f', e') \<Longrightarrow> flate_level F f' = flate_level F f"
  using assms unfolding flate_ok_def by blast+

lemma flate_Reset_level:
  assumes "flate_ok F" "HuffmanOnly \<le> flate_level F f" "flate_level F f \<le> BestCompression"
  shows "flate_level F (flate_Reset F f) = flate_level F f"
  using flate_okD(1) [OF assms] flate_okD(2) [OF assms] by auto

lemma pool_Get_cases:
  assumes "pool_Get k xs = (got, rest)"
  obtains "got = None" "rest = xs"
  | us a vs where "xs = us @ a # vs" "rest = us @ vs" "got = Some a"
proof (cases k)
  case None
  with assms that show ?thesis by (simp add: pool_Get_def)
next
  case (Some i)
  with assms that(1) that(2) [of "take i xs" "xs ! i" "drop (Suc i) xs"] show ?thesis
    by (auto simp: pool_Get_def id_take_nth_drop [symmetric] split: if_splits)
qed

lemma newFlateWriter_cases:
  assumes "newFlateWriter F k level st = (r, st')" "flate_ok F"
  obtains "level < HuffmanOnly \<or> BestCompression < level" "r = Inl (ErrLevel level)" "st' = st"
  | (reused) i us a vs where "HuffmanOnly \<le> level" "level \<le> BestCompression"
      "i = nat (level - HuffmanOnly)" "fl_pools st i = us @ a # vs" "r = Inr \<lparr>pw_fw = Some a, pw_pool = i\<rparr>"
      "st' = st\<lparr>fl_pools := (fl_pools st)(i := us @ vs),
          fl_heap := (fl_heap st)(a := flate_Reset F (fl_heap st a))\<rparr>"
  | (made) i f where "HuffmanOnly \<le> level" "level \<le> BestCompression"
      "i = nat (level - HuffmanOnly)" "flate_NewWriter F level = Inr f" "flate_level F f = level"
      "r = Inr \<lparr>pw_fw = Some (fl_next st), pw_pool = i\<rparr>"
      "st' = st\<lparr>fl_heap := (fl_heap st)(fl_next st := f), fl_next := Suc (fl_next st)\<rparr>"
proof (cases "level < HuffmanOnly \<or> BestCompression < level")
  case True
  with assms(1) that(1) show ?thesis by (simp add: newFlateWriter_def)
next
  case False
  define i where "i = nat (level - HuffmanOnly)"
  obtain got rest where g: "pool_Get k (fl_pools st i) = (got, rest)" by fastforce
  from False assms(2) obtain f where f: "flate_NewWriter F level = Inr f" "flate_level F f = level"
    using flate_okD(1) [of F level] by auto
  from g show ?thesis
  proof (cases rule: pool_Get_cases)
    case 1
    with False g f assms(1) that(3) [of i f] show ?thesis
      by (simp add: newFlateWriter_def Let_def flip: i_def)
  next
    case (2 us a vs)
    with False g assms(1) that(2) [of i us a vs] show ?thesis
      by (simp add: newFlateWriter_def Let_def flip: i_def)
  qed
qed


lemma pool_inv_init: "pool_init s \<Longrightarrow> pool_inv F s"
  by (cases s) (auto simp: pool_init_def pool_inv_def)

text \<open>The last writer of a list, or the one at position \<open>j\<close>, takes over the \<open>flate\<close> writer \<open>a\<close>.\<close>

lemma pool_inv_new:
  assumes "pool_inv F (ws, st)" "newFlateWriter F k level st = (Inr w, st')" "flate_ok F"
  shows "pool_inv F (ws @ [w], st')"
  using assms(2,3)
proof (cases rule: newFlateWriter_cases)
  case (reused i us a vs)
  note D = pool_invD [OF assms(1)]
  have ai: "a \<in> set (fl_pools st i)" and ad: "a \<notin> set us" "a \<notin> set vs"
    using D(1) [of i] reused(4) by auto
  from D(5) [OF ai] have lev: "owned F st i a" .
  then have lev': "owned F st' i a"
    using flate_Reset_level [OF assms(3), of "fl_heap st a"] reused by (simp add: owned_def)
  have other: "owned F st j b \<Longrightarrow> b \<noteq> a \<Longrightarrow> owned F st' j b" for j b
    using reused by (simp add: owned_def)
  have sub: "b \<in> set (fl_pools st' j) \<Longrightarrow> b \<in> set (fl_pools st j) \<and> b \<noteq> a" for b j
    using D(2) [OF ai, of j] ad reused by (auto split: if_splits)
  have wfw: "pw_fw w = Some a" "pw_pool w = i" using reused by simp_all
  have nw: "j < length ws \<Longrightarrow> pw_fw (ws ! j) = Some b \<Longrightarrow> b \<noteq> a" for j b
    using D(4) ai by blast
  show ?thesis
  proof (rule pool_invI)
    show "distinct (fl_pools st' j)" for j
      using D(1) [of j] D(1) [of i] reused by auto
    show "m = j" if "b \<in> set (fl_pools st' m)" "b \<in> set (fl_pools st' j)" for m j b
      using that sub D(2) by blast
    show "m = j" if "m < length (ws @ [w])" "j < length (ws @ [w])" "pw_fw ((ws @ [w]) ! m) = Some b"
      "pw_fw ((ws @ [w]) ! j) = Some b" for m j b
      using that D(3) [of m j b] nw wfw by (auto simp: nth_append less_Suc_eq split: if_splits)
    show "b \<notin> set (fl_pools st' m)" if "j < length (ws @ [w])" "pw_fw ((ws @ [w]) ! j) = Some b" for m j b
      using that D(4) [of j b m] sub [of b m] wfw by (auto simp: nth_append split: if_splits)
    show "owned F st' m b" if "b \<in> set (fl_pools st' m)" for m b
      using sub [OF that] D(5) other by blast
    show "owned F st' (pw_pool ((ws @ [w]) ! j)) b"
      if "j < length (ws @ [w])" "pw_fw ((ws @ [w]) ! j) = Some b" for j b
      using that D(6) [of j b] nw other lev' wfw by (auto simp: nth_append split: if_splits)
  qed
next
  case (made i f)
  note D = pool_invD [OF assms(1)]
  have lev': "owned F st' i (fl_next st)"
    using made by (simp add: owned_def HuffmanOnly_def BestCompression_def)
  have other: "owned F st j b \<Longrightarrow> owned F st' j b \<and> b \<noteq> fl_next st" for j b
    using made by (simp add: owned_def)
  have ps: "fl_pools st' = fl_pools st" using made by simp
  have wfw: "pw_fw w = Some (fl_next st)" "pw_pool w = i" using made by simp_all
  have nw: "j < length ws \<Longrightarrow> pw_fw (ws ! j) = Some b \<Longrightarrow> b \<noteq> fl_next st" for j b
    using D(6) other by blast
  show ?thesis
  proof (rule pool_invI)
    show "distinct (fl_pools st' j)" for j using D(1) ps by simp
    show "m = j" if "b \<in> set (fl_pools st' m)" "b \<in> set (fl_pools st' j)" for m j b
      using that ps D(2) by simp
    show "m = j" if "m < length (ws @ [w])" "j < length (ws @ [w])" "pw_fw ((ws @ [w]) ! m) = Some b"
      "pw_fw ((ws @ [w]) ! j) = Some b" for m j b
      using that D(3) [of m j b] nw wfw by (auto simp: nth_append less_Suc_eq split: if_splits)
    show "b \<notin> set (fl_pools st' m)" if "j < length (ws @ [w])" "pw_fw ((ws @ [w]) ! j) = Some b" for m j b
      using that D(4) [of j b m] D(5) [of b m] other wfw ps by (auto simp: nth_append split: if_splits)
    show "owned F st' m b" if "b \<in> set (fl_pools st' m)" for m b
      using D(5) other that ps by simp
    show "owned F st' (pw_pool ((ws @ [w]) ! j)) b"
      if "j < length (ws @ [w])" "pw_fw ((ws @ [w]) ! j) = Some b" for j b
      using that D(6) [of j b] other lev' wfw by (auto simp: nth_append split: if_splits)
  qed
qed simp

lemma newFlateWriter_err:
  assumes "newFlateWriter F k level st = (Inl err, st')" "flate_ok F"
  shows "st' = st \<and> err = ErrLevel level"
  using assms by (cases rule: newFlateWriter_cases) auto

lemma owned_heap:
  "owned F st i b \<Longrightarrow> flate_level F f = flate_level F (fl_heap st a) \<Longrightarrow>
     owned F (st\<lparr>fl_heap := (fl_heap st)(a := f)\<rparr>) i b"
  by (auto simp: owned_def)

lemma pool_inv_write:
  assumes "pool_inv F (ws, st)" "j < length ws" "flate_ok F"
    and "pooledFlateWriter_Write F wr ((ws ! j, st), e) p = (n, err, (w, st'), e')"
  shows "pool_inv F (ws[j := w], st')"
proof (cases "pw_fw (ws ! j)")
  case None
  with assms(4) have "w = ws ! j" "st' = st" by (auto simp: pooledFlateWriter_Write_def)
  with assms(1) show ?thesis by simp
next
  case (Some a)
  with assms(4) obtain f where f: "flate_Write F wr (fl_heap st a, e) p = (n, err, f, e')" "w = ws ! j"
    "st' = st\<lparr>fl_heap := (fl_heap st)(a := f)\<rparr>"
    by (auto simp: pooledFlateWriter_Write_def split: prod.splits)
  from flate_okD(3) [OF assms(3) f(1)] have "owned F st i b \<Longrightarrow> owned F st' i b" for i b
    using owned_heap [of F st i b f a] f(3) by simp
  moreover have "ws[j := w] = ws" "fl_pools st' = fl_pools st" using f by simp_all
  ultimately show ?thesis
    using pool_invD [OF assms(1)] by (intro pool_invI) simp_all
qed

lemma pool_inv_close:
  assumes "pool_inv F (ws, st)" "j < length ws" "flate_ok F"
    and "pooledFlateWriter_Close F wr ((ws ! j, st), e) = (err, (w, st'), e')"
  shows "pool_inv F (ws[j := w], st')"
proof (cases "pw_fw (ws ! j)")
  case None
  with assms(4) have "w = ws ! j" "st' = st" by (auto simp: pooledFlateWriter_Close_def)
  with assms(1) show ?thesis by simp
next
  case (Some a)
  note D = pool_invD [OF assms(1)]
  define i where "i = pw_pool (ws ! j)"
  from Some assms(4) obtain f where f: "flate_Close F wr (fl_heap st a, e) = (err, f, e')"
    "w = (ws ! j)\<lparr>pw_fw := None\<rparr>"
    "st' = st\<lparr>fl_heap := (fl_heap st)(a := f), fl_pools := (fl_pools st)(i := a # fl_pools st i)\<rparr>"
    by (auto simp: pooledFlateWriter_Close_def i_def split: prod.splits)
  have other: "owned F st m b \<Longrightarrow> owned F st' m b" for m b
    using flate_okD(4) [OF assms(3) f(1)] f(3) by (auto simp: owned_def)
  have out: "a \<notin> set (fl_pools st m)" for m using D(4) assms(2) Some by blast
  have mem: "b \<in> set (fl_pools st' m) \<longleftrightarrow> b \<in> set (fl_pools st m) \<or> b = a \<and> m = i" for b m
    using f(3) by auto
  have at: "pw_fw (ws[j := w] ! m) = Some b \<longleftrightarrow> m \<noteq> j \<and> pw_fw (ws ! m) = Some b" for m b
    using f(2) assms(2) by (cases "m = j") auto
  have own: "owned F st' i a" using D(6) [OF assms(2) Some] other by (simp add: i_def)
  show ?thesis
  proof (rule pool_invI)
    show "distinct (fl_pools st' m)" for m using D(1) [of m] D(1) [of i] out [of i] f(3) by simp
    show "m = k" if "b \<in> set (fl_pools st' m)" "b \<in> set (fl_pools st' k)" for m k b
      using that D(2) [of b m k] out [of m] out [of k] unfolding mem by (cases "b = a") simp_all
    show "m = k" if "m < length (ws[j := w])" "k < length (ws[j := w])"
      "pw_fw (ws[j := w] ! m) = Some b" "pw_fw (ws[j := w] ! k) = Some b" for m k b
      using that at D(3) by simp
    show "b \<notin> set (fl_pools st' m)" if "k < length (ws[j := w])" "pw_fw (ws[j := w] ! k) = Some b" for m k b
    proof -
      from that have k: "k < length ws" "k \<noteq> j" "pw_fw (ws ! k) = Some b" using at by simp_all
      then have "b \<noteq> a" using D(3) [OF k(1) assms(2)] Some by blast
      with k D(4) show ?thesis by (simp add: mem)
    qed
    show "owned F st' m b" if "b \<in> set (fl_pools st' m)" for m b
      using that mem other own D(5) by blast
    show "owned F st' (pw_pool (ws[j := w] ! k)) b"
      if "k < length (ws[j := w])" "pw_fw (ws[j := w] ! k) = Some b" for k b
      using that at other D(6) by simp
  qed
qed

lemma pool_step_inv:
  "pool_step F s s' \<Longrightarrow> flate_ok F \<Longrightarrow> pool_inv F s \<Longrightarrow> pool_inv F s'"
proof (induction rule: pool_step.induct)
  case (pool_new k level st w st' ws)
  then show ?case by (metis pool_inv_new)
next
  case (pool_new_err k level st err st' ws)
  then show ?case using newFlateWriter_err by blast
next
  case (pool_write j ws wr st e p n err w st' e')
  then show ?case by (metis pool_inv_write)
next
  case (pool_close j ws wr st e err w st' e')
  then show ?case by (metis pool_inv_close)
qed

lemma pool_reachable_inv:
  assumes "(pool_step F)\<^sup>*\<^sup>* s s'" "pool_init s" "flate_ok F"
  shows "pool_inv F s'"
  using assms(1) by (induction rule: rtranclp_induct) (auto intro: pool_inv_init pool_step_inv assms)


text \<open>
  C22. No two goroutines ever share a \<open>flate\<close> writer through the pools: in every reachable state the
  open pooled writers hold different \<open>flate\<close> writers, no pool holds a writer that is in use, and no
  writer is in a pool twice or in two pools.
\<close>

theorem pool_exclusive:
  assumes "(pool_step F)\<^sup>*\<^sup>* s (ws, st)" and "pool_init s" and "flate_ok F"
  shows "(\<forall>i<length ws. \<forall>j<length ws. i \<noteq> j \<longrightarrow> pw_fw (ws ! i) \<noteq> None \<longrightarrow> pw_fw (ws ! i) \<noteq> pw_fw (ws ! j))
    \<and> (\<forall>i<length ws. \<forall>p a. pw_fw (ws ! i) = Some a \<longrightarrow> a \<notin> set (fl_pools st p))
    \<and> (\<forall>p. distinct (fl_pools st p)) \<and> (\<forall>p q. p \<noteq> q \<longrightarrow> set (fl_pools st p) \<inter> set (fl_pools st q) = {})"
proof -
  note D = pool_invD [OF pool_reachable_inv [OF assms]]
  have "pw_fw (ws ! i) \<noteq> pw_fw (ws ! j)"
    if "i < length ws" "j < length ws" "i \<noteq> j" "pw_fw (ws ! i) \<noteq> None" for i j
    using that D(3) [of i j] by (cases "pw_fw (ws ! i)") auto
  with D(1,2,4) show ?thesis by (intro conjI) (blast | metis disjoint_iff)+
qed

lemma newFlateWriter_starts:
  assumes "(pool_step F)\<^sup>*\<^sup>* s (ws, st)" and "pool_init s" and "flate_ok F"
    and "newFlateWriter F k level st = (r, st')"
  shows "if HuffmanOnly \<le> level \<and> level \<le> BestCompression
    then \<exists>w a. r = Inr w \<and> pw_fw w = Some a \<and> flate_NewWriter F level = Inr (fl_heap st' a)
      \<and> (\<forall>j<length ws. \<forall>b. pw_fw (ws ! j) = Some b \<longrightarrow> fl_heap st' b = fl_heap st b)
    else r = Inl (ErrLevel level) \<and> st' = st"
  using assms(4,3)
proof (cases rule: newFlateWriter_cases)
  case (reused i us a vs)
  note D = pool_invD [OF pool_reachable_inv [OF assms(1-3)]]
  have ai: "a \<in> set (fl_pools st i)" using reused by simp
  from D(5) [OF ai] reused have "flate_level F (fl_heap st a) = level" by (simp add: owned_def)
  with flate_okD(2) [OF assms(3), of "fl_heap st a"] reused
  have "flate_NewWriter F level = Inr (fl_heap st' a)" by simp
  moreover have "fl_heap st' b = fl_heap st b" if "j < length ws" "pw_fw (ws ! j) = Some b" for j b
    using D(4) [OF that, of i] ai reused(6) by (cases "b = a") auto
  ultimately show ?thesis using reused by auto
next
  case (made i f)
  note D = pool_invD [OF pool_reachable_inv [OF assms(1-3)]]
  have "fl_heap st' b = fl_heap st b" if "j < length ws" "pw_fw (ws ! j) = Some b" for j b
    using D(6) [OF that] made by (auto simp: owned_def)
  then show ?thesis using made by auto
qed auto

text \<open>
  C23. Pooling is invisible. In every reachable state, whatever the pool hands out, \<open>newFlateWriter\<close>
  at a level in range returns a writer equivalent to a new one of that level and leaves the writers
  in use untouched; a level out of range is refused.
\<close>

theorem newFlateWriter_fresh:
  assumes "(pool_step F)\<^sup>*\<^sup>* s (ws, st)" and "pool_init s" and "flate_ok F"
    and "newFlateWriter F k level st = (r, st')"
  shows "if HuffmanOnly \<le> level \<and> level \<le> BestCompression
    then \<exists>w a. r = Inr w \<and> pw_fw w = Some a \<and> flate_NewWriter F level = Inr (fl_heap st' a)
      \<and> (\<forall>j<length ws. \<forall>b. pw_fw (ws ! j) = Some b \<longrightarrow> fl_heap st' b = fl_heap st b)
    else r = Inl (ErrLevel level) \<and> st' = st"
  by (rule newFlateWriter_starts [OF assms])

text \<open>A closed pooled writer refuses further writes, and closing it again does nothing.\<close>

lemma pooledFlateWriter_closed:
  assumes "pooledFlateWriter_Close F wr ((w, st), e) = (err, (w', st'), e')"
  shows "pooledFlateWriter_Write F wr ((w', st''), e'') p = (0, Some ErrWriteAfterClose, (w', st''), e'')
    \<and> pooledFlateWriter_Close F wr ((w', st''), e'') = (None, (w', st''), e'')"
  using assms
  by (auto simp: pooledFlateWriter_Close_def pooledFlateWriter_Write_def split: option.splits prod.splits)

text \<open>A \<open>flate\<close> package that copies, for the examples: a writer is its level.\<close>

definition copy_flate :: "('e, int) flate" where
  "copy_flate = \<lparr>
     flate_NewWriter = (\<lambda>l. if HuffmanOnly \<le> l \<and> l \<le> BestCompression then Inr l else Inl (ErrLevel l)),
     flate_Reset = (\<lambda>f. f),
     flate_Write = (\<lambda>wr (f, e) p. case wr e p of (n, err, e) \<Rightarrow> (n, err, f, e)),
     flate_Close = (\<lambda>wr (f, e). (None, f, e)),
     flate_level = (\<lambda>f. f)\<rparr>"

lemma copy_flate_ok: "flate_ok copy_flate"
  by (auto simp: flate_ok_def copy_flate_def split: prod.splits)

text \<open>A writer is made, closed, and made again: the second time it comes from the pool.\<close>

definition reuse_pools :: "int flates" where
  "reuse_pools = \<lparr>fl_heap = (\<lambda>a. if a = 0 then 9 else 0), fl_next = 1, fl_pools = (\<lambda>i. if i = 11 then [0] else [])\<rparr>"

lemma reuse_reachable:
  "\<exists>s. (pool_step (copy_flate :: (sink, int) flate))\<^sup>*\<^sup>* s ([\<lparr>pw_fw = None, pw_pool = 11\<rparr>], reuse_pools) \<and> pool_init s"
proof -
  let ?F = "copy_flate :: (sink, int) flate"
  let ?s0 = "\<lparr>fl_heap = (\<lambda>_. 0), fl_next = 0, fl_pools = (\<lambda>_. [])\<rparr> :: int flates"
  let ?s1 = "\<lparr>fl_heap = (\<lambda>_. 0)(0 := 9), fl_next = 1, fl_pools = (\<lambda>_. [])\<rparr> :: int flates"
  let ?w = "\<lparr>pw_fw = Some 0, pw_pool = 11\<rparr>"
  have "(\<lambda>_. [])(11 := []) = (\<lambda>_ :: nat. [] :: nat list)" by auto
  then have "newFlateWriter ?F None 9 ?s0 = (Inr ?w, ?s1)"
    by (simp add: newFlateWriter_def copy_flate_def pool_Get_def HuffmanOnly_def BestCompression_def)
  then have a: "pool_step ?F ([], ?s0) ([?w], ?s1)" using pool_new [of ?F None 9 ?s0 ?w ?s1 "[]"] by simp
  have "pooledFlateWriter_Close ?F sink_write (([?w] ! 0, ?s1), empty_sink)
      = (None, (\<lparr>pw_fw = None, pw_pool = 11\<rparr>, reuse_pools), empty_sink)"
    by (auto simp: pooledFlateWriter_Close_def copy_flate_def reuse_pools_def)
  then have b: "pool_step ?F ([?w], ?s1) ([\<lparr>pw_fw = None, pw_pool = 11\<rparr>], reuse_pools)"
    using pool_close [of 0 "[?w]" ?F sink_write ?s1 empty_sink None _ reuse_pools empty_sink] by simp
  have "pool_init ([], ?s0)" by (simp add: pool_init_def)
  with a b show ?thesis by (blast intro: rtranclp.intros)
qed

lemma pool_exclusive_witness:
  "distinct (fl_pools reuse_pools 11)"
  using pool_exclusive [OF _ _ copy_flate_ok] reuse_reachable by blast

lemma newFlateWriter_fresh_witness:
  "\<exists>w st' a. newFlateWriter (copy_flate :: (sink, int) flate) (Some 0) 9 reuse_pools = (Inr w, st') \<and> pw_fw w = Some a
     \<and> fl_heap st' a = 9"
proof -
  obtain s where s: "(pool_step (copy_flate :: (sink, int) flate))\<^sup>*\<^sup>* s ([\<lparr>pw_fw = None, pw_pool = 11\<rparr>], reuse_pools)" "pool_init s"
    using reuse_reachable by blast
  obtain r st' where r: "newFlateWriter (copy_flate :: (sink, int) flate) (Some 0) 9 reuse_pools = (r, st')" by fastforce
  have "flate_NewWriter (copy_flate :: (sink, int) flate) 9 = Inr 9"
    by (simp add: copy_flate_def HuffmanOnly_def BestCompression_def)
  with newFlateWriter_fresh [OF s copy_flate_ok r] r show ?thesis
    by (auto simp: HuffmanOnly_def BestCompression_def)
qed

section \<open>Pooled \<open>flate\<close> writers as compressors\<close>

definition raw_flate :: "('e, 'f) flate \<Rightarrow> int \<Rightarrow> ('e, 'f) compressor" where
  "raw_flate F level = \<lparr>cz_new = (\<lambda>e. (flate_NewWriter F level, e)),
     cz_Write = flate_Write F, cz_Close = flate_Close F\<rparr>"

definition flate_compressor ::
  "('e, 'f) flate \<Rightarrow> nat option \<Rightarrow> 'f flates \<Rightarrow> int \<Rightarrow> ('e, pooledFlateWriter \<times> 'f flates) compressor" where
  "flate_compressor F k st level = \<lparr>
     cz_new = (\<lambda>e. case newFlateWriter F k level st of
        (Inl err, st) \<Rightarrow> (Inl err, e) | (Inr w, st) \<Rightarrow> (Inr (w, st), e)),
     cz_Write = pooledFlateWriter_Write F,
     cz_Close = pooledFlateWriter_Close F\<rparr>"


lemma pooled_accepting:
  fixes F :: "('e, 'f) flate"
  assumes "accepting (flate_Write F wr) crel cgood"
  shows "accepting (pooledFlateWriter_Write F wr)
    (\<lambda>s acc. \<exists>a. pw_fw (fst (fst s)) = Some a \<and> crel (fl_heap (snd (fst s)) a, snd s) acc)
    (\<lambda>s. \<exists>a. pw_fw (fst (fst s)) = Some a \<and> cgood (fl_heap (snd (fst s)) a, snd s))"
proof (rule acceptingI)
  fix s :: "(pooledFlateWriter \<times> 'f flates) \<times> 'e" and acc p n e s'
  assume "\<exists>a. pw_fw (fst (fst s)) = Some a \<and> crel (fl_heap (snd (fst s)) a, snd s) acc"
    and w: "pooledFlateWriter_Write F wr s p = (n, e, s')"
  then obtain w st x a where s: "s = ((w, st), x)" "pw_fw w = Some a" "crel (fl_heap st a, x) acc"
    by (cases s) auto
  obtain m err f x' where f: "flate_Write F wr (fl_heap st a, x) p = (m, err, f, x')"
    by (metis prod_cases4)
  with w s have "n = m" "e = err" "s' = ((w, st\<lparr>fl_heap := (fl_heap st)(a := f)\<rparr>), x')"
    by (auto simp: pooledFlateWriter_Write_def)
  with accepting.accept_any [OF assms s(3) f] s(1,2)
  show "(e = None \<longrightarrow> n = length p \<and> (\<exists>a. pw_fw (fst (fst s')) = Some a
        \<and> crel (fl_heap (snd (fst s')) a, snd s') (acc @ p)))
    \<and> ((\<exists>a. pw_fw (fst (fst s)) = Some a \<and> cgood (fl_heap (snd (fst s)) a, snd s)) \<longrightarrow>
       e = None \<and> (\<exists>a. pw_fw (fst (fst s')) = Some a \<and> cgood (fl_heap (snd (fst s')) a, snd s')))"
    by auto
qed

text \<open>
  C24. A pooled \<open>flate\<close> writer is as good a compressor as the \<open>flate\<close> writer it wraps, in every
  reachable state of the pools and for every choice of the pool.
\<close>

theorem flate_compressor_ok:
  fixes F :: "('e, 'f) flate"
  assumes "(pool_step F)\<^sup>*\<^sup>* s (ws, st)" and "pool_init s" and "flate_ok F"
    and "HuffmanOnly \<le> level" and "level \<le> BestCompression"
    and "comp_ok (raw_flate F level) codes"
  shows "comp_ok (flate_compressor F k st level) codes"
proof -
  obtain r st' where "newFlateWriter F k level st = (r, st')" by fastforce
  with newFlateWriter_starts [OF assms(1-3), of k level] assms(4,5) obtain w a where
    n: "newFlateWriter F k level st = (Inr w, st')" "pw_fw w = Some a"
    "flate_NewWriter F level = Inr (fl_heap st' a)" by auto
  show ?thesis
  proof (rule comp_okI)
    show "cz_new (flate_compressor F k st level) e = (Inr (w, st'), e)" for e
      by (simp add: flate_compressor_def n)
    fix wr :: "'e write_fn" and rel good
    assume acc: "accepting wr rel good"
    from assms(6) [unfolded comp_ok_def] acc obtain crel cgood where
      cr: "accepting (cz_Write (raw_flate F level) wr) crel cgood"
      "\<forall>e c. cz_new (raw_flate F level) e = (Inr c, e) \<longrightarrow> rel e [] \<longrightarrow> crel (c, e) [] \<and> (good e \<longrightarrow> cgood (c, e))"
      "\<forall>s acc. crel s acc \<longrightarrow> cgood s \<longrightarrow> (\<exists>s' enc. cz_Close (raw_flate F level) wr s = (None, s')
         \<and> good (snd s') \<and> rel (snd s') enc \<and> codes enc acc)"
      by (elim conjE) (drule spec [of _ wr], drule spec [of _ rel], drule spec [of _ good], auto)
    let ?rel = "\<lambda>s acc. \<exists>a. pw_fw (fst (fst s)) = Some a \<and> crel (fl_heap (snd (fst s)) a, snd s) acc"
    let ?good = "\<lambda>s. \<exists>a. pw_fw (fst (fst s)) = Some a \<and> cgood (fl_heap (snd (fst s)) a, snd s)"
    have "accepting (cz_Write (flate_compressor F k st level) wr) ?rel ?good"
      using pooled_accepting [of F wr crel cgood] cr(1) by (simp add: flate_compressor_def raw_flate_def)
    moreover have "?rel ((w, st'), e) [] \<and> (good e \<longrightarrow> ?good ((w, st'), e))" if "rel e []" for e
      using cr(2) that n by (simp add: raw_flate_def)
    moreover have "\<exists>x' enc. cz_Close (flate_compressor F k st level) wr x = (None, x') \<and> good (snd x')
        \<and> rel (snd x') enc \<and> codes enc acc" if x: "?rel x acc" "?good x" for x acc
    proof -
      obtain v t e where x': "x = ((v, t), e)" by (metis prod.collapse)
      from x obtain b where b: "pw_fw v = Some b" "crel (fl_heap t b, e) acc" "cgood (fl_heap t b, e)"
        by (auto simp: x')
      from cr(3) b obtain f' e' enc where "flate_Close F wr (fl_heap t b, e) = (None, f', e')" "good e'"
        "rel e' enc" "codes enc acc" by (force simp: raw_flate_def)
      with b(1) show ?thesis by (auto simp: x' flate_compressor_def pooledFlateWriter_Close_def)
    qed
    ultimately show "\<exists>crel cgood. accepting (cz_Write (flate_compressor F k st level) wr) crel cgood \<and>
           (\<forall>e. rel e [] \<longrightarrow> crel ((w, st'), e) [] \<and> (good e \<longrightarrow> cgood ((w, st'), e))) \<and>
           (\<forall>s acc. crel s acc \<longrightarrow> cgood s \<longrightarrow>
              (\<exists>s' enc. cz_Close (flate_compressor F k st level) wr s = (None, s') \<and> good (snd s')
                 \<and> rel (snd s') enc \<and> codes enc acc))" by blast
  qed
qed

lemma copy_flate_comp_ok:
  "HuffmanOnly \<le> l \<Longrightarrow> l \<le> BestCompression \<Longrightarrow> comp_ok (raw_flate copy_flate l) (=)"
proof (rule comp_okI)
  assume l: "HuffmanOnly \<le> l" "l \<le> BestCompression"
  show "cz_new (raw_flate copy_flate l) e = (Inr l, e)" for e
    using l by (simp add: raw_flate_def copy_flate_def)
  show "\<exists>crel cgood. accepting (cz_Write (raw_flate copy_flate l) wr) crel cgood \<and>
           (\<forall>e. rel e [] \<longrightarrow> crel (l, e) [] \<and> (good e \<longrightarrow> cgood (l, e))) \<and>
           (\<forall>s acc. crel s acc \<longrightarrow> cgood s \<longrightarrow>
              (\<exists>s' enc. cz_Close (raw_flate copy_flate l) wr s = (None, s') \<and> good (snd s')
                 \<and> rel (snd s') enc \<and> enc = acc))"
    if "accepting wr rel good" for wr :: "'a write_fn" and rel good
  proof -
    have "accepting (cz_Write (raw_flate copy_flate l) wr) (\<lambda>s. rel (snd s)) (\<lambda>s. good (snd s))"
      by (rule acceptingI)
         (auto simp: raw_flate_def copy_flate_def split: prod.splits dest: accepting.accept_any [OF that])
    then show ?thesis by (rule_tac exI, rule_tac exI) (auto simp: raw_flate_def copy_flate_def)
  qed
qed

lemma flate_compressor_ok_witness:
  "comp_ok (flate_compressor (copy_flate :: (sink, int) flate) (Some 0) reuse_pools 9) (=)"
  using reuse_reachable flate_compressor_ok [OF _ _ copy_flate_ok _ _ copy_flate_comp_ok]
  by (force simp: HuffmanOnly_def BestCompression_def)

section \<open>Decompressors\<close>

text \<open>
  A \<open>Decompressor\<close>: \<open>dz_new\<close> wraps a reader, \<open>dz_Read\<close> and \<open>dz_Close\<close> are the methods of the
  \<open>io.ReadCloser\<close> it returns. The state of the wrapped reader is passed along.
\<close>

record ('s, 'd) decompressor =
  dz_new :: "'s read_fn \<Rightarrow> 's \<Rightarrow> ('d \<times> 's) option"
  dz_Read :: "'s read_fn \<Rightarrow> ('d \<times> 's) read_fn"
  dz_Close :: "'d \<times> 's \<Rightarrow> zip_error option \<times> 'd \<times> 's"

text \<open>
  What the package relies on: over a source, the decompressor is a source; if the source is an
  encoding followed by \<open>io.EOF\<close>, it is the decoded bytes followed by \<open>io.EOF\<close>.
\<close>

definition decomp_ok :: "('s, 'd) decompressor \<Rightarrow> (byte list \<Rightarrow> byte list \<Rightarrow> bool) \<Rightarrow> bool" where
  "decomp_ok D codes \<longleftrightarrow>
     (\<forall>rd inv stream fin rank s. io_reader rd inv stream fin rank \<longrightarrow> inv s \<longrightarrow>
        (\<exists>d s' dinv dstream dfin drank. dz_new D rd s = Some (d, s')
           \<and> io_reader (dz_Read D rd) dinv dstream dfin drank \<and> dinv (d, s')
           \<and> (\<forall>plain. codes (stream s) plain \<longrightarrow> fin s = ErrEOF \<longrightarrow>
                dstream (d, s') = plain \<and> dfin (d, s') = ErrEOF)))"

datatype 'd comp_reader = NopReader | CustomReader 'd

text \<open>\<open>io.NopCloser\<close>, the decompressor of the \<open>Store\<close> method.\<close>

definition nop_decompressor :: "('s, 'd comp_reader) decompressor" where
  "nop_decompressor = \<lparr>
     dz_new = (\<lambda>rd s. Some (NopReader, s)),
     dz_Read = (\<lambda>rd (d, s) n. do { (b, e, s) \<leftarrow> rd s n; Some (b, e, d, s) }),
     dz_Close = (\<lambda>(d, s). (None, d, s))\<rparr>"

definition custom_decompressor :: "('s, 'd) decompressor \<Rightarrow> ('s, 'd comp_reader) decompressor" where
  "custom_decompressor D = \<lparr>
     dz_new = (\<lambda>rd s. do { (d, s) \<leftarrow> dz_new D rd s; Some (CustomReader d, s) }),
     dz_Read = (\<lambda>rd (d, s) n. case d of
        NopReader \<Rightarrow> Some ([], Some GoPanic, d, s)
      | CustomReader d \<Rightarrow> do { (b, e, d, s) \<leftarrow> dz_Read D rd (d, s) n; Some (b, e, CustomReader d, s) }),
     dz_Close = (\<lambda>(d, s). case d of
        NopReader \<Rightarrow> (Some GoPanic, d, s)
      | CustomReader d \<Rightarrow> (case dz_Close D (d, s) of (e, d, s) \<Rightarrow> (e, CustomReader d, s)))\<rparr>"

type_synonym ('s, 'd) decompressors = "u16 \<rightharpoonup> ('s, 'd) decompressor"

definition RegisterDecompressor ::
  "u16 \<Rightarrow> ('s, 'd) decompressor \<Rightarrow> ('s, 'd) decompressors \<Rightarrow> ('s, 'd) decompressors result" where
  "RegisterDecompressor mtd d m = (if mtd \<in> dom m then Inl GoPanic else Inr (m(mtd \<mapsto> d)))"

definition decompressor ::
  "('s, 'd) decompressor \<Rightarrow> ('s, 'd) decompressors \<Rightarrow> u16 \<Rightarrow> ('s, 'd comp_reader) decompressor option"
where
  "decompressor flate m mtd =
     (if mtd = Store then Some nop_decompressor
      else if mtd = Deflate then Some (custom_decompressor flate)
      else map_option custom_decompressor (m mtd))"

text \<open>A reader renamed along a bijection of its states is the same reader.\<close>

lemma io_reader_map:
  assumes "io_reader rd J stream fin rank"
    and "\<And>t n. I t \<Longrightarrow> rd' t n = map_option (\<lambda>(b, e, s). (b, e, g s)) (rd (f t) n)"
    and "\<And>t. I t \<Longrightarrow> J (f t)" and "\<And>s. I (g s) \<longleftrightarrow> J s" and "\<And>s. f (g s) = s"
  shows "io_reader rd' I (\<lambda>t. stream (f t)) (\<lambda>t. fin (f t)) (\<lambda>t. rank (f t))"
proof -
  note R = io_reader.read_returns [OF assms(1)] io_reader.read_law [OF assms(1)]
    io_reader.read_end [OF assms(1)] io_reader.read_more [OF assms(1)]
  have step: "\<exists>s. rd (f t) n = Some (b, e, s) \<and> t' = g s" if "I t" "rd' t n = Some (b, e, t')" for t n b e t'
    using that assms(2) [OF that(1), of n] by auto
  show ?thesis
  proof (unfold_locales, goal_cases)
    case (1 t n)
    then show ?case using R(1) [of "f t" n] assms(2,3) by fastforce
  next
    case (2 t n b e t')
    with step obtain s where s: "rd (f t) n = Some (b, e, s)" "t' = g s" by blast
    from R(2) [OF assms(3) [OF 2(1)] 2(2) s(1)] show ?case using assms(4,5) s(2) by simp
  next
    case (3 t n b err t')
    with step obtain s where s: "rd (f t) n = Some (b, Some err, s)" "t' = g s" by blast
    from R(3) [OF assms(3) [OF 3(1)] 3(2) s(1)] show ?case using assms(5) s(2) by simp
  next
    case (4 t n b t')
    with step obtain s where s: "rd (f t) n = Some (b, None, s)" "t' = g s" by blast
    from R(4) [OF assms(3) [OF 4(1)] 4(2) s(1)] show ?case using assms(5) s(2) by simp
  qed
qed

context io_reader
begin

lemma nop_reader:
  "io_reader (dz_Read nop_decompressor rd) (\<lambda>t. fst t = NopReader \<and> inv (snd t))
     (\<lambda>t. stream (snd t)) (\<lambda>t. fin (snd t)) (\<lambda>t. rank (snd t))"
  by (rule io_reader_map [where g = "Pair NopReader", OF io_reader_axioms])
     (auto simp: nop_decompressor_def bind_eq_Some_conv map_option_case split: option.splits)

end

lemma custom_reader:
  assumes "io_reader (dz_Read D rd) J stream fin rank"
  shows "io_reader (dz_Read (custom_decompressor D) rd)
     (\<lambda>t. \<exists>d. fst t = CustomReader d \<and> J (d, snd t))
     (\<lambda>t. stream (case fst t of CustomReader d \<Rightarrow> (d, snd t)))
     (\<lambda>t. fin (case fst t of CustomReader d \<Rightarrow> (d, snd t)))
     (\<lambda>t. rank (case fst t of CustomReader d \<Rightarrow> (d, snd t)))"
  by (rule io_reader_map [where g = "\<lambda>(d, s). (CustomReader d, s)", OF assms])
     (auto simp: custom_decompressor_def bind_eq_Some_conv map_option_case split: option.splits)

lemma nop_decompressor_ok: "decomp_ok nop_decompressor (=)"
  unfolding decomp_ok_def
proof (intro allI impI)
  fix rd :: "'a read_fn" and inv stream fin rank s
  assume r: "io_reader rd inv stream fin rank" "inv s"
  have "dz_new nop_decompressor rd s = Some (NopReader, s)" by (simp add: nop_decompressor_def)
  with io_reader.nop_reader [OF r(1)] r(2) show "\<exists>d s' dinv dstream dfin drank.
     dz_new nop_decompressor rd s = Some (d, s') \<and> io_reader (dz_Read nop_decompressor rd) dinv dstream dfin drank
     \<and> dinv (d, s') \<and> (\<forall>plain. stream s = plain \<longrightarrow> fin s = ErrEOF \<longrightarrow>
                dstream (d, s') = plain \<and> dfin (d, s') = ErrEOF)"
    by (intro exI conjI) (assumption | simp)+
qed

lemma custom_decompressor_ok:
  assumes "decomp_ok D codes"
  shows "decomp_ok (custom_decompressor D) codes"
  unfolding decomp_ok_def
proof (intro allI impI)
  fix rd :: "'a read_fn" and inv stream fin rank s
  assume r: "io_reader rd inv stream fin rank" "inv s"
  obtain d s' dinv dstream dfin drank where d: "dz_new D rd s = Some (d, s')"
    "io_reader (dz_Read D rd) dinv dstream dfin drank" "dinv (d, s')"
    "\<forall>plain. codes (stream s) plain \<longrightarrow> fin s = ErrEOF \<longrightarrow> dstream (d, s') = plain \<and> dfin (d, s') = ErrEOF"
    using assms [unfolded decomp_ok_def, rule_format, OF r] by auto
  then have "dz_new (custom_decompressor D) rd s = Some (CustomReader d, s')"
    by (simp add: custom_decompressor_def)
  with custom_reader [OF d(2)] d(3,4) show "\<exists>d s' dinv dstream dfin drank.
     dz_new (custom_decompressor D) rd s = Some (d, s')
     \<and> io_reader (dz_Read (custom_decompressor D) rd) dinv dstream dfin drank
     \<and> dinv (d, s') \<and> (\<forall>plain. codes (stream s) plain \<longrightarrow> fin s = ErrEOF \<longrightarrow>
                dstream (d, s') = plain \<and> dfin (d, s') = ErrEOF)"
    by (intro exI conjI) (assumption | simp)+
qed

lemma decompressor_ok:
  assumes "decompressor flate m mtd = Some D"
    and "decomp_ok flate (codec Deflate)"
    and "\<And>D. m mtd = Some D \<Longrightarrow> decomp_ok D (codec mtd)" and "codec Store = (=)"
  shows "decomp_ok D (codec mtd)"
  using assms nop_decompressor_ok custom_decompressor_ok
  by (auto simp: decompressor_def split: if_splits)

section \<open>The pool of \<open>flate\<close> readers\<close>

record ('s, 'd) inflate =
  inflate_NewReader :: 'd
  inflate_Reset :: "'d \<Rightarrow> 'd"
  inflate_Read :: "'s read_fn \<Rightarrow> ('d \<times> 's) read_fn"
  inflate_Close :: "'d \<times> 's \<Rightarrow> zip_error option \<times> 'd \<times> 's"

record 'd flate_readers =
  fr_heap :: "nat \<Rightarrow> 'd"
  fr_next :: nat
  fr_pool :: "nat list"

record pooledFlateReader =
  pr_fr :: "nat option"

definition newFlateReader ::
  "('s, 'd) inflate \<Rightarrow> nat option \<Rightarrow> 'd flate_readers \<Rightarrow> pooledFlateReader \<times> 'd flate_readers" where
  "newFlateReader F k st = (case pool_Get k (fr_pool st) of (got, rest) \<Rightarrow>
     let st = st\<lparr>fr_pool := rest\<rparr> in
     (case got of
        Some a \<Rightarrow> (\<lparr>pr_fr = Some a\<rparr>, st\<lparr>fr_heap := (fr_heap st)(a := inflate_Reset F (fr_heap st a))\<rparr>)
      | None \<Rightarrow> (\<lparr>pr_fr = Some (fr_next st)\<rparr>,
          st\<lparr>fr_heap := (fr_heap st)(fr_next st := inflate_NewReader F), fr_next := Suc (fr_next st)\<rparr>)))"

definition pooledFlateReader_Read ::
  "('s, 'd) inflate \<Rightarrow> 's read_fn \<Rightarrow> ((pooledFlateReader \<times> 'd flate_readers) \<times> 's) read_fn" where
  "pooledFlateReader_Read F rd t n = (case t of ((r, st), s) \<Rightarrow>
     (case pr_fr r of
        None \<Rightarrow> Some ([], Some ErrReadAfterClose, t)
      | Some a \<Rightarrow> do {
          (b, err, d, s) \<leftarrow> inflate_Read F rd (fr_heap st a, s) n;
          Some (b, err, (r, st\<lparr>fr_heap := (fr_heap st)(a := d)\<rparr>), s) }))"

definition pooledFlateReader_Close ::
  "('s, 'd) inflate \<Rightarrow> (pooledFlateReader \<times> 'd flate_readers) \<times> 's
     \<Rightarrow> zip_error option \<times> (pooledFlateReader \<times> 'd flate_readers) \<times> 's" where
  "pooledFlateReader_Close F t = (case t of ((r, st), s) \<Rightarrow>
     (case pr_fr r of
        None \<Rightarrow> (None, t)
      | Some a \<Rightarrow> (case inflate_Close F (fr_heap st a, s) of (err, d, s) \<Rightarrow>
          (err, (r\<lparr>pr_fr := None\<rparr>,
            st\<lparr>fr_heap := (fr_heap st)(a := d), fr_pool := a # fr_pool st\<rparr>), s))))"

text \<open>
  \<open>Reset\<close> makes a reader as good as new, so the pool is invisible: a reader made by \<open>newFlateReader\<close>
  is a new one, whatever the pool hands out.
\<close>

lemma newFlateReader_fresh:
  assumes "\<forall>d. inflate_Reset F d = inflate_NewReader F" "newFlateReader F k st = (r, st')"
  shows "\<exists>a. pr_fr r = Some a \<and> fr_heap st' a = inflate_NewReader F"
  using assms by (auto simp: newFlateReader_def Let_def split: prod.splits option.splits)

lemma pooledFlateReader_closed:
  assumes "pooledFlateReader_Close F ((r, st), s) = (err, (r', st'), s')"
  shows "pooledFlateReader_Read F rd ((r', st''), s'') n = Some ([], Some ErrReadAfterClose, (r', st''), s'')
    \<and> pooledFlateReader_Close F ((r', st''), s'') = (None, (r', st''), s'')"
  using assms
  by (auto simp: pooledFlateReader_Close_def pooledFlateReader_Read_def split: option.splits prod.splits)

end
