(* ===== verification/Zip_FileWriter.thy ===== *)
theory Zip_FileWriter
  imports Zip_Directory Zip_CryptoStream Zip_AES Zip_Register
begin

text \<open>
  The \<open>fileWriter\<close> of writer.go: the pipeline an entry's contents go through (checksums, compressor,
  encryption, count) and the data descriptor that closes the entry.

  The writers of the pipeline own what they wrap, from the compressor down to \<open>zipw\<close>; the methods
  take the \<open>FileHeader\<close> the Go \<open>fileWriter\<close> points to and return it updated.
\<close>

section \<open>\<open>hash/crc32\<close>\<close>

text \<open>\<open>crc32.NewIEEE()\<close>: \<open>Write\<close> is \<open>crc32.Update\<close>, the sum is the state.\<close>

definition crc32_Write :: "u32 \<Rightarrow> byte list \<Rightarrow> u32" where
  "crc32_Write c p = NOT (foldl crc32update (NOT c) p)"

definition crc32 :: "byte list \<Rightarrow> u32" where "crc32 p = crc32_Write 0 p"

lemma crc32_Write_append [simp]: "crc32_Write (crc32_Write c p) q = crc32_Write c (p @ q)"
  by (simp add: crc32_Write_def)

lemma crc32_Write_Nil [simp]: "crc32_Write c [] = c"
  by (simp add: crc32_Write_def)

section \<open>The encryption layer\<close>

text \<open>
  The writer \<open>sw\<close> below the compressor: the counting writer itself or an encrypting writer over it,
  with the block cipher and the \<open>hmac\<close> key of its methods for AES.
\<close>

datatype 'z encw =
    Plain "'z countWriter"
  | ZipC "'z countWriter zipCryptoWriter"
  | Aes "byte list \<Rightarrow> byte list" "byte list" "'z countWriter encryptionWriter"

fun compCount :: "'z encw \<Rightarrow> 'z countWriter" where
  "compCount (Plain w) = w"
| "compCount (ZipC z) = zw_w z"
| "compCount (Aes E k ew) = ew_w ew"

fun with_compCount :: "'z countWriter \<Rightarrow> 'z encw \<Rightarrow> 'z encw" where
  "with_compCount w (Plain _) = Plain w"
| "with_compCount w (ZipC z) = ZipC (z\<lparr>zw_w := w\<rparr>)"
| "with_compCount w (Aes E k ew) = Aes E k (ew\<lparr>ew_w := w\<rparr>)"

text \<open>\<open>fw.zipw\<close> is the writer \<open>fw.compCount\<close> counts for.\<close>

definition zipw :: "'z encw \<Rightarrow> 'z" where "zipw e = cw_w (compCount e)"

definition with_zipw :: "'z \<Rightarrow> 'z encw \<Rightarrow> 'z encw" where
  "with_zipw z e = with_compCount ((compCount e)\<lparr>cw_w := z\<rparr>) e"

fun encw_Write :: "FileHeader \<Rightarrow> 'z write_fn \<Rightarrow> 'z encw write_fn" where
  "encw_Write fh wr (Plain w) p = (case countWriter_Write wr w p of (n, e, w) \<Rightarrow> (n, e, Plain w))"
| "encw_Write fh wr (ZipC z) p =
     (case zipCryptoWriter_Write (Some fh) (countWriter_Write wr) z p of (n, e, z) \<Rightarrow> (n, e, ZipC z))"
| "encw_Write fh wr (Aes E k ew) p =
     (case encryptionWriter_Write E (countWriter_Write wr) ew p of (n, e, ew) \<Rightarrow> (n, e, Aes E k ew))"

text \<open>\<open>if w.enc != nil { w.enc.Close() }\<close>.\<close>

fun encw_Close :: "FileHeader \<Rightarrow> 'z write_fn \<Rightarrow> 'z encw \<Rightarrow> zip_error option \<times> 'z encw" where
  "encw_Close fh wr (Plain w) = (None, Plain w)"
| "encw_Close fh wr (ZipC z) =
     (case zipCryptoWriter_Close (Some fh) (countWriter_Write wr) z of (e, z) \<Rightarrow> (e, ZipC z))"
| "encw_Close fh wr (Aes E k ew) =
     (case encryptionWriter_Close (countWriter_Write wr) ew of (e, ew) \<Rightarrow> (e, Aes E k ew))"

section \<open>\<open>fileWriter\<close>\<close>

text \<open>
  \<open>fw_C\<close> holds the methods of \<open>fw.comp\<close>, the object they work on is below \<open>fw_rawCount\<close>; \<open>fw_xxh3\<close> is
  what was written to the \<open>xxh3\<close> hash.
\<close>

record ('z, 'c) fileWriter =
  fw_C :: "('z encw, 'c comp_writer) compressor"
  fw_rawCount :: "('c comp_writer \<times> 'z encw) countWriter"
  fw_crc32 :: u32
  fw_xxh3 :: "byte list"
  fw_closed :: bool
  fw_raw :: bool

definition fw_enc :: "('z, 'c) fileWriter \<Rightarrow> 'z encw" where
  "fw_enc fw = snd (cw_w (fw_rawCount fw))"

definition with_enc :: "'z encw \<Rightarrow> ('z, 'c) fileWriter \<Rightarrow> ('z, 'c) fileWriter" where
  "with_enc e fw = fw\<lparr>fw_rawCount := (fw_rawCount fw)\<lparr>cw_w := (fst (cw_w (fw_rawCount fw)), e)\<rparr>\<rparr>"

text \<open>
  What the writers of the package use: the AES primitives, \<open>newFlateWriter\<close> at a level, the
  registered compressors and the \<open>xxh3\<close> hash of the library of that name.
\<close>

record ('z, 'c) writer_env =
  env_suite :: aes_suite
  env_flate :: "int \<Rightarrow> ('z encw, 'c) compressor"
  env_comps :: "('z encw, 'c) compressors"
  env_xxh3 :: "byte list \<Rightarrow> u64"

definition streamed_header :: "FileHeader \<Rightarrow> FileHeader" where
  "streamed_header fh = fh\<lparr>Flags := Flags fh OR 0x8,
     CreatorVersion := CreatorVersion fh AND 0xff00 OR zipVersion20, ReaderVersion := zipVersion20\<rparr>"

text \<open>
  The encryption \<open>newFileWriter\<close> and \<open>newRawFileWriter\<close> set up; \<open>rnd\<close> is \<open>rand.Read\<close>.
\<close>

definition enc_layer ::
  "aes_suite \<Rightarrow> (nat \<Rightarrow> byte list result) \<Rightarrow> FileHeader \<Rightarrow> 'z \<Rightarrow> 'z encw result \<times> FileHeader" where
  "enc_layer S rnd fh z =
     (let cw = \<lparr>cw_w = z, cw_count = 0\<rparr> in
      case password fh of
        None \<Rightarrow> (Inr (Plain cw), fh)
      | Some pw \<Rightarrow>
          if encryption fh = StandardEncryption
          then (Inr (ZipC (ZipCryptoEncryptor cw pw (rnd 10))), fh)
          else (case writeWinZipExtra fh of
                  None \<Rightarrow> (Inl GoPanic, fh)
                | Some fh \<Rightarrow>
                    let fh = fh\<lparr>Method := winzipAesMethod\<rparr> in
                    (case newEncryptionWriter S cw pw (aesStrength fh) rnd of
                       Inl err \<Rightarrow> (Inl err, fh)
                     | Inr (E, akey, ew) \<Rightarrow> (Inr (Aes E akey ew), fh))))"

text \<open>
  The rest of both constructors: the compressor over \<open>sw\<close>, then the local header. The third
  component of the result is \<open>w\<close> after the call.
\<close>

definition open_entry ::
  "'z write_fn \<Rightarrow> bool \<Rightarrow> ('z encw, 'c comp_writer) compressor \<Rightarrow> FileHeader \<Rightarrow> 'z encw
     \<Rightarrow> ('z, 'c) fileWriter result \<times> FileHeader \<times> 'z" where
  "open_entry wr raw C fh sw = (case cz_new C sw of
     (Inl err, sw) \<Rightarrow> (Inl err, fh, zipw sw)
   | (Inr c, sw) \<Rightarrow>
       (case writeHeader wr fh (zipw sw) of
          (Some err, z) \<Rightarrow> (Inl err, fh, z)
        | (None, z) \<Rightarrow>
            (Inr \<lparr>fw_C = C, fw_rawCount = \<lparr>cw_w = (c, with_zipw z sw), cw_count = 0\<rparr>,
               fw_crc32 = 0, fw_xxh3 = [], fw_closed = False, fw_raw = raw\<rparr>, fh, z)))"

definition newFileWriter ::
  "('z, 'c) writer_env \<Rightarrow> 'z write_fn \<Rightarrow> (nat \<Rightarrow> byte list result) \<Rightarrow> FileHeader \<Rightarrow> 'z
     \<Rightarrow> ('z, 'c) fileWriter result \<times> FileHeader \<times> 'z" where
  "newFileWriter V wr rnd fh z =
     (let fh = streamed_header fh in
      case compressor (env_flate V) (env_comps V) (Method fh) (CompressionLevel fh) of
        None \<Rightarrow> (Inl ErrAlgorithm, fh, z)
      | Some C \<Rightarrow>
          (case enc_layer (env_suite V) rnd fh z of
             (Inl err, fh) \<Rightarrow> (Inl err, fh, z)
           | (Inr sw, fh) \<Rightarrow> open_entry wr False C fh sw))"

text \<open>raw_writer.go: the contents are already compressed.\<close>

definition newRawFileWriter ::
  "('z, 'c) writer_env \<Rightarrow> 'z write_fn \<Rightarrow> (nat \<Rightarrow> byte list result) \<Rightarrow> FileHeader \<Rightarrow> 'z
     \<Rightarrow> ('z, 'c) fileWriter result \<times> FileHeader \<times> 'z" where
  "newRawFileWriter V wr rnd fh z =
     (case enc_layer (env_suite V) rnd (streamed_header fh) z of
        (Inl err, fh) \<Rightarrow> (Inl err, fh, z)
      | (Inr sw, fh) \<Rightarrow> open_entry wr True nop_compressor fh sw)"

definition fileWriter_Write :: "FileHeader \<Rightarrow> 'z write_fn \<Rightarrow> ('z, 'c) fileWriter write_fn" where
  "fileWriter_Write fh wr fw p =
     (if fw_closed fw then (0, Some ErrWriteClosed, fw)
      else
        let fw = (if fw_raw fw then fw
                  else fw\<lparr>fw_crc32 := crc32_Write (fw_crc32 fw) p, fw_xxh3 := fw_xxh3 fw @ p\<rparr>)
        in case countWriter_Write (cz_Write (fw_C fw) (encw_Write fh wr)) (fw_rawCount fw) p of
             (n, err, rc) \<Rightarrow> (n, err, fw\<lparr>fw_rawCount := rc\<rparr>))"

text \<open>\<open>Close\<close>: the authentication code of an AES entry, written through \<open>compCount\<close>.\<close>

definition write_authcode ::
  "aes_suite \<Rightarrow> 'z write_fn \<Rightarrow> 'z encw \<Rightarrow> zip_error option \<times> 'z encw" where
  "write_authcode S wr e = (case e of
     Aes E akey ew \<Rightarrow>
       (case countWriter_Write wr (ew_w ew) (take 10 (hmac_sha1 S akey (ew_hmac ew))) of
          (n, err, w) \<Rightarrow> (if err \<noteq> None then Some ErrAuthcodeWrite else None, Aes E akey (ew\<lparr>ew_w := w\<rparr>)))
   | _ \<Rightarrow> (None, e))"

definition is_aes :: "'z encw \<Rightarrow> bool" where
  "is_aes e = (case e of Aes _ _ _ \<Rightarrow> True | _ \<Rightarrow> False)"

text \<open>The header once the sizes and checksums are known.\<close>

definition closed_header ::
  "bool \<Rightarrow> bool \<Rightarrow> u32 \<Rightarrow> u64 \<Rightarrow> u64 \<Rightarrow> u64 \<Rightarrow> FileHeader \<Rightarrow> FileHeader" where
  "closed_header raw aes crc xxh csize usize fh =
     (let fh = (if raw then fh\<lparr>CompressedSize64 := csize\<rparr>
                else fh\<lparr>CRC32 := crc, XXH3 := xxh, CompressedSize64 := csize,
                  UncompressedSize64 := usize\<rparr>);
          fh = (if aes then fh\<lparr>CRC32 := 0\<rparr> else fh)
      in if isZip64 fh
         then fh\<lparr>CompressedSize := uint32max, UncompressedSize := uint32max,
                ReaderVersion := zipVersion45\<rparr>
         else fh\<lparr>CompressedSize := ucast (CompressedSize64 fh),
                UncompressedSize := ucast (UncompressedSize64 fh)\<rparr>)"

definition descriptor_buf :: "bool \<Rightarrow> FileHeader \<Rightarrow> byte list option" where
  "descriptor_buf aes fh = do {
     b \<leftarrow> (if \<not> aes then wb_uint32 dataDescriptorSignature (wb_make dataDescriptor64Len)
           else Some (wb_make dataDescriptor64Len));
     b \<leftarrow> wb_uint32 (CRC32 fh) b;
     b \<leftarrow> (if isZip64 fh then do {
             b \<leftarrow> wb_uint64 (CompressedSize64 fh) b;
             wb_uint64 (UncompressedSize64 fh) b }
           else do {
             b \<leftarrow> wb_uint32 (CompressedSize fh) b;
             wb_uint32 (UncompressedSize fh) b });
     Some (wb_written b) }"

definition fileWriter_Close ::
  "('z, 'c) writer_env \<Rightarrow> 'z write_fn \<Rightarrow> FileHeader \<Rightarrow> ('z, 'c) fileWriter
     \<Rightarrow> zip_error option \<times> FileHeader \<times> ('z, 'c) fileWriter" where
  "fileWriter_Close V wr fh fw =
     (if fw_closed fw then (Some ErrFileClosedTwice, fh, fw)
      else
        let fw = fw\<lparr>fw_closed := True\<rparr> in
        case cz_Close (fw_C fw) (encw_Write fh wr) (cw_w (fw_rawCount fw)) of (err, s) \<Rightarrow>
          let fw = fw\<lparr>fw_rawCount := (fw_rawCount fw)\<lparr>cw_w := s\<rparr>\<rparr> in
          if err \<noteq> None then (err, fh, fw)
          else case encw_Close fh wr (fw_enc fw) of (err, e) \<Rightarrow>
            if err \<noteq> None then (err, fh, with_enc e fw)
            else case write_authcode (env_suite V) wr e of (err, e) \<Rightarrow>
              if err \<noteq> None then (err, fh, with_enc e fw)
              else
                let fh = closed_header (fw_raw fw) (is_aes e) (fw_crc32 fw) (env_xxh3 V (fw_xxh3 fw))
                       (uint64_of (cw_count (compCount e))) (uint64_of (cw_count (fw_rawCount fw))) fh
                in case descriptor_buf (is_aes e) fh of
                     None \<Rightarrow> (Some GoPanic, fh, with_enc e fw)
                   | Some buf \<Rightarrow>
                       (case wr (zipw e) buf of (n, err, z) \<Rightarrow>
                          (err, fh, with_enc (with_zipw z e) fw)))"

section \<open>The descriptor\<close>

definition descriptor :: "bool \<Rightarrow> FileHeader \<Rightarrow> byte list" where
  "descriptor aes fh = (if aes then [] else put32 dataDescriptorSignature) @ put32 (CRC32 fh)
     @ (if isZip64 fh then put64 (CompressedSize64 fh) @ put64 (UncompressedSize64 fh)
        else put32 (CompressedSize fh) @ put32 (UncompressedSize fh))"

lemma descriptor_buf_wire [simp]: "descriptor_buf aes fh = Some (descriptor aes fh)"
  by (simp add: descriptor_buf_def descriptor_def wb_make_def wire wb_written_def)

lemma length_descriptor:
  "length (descriptor aes fh) = (if isZip64 fh then 24 else 16) - (if aes then 4 else 0)"
  by (simp add: descriptor_def)

section \<open>The pipeline accepts what it is given\<close>

text \<open>
  The state of the encryption layer behind a counting writer whose destination held \<open>base\<close> when the
  entry's payload began: which layer, with its password, key and random bytes.
\<close>

datatype enc_kind =
    KPlain
  | KZip "byte list" "byte list" "byte \<times> byte"
  | KAes "byte list \<Rightarrow> byte list" "byte list" "byte list" "byte list"

fun kind_ok :: "FileHeader \<Rightarrow> enc_kind \<Rightarrow> bool" where
  "kind_ok fh (KZip pw r chk) \<longleftrightarrow> chk = zcw_checkBytes (Some fh)"
| "kind_ok fh _ \<longleftrightarrow> True"

fun encrypted :: "enc_kind \<Rightarrow> byte list \<Rightarrow> byte list" where
  "encrypted KPlain cs = cs"
| "encrypted (KZip pw r chk) cs = fst (zc_encrypt (NewZipCrypto pw) (r @ [fst chk, snd chk] @ cs))"
| "encrypted (KAes E akey salt pwv) cs = salt @ pwv @ xor_stream E 0 cs"

fun authcode :: "aes_suite \<Rightarrow> enc_kind \<Rightarrow> byte list \<Rightarrow> byte list" where
  "authcode S (KAes E akey salt pwv) cs = take 10 (hmac_sha1 S akey (xor_stream E 0 cs))"
| "authcode S _ cs = []"

locale entry_writer = io_writer wr out good
  for wr :: "'z write_fn" and out :: "'z \<Rightarrow> byte list" and good :: "'z \<Rightarrow> bool"
begin

text \<open>The count is that of the bytes since the payload began, modulo the wrap of \<open>int64\<close>.\<close>

definition counted :: "nat \<Rightarrow> 'z countWriter \<Rightarrow> bool" where
  "counted L w \<longleftrightarrow> good (cw_w w) \<and> L \<le> length (out (cw_w w))
     \<and> uint64_of (cw_count w) = of_nat (length (out (cw_w w)) - L)"

lemma uint64_add64: "uint64_of (add64 a b) = uint64_of a + uint64_of b"
  by (simp add: uint64_of_def add64_def int64_of_def)

end

sublocale entry_writer \<subseteq> cw: io_writer "countWriter_Write wr" "\<lambda>w. out (cw_w w)" "counted L" for L
proof
  fix w p n w'
  assume "countWriter_Write wr w p = (n, None, w')"
  then show "n = length p \<and> out (cw_w w') = out (cw_w w) @ p"
    by (auto simp: countWriter_Write_def split: prod.splits dest: write_ok)
next
  fix w p n e w'
  assume "countWriter_Write wr w p = (n, Some e, w')"
  then show "n \<le> length p \<and> out (cw_w w') = out (cw_w w) @ take n p"
    by (auto simp: countWriter_Write_def split: prod.splits dest: write_err)
next
  fix w p
  assume c: "counted L w"
  then obtain n z where z: "wr (cw_w w) p = (n, None, z)" "good z"
    using write_good [of "cw_w w" p] by (auto simp: counted_def)
  from write_ok [OF z(1)] z c show "\<exists>n w'. countWriter_Write wr w p = (n, None, w') \<and> counted L w'"
    by (auto simp: countWriter_Write_def counted_def uint64_add64 uint64_of_nat of_nat_diff)
qed

context entry_writer
begin

fun erel :: "byte list \<Rightarrow> enc_kind \<Rightarrow> 'z encw \<Rightarrow> byte list \<Rightarrow> bool" where
  "erel base KPlain (Plain w) acc \<longleftrightarrow> out (cw_w w) = base @ acc"
| "erel base (KZip pw r chk) (ZipC z) acc \<longleftrightarrow> zcw_rel (\<lambda>w. out (cw_w w)) base pw r chk z acc"
| "erel base (KAes E akey salt pwv) (Aes E' akey' ew) acc \<longleftrightarrow>
     E' = E \<and> akey' = akey \<and> ew_rel (\<lambda>w. out (cw_w w)) base salt pwv E ew acc"
| "erel base _ _ acc \<longleftrightarrow> False"

lemma encw_accepting:
  assumes "kind_ok fh K"
  shows "accepting (encw_Write fh wr) (erel base K) (\<lambda>e. counted L (compCount e))"
proof (rule acceptingI)
  fix e acc p n err e'
  assume r: "erel base K e acc" and w: "encw_Write fh wr e p = (n, err, e')"
  show "(err = None \<longrightarrow> n = length p \<and> erel base K e' (acc @ p)) \<and>
       (counted L (compCount e) \<longrightarrow> err = None \<and> counted L (compCount e'))"
    using r
  proof (cases "(base, K, e, acc)" rule: erel.cases)
    case (1 base w acc)
    then show ?thesis
      using r w cw.plain.accept_any [where L = L and base = base, of w acc p]
      by (auto split: prod.splits)
  next
    case (2 base pw r chk z acc)
    then show ?thesis
      using r w assms cw.zcw.accept_any [where L = L and base = base and fw = "Some fh" and pw = pw and r = r, of z acc p]
      by (auto split: prod.splits)
  next
    case (3 base E akey salt pwv E' akey' ew acc)
    then show ?thesis
      using r w cw.ew.accept_any [where L = L and base = base and E = E and salt = salt and pwv = pwv, of ew acc p]
      by (auto split: prod.splits)
  qed auto
qed

lemma encw_Close_ok:
  assumes "kind_ok fh K" "erel base K e acc" "counted L (compCount e)"
  obtains e' where "encw_Close fh wr e = (None, e')" "counted L (compCount e')"
    "out (zipw e') = base @ encrypted K acc" "erel base K e' acc"
proof -
  from assms(2) show ?thesis
  proof (cases "(base, K, e, acc)" rule: erel.cases)
    case (1 base w acc)
    then show ?thesis using assms that by (simp add: zipw_def)
  next
    case (2 base pw r chk z acc)
    have rel: "zcw_rel (\<lambda>w. out (cw_w w)) base pw r (zcw_checkBytes (Some fh)) z acc"
      using assms 2 by simp
    obtain z' where z': "zipCryptoWriter_writeHeader (countWriter_Write wr) (Some fh) z = (None, z')"
      "counted L (zw_w z')"
      using cw.zcw_header_good [OF rel, of L "Some fh"] assms(3) 2 by auto
    from cw.zcw_header_ok [OF rel z'(1)]
    have "zcw_rel (\<lambda>w. out (cw_w w)) base pw r chk z' acc" "\<not> zw_first z'" using assms 2 by auto
    then show ?thesis using that [of "ZipC z'"] z' 2 by (auto simp: zipCryptoWriter_Close_def zipw_def zcw_rel_def)
  next
    case (3 base E akey salt pwv E' akey' ew acc)
    have rel: "ew_rel (\<lambda>w. out (cw_w w)) base salt pwv E ew acc" using assms 3 by simp
    obtain ew' where ew': "encryptionWriter_Close (countWriter_Write wr) ew = (None, ew')"
      "counted L (ew_w ew')"
      using cw.ew_Close_good [of L ew] assms(3) 3 by auto
    from cw.ew_Close_ok [OF rel ew'(1)]
    have "ew_rel (\<lambda>w. out (cw_w w)) base salt pwv E ew' acc" "\<not> ew_first ew'" by auto
    then show ?thesis using that [of "Aes E akey ew'"] ew' 3 assms by (auto simp: zipw_def ew_rel_def)
  qed auto
qed

end

lemma with_zipw_simps [simp]:
  "zipw (with_zipw z e) = z" "with_zipw (zipw e) e = e"
  "compCount (with_zipw z e) = (compCount e)\<lparr>cw_w := z\<rparr>" "is_aes (with_zipw z e) = is_aes e"
  by (cases e; simp add: zipw_def with_zipw_def is_aes_def)+

section \<open>Setting up the encryption\<close>

definition enc_ready :: "aes_suite \<Rightarrow> (nat \<Rightarrow> byte list result) \<Rightarrow> FileHeader \<Rightarrow> bool" where
  "enc_ready S rnd fh \<longleftrightarrow> (case password fh of
     None \<Rightarrow> True
   | Some pw \<Rightarrow>
       if encryption fh = StandardEncryption then \<exists>r. rnd 10 = Inr r \<and> length r = 10
       else suite_ok S \<and> aesKeyLen (aesStrength fh) \<noteq> 0
         \<and> (\<exists>salt. rnd (aesKeyLen (aesStrength fh) div 2) = Inr salt
              \<and> length salt = aesKeyLen (aesStrength fh) div 2))"

definition enc_kind_of :: "aes_suite \<Rightarrow> (nat \<Rightarrow> byte list result) \<Rightarrow> FileHeader \<Rightarrow> enc_kind" where
  "enc_kind_of S rnd fh = (case password fh of
     None \<Rightarrow> KPlain
   | Some pw \<Rightarrow>
       if encryption fh = StandardEncryption
       then KZip pw (projr (rnd 10)) (zcw_checkBytes (Some fh))
       else let kl = aesKeyLen (aesStrength fh); salt = projr (rnd (kl div 2));
                (ek, ak, pwv) = generateKeys S pw salt kl
            in KAes (aes_Encrypt S ek) ak salt pwv)"

definition aes_extra :: "byte \<Rightarrow> u16 \<Rightarrow> byte list" where
  "aes_extra strength mtd =
     extraField winzipAesExtraId (put16 2 @ put16 0x4541 @ [strength] @ put16 mtd)"

definition enc_header :: "FileHeader \<Rightarrow> FileHeader" where
  "enc_header fh = (if writesAES fh
     then fh\<lparr>Extra := Extra fh @ aes_extra (aesStrength fh) (Method fh), Method := winzipAesMethod\<rparr>
     else fh)"

lemma winZipExtra_wire: "winZipExtra strength mtd = Some (aes_extra strength mtd)"
  by (simp add: winZipExtra_bytes aes_extra_def extraField_def)

lemma enc_header_frame [simp]:
  "Name (enc_header fh) = Name fh" "Flags (enc_header fh) = Flags fh"
  "ModifiedTime (enc_header fh) = ModifiedTime fh" "CRC32 (enc_header fh) = CRC32 fh"
  "password (enc_header fh) = password fh" "encryption (enc_header fh) = encryption fh"
  "aesStrength (enc_header fh) = aesStrength fh"
  by (simp_all add: enc_header_def)

definition kind_is_aes :: "enc_kind \<Rightarrow> bool" where
  "kind_is_aes K = (case K of KAes _ _ _ _ \<Rightarrow> True | _ \<Rightarrow> False)"

lemma kind_ok_enc_kind: "kind_ok (enc_header fh) (enc_kind_of S rnd fh)"
  by (auto simp: enc_kind_of_def zcw_checkBytes_def Let_def split: option.splits prod.splits)

lemma kind_is_aes_enc: "kind_is_aes (enc_kind_of S rnd fh) \<longleftrightarrow> writesAES fh"
  by (auto simp: kind_is_aes_def enc_kind_of_def writesAES_def Let_def split: option.splits prod.splits)

context entry_writer
begin

lemma enc_layer_ok:
  assumes "enc_ready S rnd fh"
  obtains e where "enc_layer S rnd fh z = (Inr e, enc_header fh)" "compCount e = \<lparr>cw_w = z, cw_count = 0\<rparr>"
    "\<And>z'. erel (out z') (enc_kind_of S rnd fh) (with_zipw z' e) []"
    "is_aes e = writesAES fh"
proof (cases "password fh")
  case None
  then show ?thesis using that [of "Plain \<lparr>cw_w = z, cw_count = 0\<rparr>"]
    by (simp add: enc_layer_def enc_header_def writesAES_def enc_kind_of_def with_zipw_def is_aes_def)
next
  case (Some pw)
  show ?thesis
  proof (cases "encryption fh = StandardEncryption")
    case True
    with assms Some obtain r where "rnd 10 = Inr r" "length r = 10" by (auto simp: enc_ready_def)
    then show ?thesis
      using that [of "ZipC (ZipCryptoEncryptor \<lparr>cw_w = z, cw_count = 0\<rparr> pw (rnd 10))"] Some True
      by (simp add: enc_layer_def enc_header_def writesAES_def enc_kind_of_def with_zipw_def is_aes_def
          zcw_rel_def ZipCryptoEncryptor_def)
  next
    case False
    let ?kl = "aesKeyLen (aesStrength fh)"
    from assms Some False obtain salt where s: "suite_ok S" "?kl \<noteq> 0" "rnd (?kl div 2) = Inr salt"
      "length salt = ?kl div 2" by (auto simp: enc_ready_def)
    obtain ek ak pwv where k: "generateKeys S pw salt ?kl = (ek, ak, pwv)" using prod_cases3 by blast
    note n = newEncryptionWriter_ok(1) [where rnd = rnd and strength = "aesStrength fh"
        and w = "\<lparr>cw_w = z, cw_count = 0\<rparr>", OF s(1,3,2) k]
    have "block_ok (aes_Encrypt S ek)" using s(1) by (simp add: suite_ok_def)
    then show ?thesis
      using that [of "Aes (aes_Encrypt S ek) ak \<lparr>ew_pwv = pwv, ew_salt = salt,
          ew_w = \<lparr>cw_w = z, cw_count = 0\<rparr>, ew_hmac = [], ew_S = newWinZipCTR, ew_first = True,
          ew_err = None\<rparr>"] Some False s(3) k n ctr_inv_init
      by (simp add: enc_layer_def enc_header_def writesAES_def enc_kind_of_def with_zipw_def is_aes_def
          ew_rel_def xor_stream_def writeWinZipExtra_def winZipExtra_wire Let_def)
  qed
qed

section \<open>A whole entry\<close>

definition frel ::
  "('z encw, 'c comp_writer) compressor \<Rightarrow> bool \<Rightarrow> ('c comp_writer \<times> 'z encw \<Rightarrow> byte list \<Rightarrow> bool)
     \<Rightarrow> ('z, 'c) fileWriter \<Rightarrow> byte list \<Rightarrow> bool" where
  "frel C raw crel fw acc \<longleftrightarrow>
     \<not> fw_closed fw \<and> fw_C fw = C \<and> fw_raw fw = raw \<and> crel (cw_w (fw_rawCount fw)) acc
     \<and> uint64_of (cw_count (fw_rawCount fw)) = of_nat (length acc)
     \<and> (raw \<or> fw_crc32 fw = crc32 acc \<and> fw_xxh3 fw = acc)"

lemma fileWriter_accepting:
  assumes "accepting (cz_Write C (encw_Write fh wr)) crel cgood"
  shows "accepting (fileWriter_Write fh wr) (frel C raw crel) (\<lambda>fw. cgood (cw_w (fw_rawCount fw)))"
proof (rule acceptingI)
  fix fw :: "('z, 'a) fileWriter" and acc p n e fw'
  assume r: "frel C raw crel fw acc" and w: "fileWriter_Write fh wr fw p = (n, e, fw')"
  obtain m err s where s: "cz_Write C (encw_Write fh wr) (cw_w (fw_rawCount fw)) p = (m, err, s)"
    by (metis prod_cases3)
  from r have cr: "crel (cw_w (fw_rawCount fw)) acc" by (simp add: frel_def)
  from accepting.accept_any [OF assms cr s] r w s
  show "(e = None \<longrightarrow> n = length p \<and> frel C raw crel fw' (acc @ p))
      \<and> (cgood (cw_w (fw_rawCount fw)) \<longrightarrow> e = None \<and> cgood (cw_w (fw_rawCount fw')))"
    by (auto simp: frel_def fileWriter_Write_def countWriter_Write_def Let_def crc32_def uint64_add64
        uint64_of_nat split: if_splits)
qed

lemma write_authcode_ok:
  assumes "erel base K e acc" "counted (length base) (compCount e)" "out (zipw e) = base @ encrypted K acc"
  obtains e' where "write_authcode S wr e = (None, e')" "counted (length base) (compCount e')"
    "out (zipw e') = base @ encrypted K acc @ authcode S K acc" "is_aes e' = kind_is_aes K"
    "is_aes e = kind_is_aes K"
proof (cases "(base, K, e, acc)" rule: erel.cases)
  case (3 base E akey salt pwv E' akey' ew acc)
  with assms(1) have h: "E' = E" "akey' = akey" "ew_hmac ew = xor_stream E 0 acc"
    by (auto simp: ew_rel_def)
  let ?c = "take 10 (hmac_sha1 S akey (xor_stream E 0 acc))"
  obtain n w where w: "countWriter_Write wr (ew_w ew) ?c = (n, None, w)" "counted (length base) w"
    using cw.write_good [of "length base" "ew_w ew" ?c] assms(2) 3 by auto
  with cw.write_ok [OF w(1)] assms(3) h 3 that [of "Aes E akey (ew\<lparr>ew_w := w\<rparr>)"] show ?thesis
    by (simp add: write_authcode_def zipw_def is_aes_def kind_is_aes_def)
qed (use assms that in \<open>auto simp: write_authcode_def is_aes_def kind_is_aes_def\<close>)

lemma fileWriter_Close_ok:
  fixes fw :: "('z, 'c) fileWriter"
  assumes fr: "frel C raw crel fw acc" and cg: "cgood (cw_w (fw_rawCount fw))" and K: "kind_ok fh K"
    and close: "\<And>s acc. crel s acc \<Longrightarrow> cgood s \<Longrightarrow> \<exists>s' enc. cz_Close C (encw_Write fh wr) s = (None, s')
      \<and> counted (length base) (compCount (snd s')) \<and> erel base K (snd s') enc \<and> codes enc acc"
  obtains fw' enc fh' where "fileWriter_Close V wr fh fw = (None, fh', fw')" "codes enc acc"
    "fw_closed fw'" "good (zipw (fw_enc fw'))"
    "out (zipw (fw_enc fw')) = base @ encrypted K enc @ authcode (env_suite V) K enc
       @ descriptor (kind_is_aes K) fh'"
    "fh' = closed_header raw (kind_is_aes K) (crc32 acc) (env_xxh3 V acc)
       (of_nat (length (encrypted K enc @ authcode (env_suite V) K enc))) (of_nat (length acc)) fh"
proof -
  from fr have f: "\<not> fw_closed fw" "fw_C fw = C" "fw_raw fw = raw" "crel (cw_w (fw_rawCount fw)) acc"
    "uint64_of (cw_count (fw_rawCount fw)) = of_nat (length acc)"
    "raw \<or> fw_crc32 fw = crc32 acc \<and> fw_xxh3 fw = acc" by (auto simp: frel_def)
  from close [OF f(4) cg] obtain s enc where s: "cz_Close C (encw_Write fh wr) (cw_w (fw_rawCount fw)) = (None, s)"
    "counted (length base) (compCount (snd s))" "erel base K (snd s) enc" "codes enc acc" by blast
  obtain e where e: "encw_Close fh wr (snd s) = (None, e)" "counted (length base) (compCount e)"
    "out (zipw e) = base @ encrypted K enc" "erel base K e enc"
    by (rule encw_Close_ok [OF K s(3,2)])
  obtain e' where e': "write_authcode (env_suite V) wr e = (None, e')" "counted (length base) (compCount e')"
    "out (zipw e') = base @ encrypted K enc @ authcode (env_suite V) K enc" "is_aes e' = kind_is_aes K"
    by (rule write_authcode_ok [OF e(4,2,3)])
  have cnt: "uint64_of (cw_count (compCount e')) = of_nat (length (encrypted K enc @ authcode (env_suite V) K enc))"
    and g: "good (zipw e')"
    using e'(2,3) by (simp_all add: counted_def zipw_def)
  define fh' where "fh' = closed_header raw (kind_is_aes K) (crc32 acc) (env_xxh3 V acc)
       (of_nat (length (encrypted K enc @ authcode (env_suite V) K enc))) (of_nat (length acc)) fh"
  obtain n z where z: "wr (zipw e') (descriptor (kind_is_aes K) fh') = (n, None, z)" "good z"
    using write_good [OF g] by blast
  have ch: "closed_header raw (kind_is_aes K) (fw_crc32 fw) (env_xxh3 V (fw_xxh3 fw)) cs us fh
      = closed_header raw (kind_is_aes K) (crc32 acc) (env_xxh3 V acc) cs us fh" for cs us
    using f(6) by (cases raw) (simp_all add: closed_header_def)
  let ?fw = "with_enc (with_zipw z e') (fw\<lparr>fw_closed := True, fw_rawCount := (fw_rawCount fw)\<lparr>cw_w := s\<rparr>\<rparr>)"
  have "fileWriter_Close V wr fh fw = (None, fh', ?fw)"
    using f s(1) e(1) e'(1,4) z(1) cnt
    by (simp add: fileWriter_Close_def fw_enc_def ch Let_def fh'_def)
  moreover have "fw_enc ?fw = with_zipw z e'" "fw_closed ?fw" by (simp_all add: fw_enc_def with_enc_def)
  moreover have "out z = base @ encrypted K enc @ authcode (env_suite V) K enc @ descriptor (kind_is_aes K) fh'"
    using write_ok [OF z(1)] e'(3) by simp
  ultimately show ?thesis using that [of fh' ?fw enc] z(2) s(4) by (simp add: fh'_def)
qed


text \<open>
  \<open>opened C codes raw base K fh fw acc\<close>: the file \<open>fw\<close> with header \<open>fh\<close> has taken \<open>acc\<close>; when its local
  header was written the destination held \<open>base\<close>.
\<close>

definition opened ::
  "('z encw, 'c comp_writer) compressor \<Rightarrow> (byte list \<Rightarrow> byte list \<Rightarrow> bool) \<Rightarrow> bool \<Rightarrow> byte list
     \<Rightarrow> enc_kind \<Rightarrow> FileHeader \<Rightarrow> ('z, 'c) fileWriter \<Rightarrow> byte list \<Rightarrow> bool" where
  "opened C codes raw base K fh fw acc \<longleftrightarrow> kind_ok fh K \<and>
     (\<exists>crel cgood. accepting (cz_Write C (encw_Write fh wr)) crel cgood
        \<and> frel C raw crel fw acc \<and> cgood (cw_w (fw_rawCount fw))
        \<and> (\<forall>s acc. crel s acc \<longrightarrow> cgood s \<longrightarrow> (\<exists>s' enc. cz_Close C (encw_Write fh wr) s = (None, s')
             \<and> counted (length base) (compCount (snd s')) \<and> erel base K (snd s') enc \<and> codes enc acc)))"

lemma open_entry_ok:
  fixes C :: "('z encw, 'c comp_writer) compressor"
  assumes C: "comp_ok C codes" and K: "kind_ok fh K" and fits: "header_fits fh" and g: "good (zipw sw)"
    and sw: "cw_count (compCount sw) = 0" "\<And>z'. erel (out z') K (with_zipw z' sw) []"
  obtains fw z where "open_entry wr raw C fh sw = (Inr fw, fh, z)" "zipw (fw_enc fw) = z"
    "out z = out (zipw sw) @ fileHeader_wire fh @ Name fh @ Extra fh"
    "opened C codes raw (out z) K fh fw []"
proof -
  from C obtain c0 where c0: "\<And>e. cz_new C e = (Inr c0, e)" by (auto simp: comp_ok_def)
  obtain z where z: "writeHeader wr fh (zipw sw) = (None, z)" "good z"
    "out z = out (zipw sw) @ fileHeader_wire fh @ Name fh @ Extra fh"
    using write_seq_good [OF g, of "[fileHeader_wire fh, Name fh, Extra fh]"] fits
    by (auto simp: writeHeader_fits)
  let ?sw = "with_zipw z sw"
  let ?good = "\<lambda>e. counted (length (out z)) (compCount e)"
  have sg: "erel (out z) K ?sw []" "?good ?sw"
    using sw z(2) by (simp_all add: counted_def uint64_of_def)
  note a = encw_accepting [OF K, of "out z" "length (out z)"]
  from C [unfolded comp_ok_def] a obtain crel cgood where
    cr: "accepting (cz_Write C (encw_Write fh wr)) crel cgood"
    "\<forall>e c. cz_new C e = (Inr c, e) \<longrightarrow> erel (out z) K e [] \<longrightarrow> crel (c, e) [] \<and> (?good e \<longrightarrow> cgood (c, e))"
    "\<forall>s acc. crel s acc \<longrightarrow> cgood s \<longrightarrow> (\<exists>s' enc. cz_Close C (encw_Write fh wr) s = (None, s')
       \<and> ?good (snd s') \<and> erel (out z) K (snd s') enc \<and> codes enc acc)"
    by (elim conjE) (drule spec [of _ "encw_Write fh wr"], drule spec [of _ "erel (out z) K"],
        drule spec [of _ ?good], auto)
  let ?fw = "\<lparr>fw_C = C, fw_rawCount = \<lparr>cw_w = (c0, ?sw), cw_count = 0\<rparr>, fw_crc32 = 0,
      fw_xxh3 = [], fw_closed = False, fw_raw = raw\<rparr>"
  have "open_entry wr raw C fh sw = (Inr ?fw, fh, z)" by (simp add: open_entry_def c0 z(1))
  moreover have "zipw (fw_enc ?fw) = z" by (simp add: fw_enc_def)
  moreover have "frel C raw crel ?fw []" "cgood (cw_w (fw_rawCount ?fw))"
    using cr(2) c0 sg by (simp_all add: frel_def crc32_def uint64_of_def)
  with cr K have "opened C codes raw (out z) K fh ?fw []" unfolding opened_def by blast
  ultimately show ?thesis using that z(3) by blast
qed

lemma opened_Write:
  assumes "opened C codes raw base K fh fw acc"
  obtains fw' where "fileWriter_Write fh wr fw p = (length p, None, fw')"
    "opened C codes raw base K fh fw' (acc @ p)"
proof -
  from assms obtain crel cgood where o: "kind_ok fh K"
    "accepting (cz_Write C (encw_Write fh wr)) crel cgood"
    "frel C raw crel fw acc" "cgood (cw_w (fw_rawCount fw))"
    "\<forall>s acc. crel s acc \<longrightarrow> cgood s \<longrightarrow> (\<exists>s' enc. cz_Close C (encw_Write fh wr) s = (None, s')
             \<and> counted (length base) (compCount (snd s')) \<and> erel base K (snd s') enc \<and> codes enc acc)"
    unfolding opened_def by blast
  from accepting.write_accept [OF fileWriter_accepting [OF o(2)] o(3,4), of p] obtain fw' where
    "fileWriter_Write fh wr fw p = (length p, None, fw')" "cgood (cw_w (fw_rawCount fw'))"
    "frel C raw crel fw' (acc @ p)" by blast
  with o that show ?thesis unfolding opened_def by blast
qed

lemma opened_Writes:
  assumes "opened C codes raw base K fh fw acc"
  obtains fw' where "write_seq (fileWriter_Write fh wr) ps fw = (None, fw')"
    "opened C codes raw base K fh fw' (acc @ concat ps)"
proof -
  have "\<exists>fw'. write_seq (fileWriter_Write fh wr) ps fw = (None, fw')
      \<and> opened C codes raw base K fh fw' (acc @ concat ps)"
    using assms
  proof (induction ps arbitrary: fw acc)
    case (Cons p ps)
    from opened_Write [OF Cons.prems, of p] obtain fw1 where
      "fileWriter_Write fh wr fw p = (length p, None, fw1)" "opened C codes raw base K fh fw1 (acc @ p)" .
    with Cons.IH [of fw1 "acc @ p"] show ?case by auto
  qed auto
  with that show ?thesis by blast
qed

lemma opened_not_closed: "opened C codes raw base K fh fw acc \<Longrightarrow> \<not> fw_closed fw"
  by (auto simp: opened_def frel_def)

lemma opened_Close:
  fixes V :: "('z, 'c) writer_env"
  assumes "opened C codes raw base K fh fw acc"
  obtains fw' enc fh' where "fileWriter_Close V wr fh fw = (None, fh', fw')" "codes enc acc"
    "fw_closed fw'" "good (zipw (fw_enc fw'))"
    "out (zipw (fw_enc fw')) = base @ encrypted K enc @ authcode (env_suite V) K enc
       @ descriptor (kind_is_aes K) fh'"
    "fh' = closed_header raw (kind_is_aes K) (crc32 acc) (env_xxh3 V acc)
       (of_nat (length (encrypted K enc @ authcode (env_suite V) K enc))) (of_nat (length acc)) fh"
proof -
  from assms obtain crel cgood where o: "kind_ok fh K"
    "frel C raw crel fw acc" "cgood (cw_w (fw_rawCount fw))"
    "\<forall>s acc. crel s acc \<longrightarrow> cgood s \<longrightarrow> (\<exists>s' enc. cz_Close C (encw_Write fh wr) s = (None, s')
             \<and> counted (length base) (compCount (snd s')) \<and> erel base K (snd s') enc \<and> codes enc acc)"
    unfolding opened_def by blast
  show ?thesis
    by (rule fileWriter_Close_ok [where crel = crel and cgood = cgood and codes = codes and V = V,
          OF o(2,3,1)]) (use o(4) that in blast)+
qed

lemma newFileWriter_ok:
  fixes V :: "('z, 'c) writer_env"
  assumes "compressor (env_flate V) (env_comps V) (Method fh) (CompressionLevel fh) = Some C"
    and "comp_ok C codes" and "enc_ready (env_suite V) rnd (streamed_header fh)"
    and "header_fits fh1" and "good z" and fh1: "fh1 = enc_header (streamed_header fh)"
    and K: "K = enc_kind_of (env_suite V) rnd (streamed_header fh)"
  obtains fw z1 where "newFileWriter V wr rnd fh z = (Inr fw, fh1, z1)" "zipw (fw_enc fw) = z1"
    "out z1 = out z @ fileHeader_wire fh1 @ Name fh1 @ Extra fh1"
    "opened C codes False (out z1) K fh1 fw []"
proof -
  obtain sw where sw: "enc_layer (env_suite V) rnd (streamed_header fh) z = (Inr sw, fh1)"
    "compCount sw = \<lparr>cw_w = z, cw_count = 0\<rparr>" "\<And>z'. erel (out z') K (with_zipw z' sw) []"
    using enc_layer_ok [OF assms(3), of z] unfolding fh1 K by metis
  have z: "zipw sw = z" using sw(2) by (simp add: zipw_def)
  have "newFileWriter V wr rnd fh z = open_entry wr False C fh1 sw"
    using assms(1) sw(1) by (simp add: newFileWriter_def Let_def) (simp add: streamed_header_def)
  moreover have "good (zipw sw)" "cw_count (compCount sw) = 0" using assms(5) z sw(2) by simp_all
  moreover have "kind_ok fh1 K" unfolding fh1 K by (rule kind_ok_enc_kind)
  ultimately show ?thesis
    using open_entry_ok [where raw = False and sw = sw, OF assms(2) _ assms(4) _ _ sw(3)]
      that unfolding z by metis
qed

lemma newRawFileWriter_ok:
  fixes V :: "('z, 'c) writer_env"
  assumes "enc_ready (env_suite V) rnd (streamed_header fh)"
    and "header_fits fh1" and "good z" and fh1: "fh1 = enc_header (streamed_header fh)"
    and K: "K = enc_kind_of (env_suite V) rnd (streamed_header fh)"
  obtains fw z1 where "newRawFileWriter V wr rnd fh z = (Inr fw, fh1, z1)" "zipw (fw_enc fw) = z1"
    "out z1 = out z @ fileHeader_wire fh1 @ Name fh1 @ Extra fh1"
    "opened nop_compressor (=) True (out z1) K fh1 fw []"
proof -
  obtain sw where sw: "enc_layer (env_suite V) rnd (streamed_header fh) z = (Inr sw, fh1)"
    "compCount sw = \<lparr>cw_w = z, cw_count = 0\<rparr>" "\<And>z'. erel (out z') K (with_zipw z' sw) []"
    using enc_layer_ok [OF assms(1), of z] unfolding fh1 K by metis
  have z: "zipw sw = z" using sw(2) by (simp add: zipw_def)
  have "newRawFileWriter V wr rnd fh z = open_entry wr True nop_compressor fh1 sw"
    using sw(1) by (simp add: newRawFileWriter_def)
  moreover have "good (zipw sw)" "cw_count (compCount sw) = 0" using assms(3) z sw(2) by simp_all
  moreover have "kind_ok fh1 K" unfolding fh1 K by (rule kind_ok_enc_kind)
  ultimately show ?thesis
    using open_entry_ok [where raw = True and sw = sw, OF nop_compressor_ok _ assms(2) _ _ sw(3)]
      that unfolding z by metis
qed

end

definition entry_image ::
  "aes_suite \<Rightarrow> enc_kind \<Rightarrow> FileHeader \<Rightarrow> byte list \<Rightarrow> FileHeader \<Rightarrow> byte list" where
  "entry_image S K fh1 enc fh2 = fileHeader_wire fh1 @ Name fh1 @ Extra fh1
     @ encrypted K enc @ authcode S K enc @ descriptor (kind_is_aes K) fh2"

context entry_writer
begin

lemma entry_written:
  fixes V :: "('z, 'c) writer_env"
  assumes C: "compressor (env_flate V) (env_comps V) (Method fh) (CompressionLevel fh) = Some C"
    "comp_ok C codes" "enc_ready (env_suite V) rnd (streamed_header fh)"
    "header_fits fh1" "good z" "fh1 = enc_header (streamed_header fh)"
    "K = enc_kind_of (env_suite V) rnd (streamed_header fh)"
  obtains fw z1 fw1 fw2 enc fh2 where "newFileWriter V wr rnd fh z = (Inr fw, fh1, z1)"
    "write_seq (fileWriter_Write fh1 wr) ps fw = (None, fw1)"
    "fileWriter_Close V wr fh1 fw1 = (None, fh2, fw2)" "codes enc (concat ps)"
    "good (zipw (fw_enc fw2))"
    "out (zipw (fw_enc fw2)) = out z @ entry_image (env_suite V) K fh1 enc fh2"
    "fh2 = closed_header False (kind_is_aes K) (crc32 (concat ps)) (env_xxh3 V (concat ps))
       (of_nat (length (encrypted K enc @ authcode (env_suite V) K enc))) (of_nat (length (concat ps))) fh1"
proof -
  from newFileWriter_ok [OF C] obtain fw z1 where fw: "newFileWriter V wr rnd fh z = (Inr fw, fh1, z1)"
    "out z1 = out z @ fileHeader_wire fh1 @ Name fh1 @ Extra fh1"
    "opened C codes False (out z1) K fh1 fw []" by metis
  from opened_Writes [OF fw(3), of ps] obtain fw1 where
    fw1: "write_seq (fileWriter_Write fh1 wr) ps fw = (None, fw1)"
    "opened C codes False (out z1) K fh1 fw1 (concat ps)" by auto
  from opened_Close [OF fw1(2), of V] fw(2) that [OF fw(1) fw1(1)] show ?thesis
    by (simp add: entry_image_def) metis
qed

end

interpretation part: entry_writer sink_write sink_data sink_good
  by unfold_locales


text \<open>A closed file refuses writes and a second \<open>Close\<close>, without touching the archive.\<close>

lemma fileWriter_closed:
  assumes "fileWriter_Close V wr fh fw = (e, fh', fw')"
  shows "fileWriter_Write fh'' wr fw' p = (0, Some ErrWriteClosed, fw')
    \<and> fileWriter_Close V wr fh'' fw' = (Some ErrFileClosedTwice, fh'', fw')"
proof -
  have "fw_closed fw'"
    using assms by (auto simp: fileWriter_Close_def Let_def with_enc_def split: prod.splits if_splits option.splits)
  then show ?thesis by (simp add: fileWriter_Write_def fileWriter_Close_def)
qed

text \<open>An environment for the examples: the toy AES suite, a \<open>flate\<close> that copies, a length for a hash.\<close>

definition toy_env :: "('z, int) writer_env" where
  "toy_env = \<lparr>env_suite = toy_suite, env_flate = raw_flate copy_flate, env_comps = Map.empty,
     env_xxh3 = (\<lambda>p. of_nat (length p))\<rparr>"

definition toy_rand :: "nat \<Rightarrow> byte list result" where
  "toy_rand n = Inr (replicate n 5)"

definition toy_header :: FileHeader where
  "toy_header = SetEncryptionMethod AES256Encryption (SetPassword [112, 119]
     (zeroFileHeader\<lparr>Name := [97], Method := Deflate, CompressionLevel := 9\<rparr>))"

lemma toy_header_simps [simp]:
  "Name toy_header = [97]" "Method toy_header = Deflate" "CompressionLevel toy_header = 9"
  "password toy_header = Some [112, 119]" "encryption toy_header = AES256Encryption"
  "aesStrength toy_header = 3" "Extra toy_header = []" "Comment toy_header = []" "XXH3 toy_header = 0"
  by (simp_all add: toy_header_def SetEncryptionMethod_def SetPassword_def setEncryptionBit_def
      zeroFileHeader_def Let_def)

lemma toy_ready:
  "compressor (env_flate toy_env) (env_comps toy_env) Deflate 9 = Some (custom_compressor (raw_flate copy_flate 9))"
  "comp_ok (custom_compressor (raw_flate copy_flate 9)) (=)"
  "enc_ready (env_suite toy_env) toy_rand (streamed_header toy_header)"
  "header_fits (enc_header (streamed_header toy_header))"
proof -
  show "comp_ok (custom_compressor (raw_flate copy_flate 9)) (=)"
    by (intro custom_compressor_ok copy_flate_comp_ok) (simp_all add: HuffmanOnly_def BestCompression_def)
  show "enc_ready (env_suite toy_env) toy_rand (streamed_header toy_header)"
    using toy_suite_ok by (simp add: enc_ready_def toy_env_def toy_rand_def streamed_header_def aesKeyLen_def)
  show "header_fits (enc_header (streamed_header toy_header))"
    by (simp add: header_fits_def enc_header_def streamed_header_def aes_extra_def extraField_def)
qed (simp add: compressor_def toy_env_def Store_def Deflate_def)


text \<open>
  C31. The sizes of a closed entry are well-formed: either both 32-bit fields hold the marker of zip64
  and the version asks for zip64, or neither does and both hold the exact sizes. The marker never
  stands for a size.
\<close>

theorem fileWriter_Close_sizes:
  assumes "fileWriter_Close V wr fh fw = (None, fh', fw')"
  shows "if isZip64 fh'
    then CompressedSize fh' = 0xFFFFFFFF \<and> UncompressedSize fh' = 0xFFFFFFFF \<and> ReaderVersion fh' = zipVersion45
    else unat (CompressedSize fh') = unat (CompressedSize64 fh') \<and> CompressedSize fh' \<noteq> 0xFFFFFFFF
      \<and> unat (UncompressedSize fh') = unat (UncompressedSize64 fh') \<and> UncompressedSize fh' \<noteq> 0xFFFFFFFF"
proof -
  from assms obtain raw aes crc xxh cs us where fh': "fh' = closed_header raw aes crc xxh cs us fh"
    by (auto simp: fileWriter_Close_def Let_def split: prod.splits if_splits option.splits)
  have small: "unat (ucast x :: u32) = unat x" "(ucast x :: u32) \<noteq> 0xFFFFFFFF" if "x < 0xFFFFFFFF" for x :: u64
  proof -
    from that have "unat x < 4294967295" by (simp add: word_less_nat_alt)
    then show u: "unat (ucast x :: u32) = unat x" by (simp add: unsigned_ucast_eq unsigned_take_bit_eq take_bit_nat_eq_self)
    show "(ucast x :: u32) \<noteq> 0xFFFFFFFF"
    proof
      assume "(ucast x :: u32) = 0xFFFFFFFF"
      then have "unat (ucast x :: u32) = 4294967295" by simp
      with u \<open>unat x < 4294967295\<close> show False by simp
    qed
  qed
  show ?thesis
  proof (cases "isZip64 fh'")
    case True
    then show ?thesis by (auto simp: fh' closed_header_def isZip64_def Let_def split: if_splits)
  next
    case False
    then have "CompressedSize64 fh' < 0xFFFFFFFF" "UncompressedSize64 fh' < 0xFFFFFFFF"
      by (auto simp: isZip64_def)
    note s = small [OF this(1)] small [OF this(2)]
    have "CompressedSize fh' = ucast (CompressedSize64 fh')" "UncompressedSize fh' = ucast (UncompressedSize64 fh')"
      using False by (auto simp: fh' closed_header_def isZip64_def Let_def split: if_splits)
    with s False show ?thesis by simp
  qed
qed

lemma fileWriter_Close_sizes_witness:
  "\<exists>fh fw fh' fw'. fileWriter_Close (toy_env :: (sink, int) writer_env) sink_write fh fw = (None, fh', fw')
     \<and> unat (UncompressedSize fh') = 3 \<and> unat (CompressedSize fh') = 3"
proof -
  let ?V = "toy_env :: (sink, int) writer_env" and ?fh = "zeroFileHeader\<lparr>Name := [97]\<rparr>"
  have m: "Method ?fh = Store" "password (streamed_header ?fh) = None" "Extra ?fh = []"
    by (simp_all add: zeroFileHeader_def Store_def streamed_header_def)
  have C: "compressor (env_flate ?V) (env_comps ?V) (Method ?fh) (CompressionLevel ?fh) = Some nop_compressor"
    by (simp add: compressor_def m)
  have r: "enc_ready (env_suite ?V) toy_rand (streamed_header ?fh)" by (simp add: enc_ready_def m)
  have f: "header_fits (enc_header (streamed_header ?fh))"
    by (simp add: header_fits_def enc_header_def writesAES_def m) (simp add: streamed_header_def zeroFileHeader_def)
  have "sink_good empty_sink" by (simp add: sink_good_def empty_sink_def)
  have K: "KPlain = enc_kind_of (env_suite ?V) toy_rand (streamed_header ?fh)"
    by (simp add: enc_kind_of_def m)
  let ?fh1 = "enc_header (streamed_header ?fh)"
  obtain fw z1 fw1 fw2 enc fh2 where "newFileWriter ?V sink_write toy_rand ?fh empty_sink = (Inr fw, ?fh1, z1)"
    "write_seq (fileWriter_Write ?fh1 sink_write) [[1, 2], [3]] fw = (None, fw1)" and
    c: "fileWriter_Close ?V sink_write ?fh1 fw1 = (None, fh2, fw2)" "enc = concat [[1, 2], [3]]"
    and "sink_good (zipw (fw_enc fw2))"
      "sink_data (zipw (fw_enc fw2)) = sink_data empty_sink @ entry_image (env_suite ?V) KPlain ?fh1 enc fh2"
    and h: "fh2 = closed_header False (kind_is_aes KPlain) (crc32 (concat [[1, 2], [3]])) (env_xxh3 ?V (concat [[1, 2], [3]]))
       (of_nat (length (encrypted KPlain enc @ authcode (env_suite ?V) KPlain enc))) (of_nat (length (concat [[1, 2], [3 :: byte]]))) ?fh1"
    by (rule part.entry_written [OF C nop_compressor_ok r f \<open>sink_good empty_sink\<close> refl K])
  have s: "CompressedSize64 fh2 = 3" "UncompressedSize64 fh2 = 3" by (simp_all add: c(2) h closed_header_def Let_def)
  then have "\<not> isZip64 fh2" by (simp add: isZip64_def)
  with fileWriter_Close_sizes [OF c(1)] s c(1) show ?thesis by auto
qed

end
