(* ===== verification/Zip_Open.thy ===== *)
theory Zip_Open
  imports Zip_Reader Zip_FileWriter
begin

text \<open>
  Opening an entry (reader.go): \<open>File.Open\<close> stacks the section of the entry, its decryption, a
  read-ahead buffer, the decompressor and the checksum. \<open>VerifyXXH3\<close> reads an entry through it.
\<close>

section \<open>The readers of an entry\<close>

text \<open>\<open>r\<close> after the check for encryption.\<close>

datatype enc_reader =
    PlainR section_reader
  | ZipR "section_reader zipCryptoDecryptReader"
  | AesR aes_reader

fun enc_reader_Read :: "aes_suite \<Rightarrow> enc_reader read_fn" where
  "enc_reader_Read S (PlainR s) n = do { (d, e, s) \<leftarrow> section_Read s n; Some (d, e, PlainR s) }"
| "enc_reader_Read S (ZipR z) n =
     do { (d, e, z) \<leftarrow> zipCryptoDecryptReader_Read section_Read z n; Some (d, e, ZipR z) }"
| "enc_reader_Read S (AesR a) n = do { (d, e, a) \<leftarrow> aes_reader_Read S a n; Some (d, e, AesR a) }"

text \<open>\<open>r\<close> as the decompressor gets it.\<close>

datatype body_reader =
    Direct enc_reader
  | Ahead "enc_reader bufio_reader"

fun body_Read :: "aes_suite \<Rightarrow> body_reader read_fn" where
  "body_Read S (Direct r) n = do { (d, e, r) \<leftarrow> enc_reader_Read S r n; Some (d, e, Direct r) }"
| "body_Read S (Ahead b) n = do { (d, e, b) \<leftarrow> bufio_Read (enc_reader_Read S) b n; Some (d, e, Ahead b) }"

text \<open>What the readers of the package use: the AES primitives, \<open>newFlateReader\<close>, the registered
  decompressors and the \<open>xxh3\<close> hash.\<close>

record 'd reader_env =
  renv_suite :: aes_suite
  renv_flate :: "(body_reader, 'd) decompressor"
  renv_decomps :: "(body_reader, 'd) decompressors"
  renv_xxh3 :: "byte list \<Rightarrow> u64"

section \<open>\<open>readDataDescriptor\<close> and \<open>checksumReader\<close>\<close>

text \<open>The checks on the bytes of the descriptor.\<close>

definition check_descriptor :: "byte list \<Rightarrow> FileHeader \<Rightarrow> zip_error option" where
  "check_descriptor b f = (case rb_uint32 b of
     None \<Rightarrow> Some GoPanic
   | Some (sig, b') \<Rightarrow>
       if sig = dataDescriptorSignature \<and> length b < dataDescriptorLen then Some ErrUnexpectedEOF
       else (case rb_uint32 (if sig = dataDescriptorSignature then b' else b) of
               None \<Rightarrow> Some GoPanic
             | Some (crc, _) \<Rightarrow> if crc \<noteq> CRC32 f then Some ErrChecksum else None))"

definition readDataDescriptor ::
  "section_reader \<Rightarrow> FileHeader \<Rightarrow> (zip_error option \<times> section_reader) option" where
  "readDataDescriptor r f = do {
     (b, err, r) \<leftarrow> io_ReadFull section_Read dataDescriptorLen r;
     let err = (if err = Some ErrUnexpectedEOF \<and> dataDescriptorLen - 4 \<le> length b then None else err);
     Some (case err of Some err \<Rightarrow> (Some err, r) | None \<Rightarrow> (check_descriptor b f, r)) }"

record 'r checksumReader =
  ck_rc :: 'r
  ck_hash :: u32
  ck_nread :: u64
  ck_f :: FileHeader
  ck_desr :: "section_reader option"
  ck_err :: "zip_error option"

text \<open>What \<open>io.EOF\<close> of \<open>rc\<close> becomes.\<close>

definition checksumReader_finish :: "'r checksumReader \<Rightarrow> (zip_error \<times> 'r checksumReader) option" where
  "checksumReader_finish c =
     (if ck_nread c \<noteq> UncompressedSize64 (ck_f c) then Some (ErrUnexpectedEOF, c)
      else case ck_desr c of
        Some desr \<Rightarrow> do {
          (err1, desr) \<leftarrow> readDataDescriptor desr (ck_f c);
          let c = c\<lparr>ck_desr := Some desr\<rparr>;
          Some (case err1 of
              Some err1 \<Rightarrow> (if err1 = ErrEOF then ErrUnexpectedEOF else err1, c)
            | None \<Rightarrow> (if ck_hash c \<noteq> CRC32 (ck_f c) then ErrChecksum else ErrEOF, c)) }
      | None \<Rightarrow> Some (if CRC32 (ck_f c) \<noteq> 0 \<and> ck_hash c \<noteq> CRC32 (ck_f c) then ErrChecksum else ErrEOF, c))"

definition checksumReader_Read :: "'r read_fn \<Rightarrow> 'r checksumReader read_fn" where
  "checksumReader_Read rd c n = (case ck_err c of
     Some err \<Rightarrow> Some ([], Some err, c)
   | None \<Rightarrow> do {
       (b, err, rc) \<leftarrow> rd (ck_rc c) n;
       let c = c\<lparr>ck_rc := rc, ck_hash := crc32_Write (ck_hash c) b, ck_nread := ck_nread c + of_nat (length b)\<rparr>;
       (case err of
          None \<Rightarrow> Some (b, None, c)
        | Some err \<Rightarrow> do {
            (err, c) \<leftarrow> (if err = ErrEOF then checksumReader_finish c else Some (err, c));
            Some (b, Some err, c\<lparr>ck_err := Some err\<rparr>) }) })"

section \<open>\<open>File.Open\<close>\<close>

text \<open>The check for encryption.\<close>

definition decrypted ::
  "aes_suite \<Rightarrow> section_reader \<Rightarrow> FileHeader \<Rightarrow> enc_reader result option" where
  "decrypted S rr f =
     (if \<not> IsEncrypted f then Some (Inr (PlainR rr))
      else case password f of
        None \<Rightarrow> Some (Inl ErrPassword)
      | Some pw \<Rightarrow>
          if ae f = 0 then
            let (_, check) = zipCryptoCheckBytes (Flags f) (ModifiedTime f) (CRC32 f) in do {
              (err, zr) \<leftarrow> zipCryptoDecryptReader_readHeader section_Read (newZipCryptoDecryptReader rr pw check True);
              Some (case err of Some err \<Rightarrow> Inl err | None \<Rightarrow> Inr (ZipR zr)) }
          else do { a \<leftarrow> newDecryptionReader S rr f; Some (map_sum id AesR a) })"

definition maxEntryReadBuffer :: int where "maxEntryReadBuffer = 64 * 2 ^ 10"

text \<open>The \<open>io.ReadCloser\<close> \<open>Open\<close> returns, with the methods of its decompressor.\<close>

datatype 'd open_rc =
    Unchecked "'d comp_reader \<times> body_reader"
  | Checked "('d comp_reader \<times> body_reader) checksumReader"

record 'd openFile =
  op_D :: "(body_reader, 'd comp_reader) decompressor"
  op_rc :: "'d open_rc"

definition File_Open :: "'d reader_env \<Rightarrow> File \<Rightarrow> 'd openFile result option" where
  "File_Open V f = (case findBodyOffset f of
     Inl err \<Rightarrow> Some (Inl err)
   | Inr bodyOffset \<Rightarrow>
       let h = f_hdr f;
           sz = int64_of (CompressedSize64 h);
           off = add64 (headerOffset f) bodyOffset;
           rr = NewSectionReader (zipr f) off sz
       in do {
         r \<leftarrow> decrypted (renv_suite V) rr h;
         (case r of
            Inl err \<Rightarrow> Some (Inl err)
          | Inr r \<Rightarrow>
              (case decompressor (renv_flate V) (renv_decomps V) (Method h) of
                 None \<Rightarrow> Some (Inl ErrAlgorithm)
               | Some D \<Rightarrow>
                   let r = (if Method h \<noteq> Store
                        then Ahead (bufio_NewReaderSize r (nat (min (max sz 0) maxEntryReadBuffer)))
                        else Direct r)
                   in do {
                     rc \<leftarrow> dz_new D (body_Read (renv_suite V)) r;
                     Some (Inr \<lparr>op_D = D, op_rc =
                       (if isAE2 h then Unchecked rc
                        else Checked \<lparr>ck_rc = rc, ck_hash = crc32 [], ck_nread = 0, ck_f = h,
                          ck_desr = (if hasDataDescriptor h
                            then Some (NewSectionReader (zipr f) (add64 off sz) (int dataDescriptorLen)) else None),
                          ck_err = None\<rparr>)\<rparr>) })) })"

definition openFile_Read :: "'d reader_env \<Rightarrow> 'd openFile read_fn" where
  "openFile_Read V x n =
     (let rd = dz_Read (op_D x) (body_Read (renv_suite V)) in
      case op_rc x of
        Unchecked rc \<Rightarrow> do { (b, e, rc) \<leftarrow> rd rc n; Some (b, e, x\<lparr>op_rc := Unchecked rc\<rparr>) }
      | Checked c \<Rightarrow> do { (b, e, c) \<leftarrow> checksumReader_Read rd c n; Some (b, e, x\<lparr>op_rc := Checked c\<rparr>) })"

definition openFile_Close :: "'d openFile \<Rightarrow> zip_error option \<times> 'd openFile" where
  "openFile_Close x = (case op_rc x of
     Unchecked rc \<Rightarrow> (case dz_Close (op_D x) rc of (e, rc) \<Rightarrow> (e, x\<lparr>op_rc := Unchecked rc\<rparr>))
   | Checked c \<Rightarrow> (case dz_Close (op_D x) (ck_rc c) of (e, rc) \<Rightarrow> (e, x\<lparr>op_rc := Checked (c\<lparr>ck_rc := rc\<rparr>)\<rparr>)))"

text \<open>\<open>VerifyXXH3\<close>: \<open>io.Copy\<close> with its 32 KiB buffer into the hash, which takes everything.\<close>

definition VerifyXXH3 :: "'d reader_env \<Rightarrow> File \<Rightarrow> zip_error option option" where
  "VerifyXXH3 V f =
     (if XXH3 (f_hdr f) = 0 then Some None
      else do {
        r \<leftarrow> File_Open V f;
        (case r of
           Inl err \<Rightarrow> Some (Some err)
         | Inr rc \<Rightarrow> do {
             (n, err, h, rc) \<leftarrow> io_Copy sink_write (openFile_Read V) (32 * 1024) 0 empty_sink rc;
             Some (if err \<noteq> None then err
                   else if renv_xxh3 V (sink_data h) \<noteq> XXH3 (f_hdr f) then Some ErrXXH3 else None) }) })"

definition File_SetPassword :: "byte list \<Rightarrow> File \<Rightarrow> File" where
  "File_SetPassword pw f = f\<lparr>f_hdr := SetPassword pw (f_hdr f)\<rparr>"

definition Reader_SetPassword :: "byte list \<Rightarrow> Reader \<Rightarrow> Reader" where
  "Reader_SetPassword pw r = r\<lparr>rdr_File := map (File_SetPassword pw) (rdr_File r)\<rparr>"

definition HeaderOffset :: "File \<Rightarrow> int" where "HeaderOffset f = headerOffset f"

section \<open>What a reader delivers\<close>

text \<open>
  \<open>delivers rd s bs e\<close>: read to its end from \<open>s\<close>, whatever the lengths asked for, \<open>rd\<close> gives the bytes
  \<open>bs\<close> and then the error \<open>e\<close>.
\<close>

definition delivers :: "'s read_fn \<Rightarrow> 's \<Rightarrow> byte list \<Rightarrow> zip_error \<Rightarrow> bool" where
  "delivers rd s bs e \<longleftrightarrow>
     (\<exists>I stream fin rank. io_reader rd I stream fin rank \<and> I s \<and> stream s = bs \<and> fin s = e)"

lemma deliversI:
  "io_reader rd I stream fin rank \<Longrightarrow> I s \<Longrightarrow> stream s = bs \<Longrightarrow> fin s = e \<Longrightarrow> delivers rd s bs e"
  unfolding delivers_def by blast

lemma deliversE:
  assumes "delivers rd s bs e"
  obtains I stream fin rank where "io_reader rd I stream fin rank" "I s" "stream s = bs" "fin s = e"
  using assms unfolding delivers_def by blast

lemma delivers_Copy:
  assumes "delivers rd s bs e" "0 < k"
  shows "\<exists>n w s'. io_Copy sink_write rd k 0 empty_sink s = Some (n, if e = ErrEOF then None else Some e, w, s')
    \<and> sink_data w = bs"
proof -
  obtain I stream fin rank where r: "io_reader rd I stream fin rank" "I s" "stream s = bs" "fin s = e"
    using assms(1) by (rule deliversE)
  have "io_pipe rd I stream fin rank sink_write sink_data sink_good"
    by (intro io_pipe.intro r(1) snk.io_writer_axioms)
  from io_pipe.Copy_spec [OF this r(2) assms(2), of 0 empty_sink] r(3,4) show ?thesis by auto
qed

text \<open>A stream that hands out a byte at a time.\<close>

definition byte_creader :: "byte list \<Rightarrow> creader" where
  "byte_creader bs = \<lparr>cr_chunks = map (\<lambda>b. [b]) bs, cr_end = ErrEOF, cr_eager = False\<rparr>"

lemma delivers_byte_creader: "delivers creader_Read (byte_creader bs) bs ErrEOF"
  by (rule deliversI [OF cr.io_reader_axioms]) (simp_all add: byte_creader_def creader_stream_def)

text \<open>Along an embedding of its states a reader delivers the same.\<close>

lemma delivers_map:
  assumes "delivers rd s bs e" and g: "\<And>s n. rd' (g s) n = map_option (\<lambda>(b, e, s). (b, e, g s)) (rd s n)"
    and f: "\<And>s. f (g s) = s"
  shows "delivers rd' (g s) bs e"
proof -
  obtain I stream fin rank where r: "io_reader rd I stream fin rank" "I s" "stream s = bs" "fin s = e"
    using assms(1) by (rule deliversE)
  have "io_reader rd' (\<lambda>t. \<exists>s. t = g s \<and> I s) (\<lambda>t. stream (f t)) (\<lambda>t. fin (f t)) (\<lambda>t. rank (f t))"
    by (rule io_reader_map [OF r(1)]) (use f g in \<open>auto, metis\<close>)
  then show ?thesis by (rule deliversI) (use r(2-4) f in auto)
qed

context buffered_reader
begin

lemma delivers_ahead: "inv s \<Longrightarrow> delivers (bufio_Read rd) (bufio_NewReaderSize s sz) (stream s) (fin s)"
  by (rule deliversI [OF bufr.io_reader_axioms]) (simp_all add: br_fresh)

end

lemma delivers_bufio:
  assumes "delivers rd s bs e"
  shows "delivers (bufio_Read rd) (bufio_NewReaderSize s sz) bs e"
proof -
  obtain I stream fin rank where r: "io_reader rd I stream fin rank" "I s" "stream s = bs" "fin s = e"
    using assms by (rule deliversE)
  with buffered_reader.delivers_ahead [OF buffered_reader.intro [OF r(1)] r(2)] show ?thesis by simp
qed

lemma delivers_decomp:
  assumes "decomp_ok D codes" "delivers rd s enc ErrEOF" "codes enc plain"
  obtains d s' where "dz_new D rd s = Some (d, s')" "delivers (dz_Read D rd) (d, s') plain ErrEOF"
proof -
  obtain I stream fin rank where r: "io_reader rd I stream fin rank" "I s" "stream s = enc" "fin s = ErrEOF"
    using assms(2) by (rule deliversE)
  from assms(1) [unfolded decomp_ok_def, rule_format, OF r(1,2)] obtain d s' dinv dstream dfin drank where
    "dz_new D rd s = Some (d, s')" "io_reader (dz_Read D rd) dinv dstream dfin drank" "dinv (d, s')"
    "\<forall>plain. codes (stream s) plain \<longrightarrow> fin s = ErrEOF \<longrightarrow> dstream (d, s') = plain \<and> dfin (d, s') = ErrEOF"
    by auto
  with that r(3,4) assms(3) show ?thesis by (simp add: delivers_def) blast
qed

lemma delivers_enc [intro]:
  "delivers section_Read s bs e \<Longrightarrow> delivers (enc_reader_Read S) (PlainR s) bs e"
  "delivers (zipCryptoDecryptReader_Read section_Read) z bs e \<Longrightarrow> delivers (enc_reader_Read S) (ZipR z) bs e"
  "delivers (aes_reader_Read S) a bs e \<Longrightarrow> delivers (enc_reader_Read S) (AesR a) bs e"
proof -
  show "delivers section_Read s bs e \<Longrightarrow> delivers (enc_reader_Read S) (PlainR s) bs e"
    by (erule delivers_map [where f = "\<lambda>r. case r of PlainR s \<Rightarrow> s"])
       (auto simp: map_option_case split: option.splits)
  show "delivers (zipCryptoDecryptReader_Read section_Read) z bs e \<Longrightarrow> delivers (enc_reader_Read S) (ZipR z) bs e"
    by (erule delivers_map [where f = "\<lambda>r. case r of ZipR z \<Rightarrow> z"])
       (auto simp: map_option_case split: option.splits)
  show "delivers (aes_reader_Read S) a bs e \<Longrightarrow> delivers (enc_reader_Read S) (AesR a) bs e"
    by (erule delivers_map [where f = "\<lambda>r. case r of AesR a \<Rightarrow> a"])
       (auto simp: map_option_case split: option.splits)
qed

lemma delivers_body [intro]:
  "delivers (enc_reader_Read S) r bs e \<Longrightarrow> delivers (body_Read S) (Direct r) bs e"
  "delivers (enc_reader_Read S) r bs e \<Longrightarrow> delivers (body_Read S) (Ahead (bufio_NewReaderSize r sz)) bs e"
proof -
  show "delivers (enc_reader_Read S) r bs e \<Longrightarrow> delivers (body_Read S) (Direct r) bs e"
    by (erule delivers_map [where f = "\<lambda>r. case r of Direct r \<Rightarrow> r"])
       (auto simp: map_option_case split: option.splits)
  show "delivers (enc_reader_Read S) r bs e \<Longrightarrow> delivers (body_Read S) (Ahead (bufio_NewReaderSize r sz)) bs e"
    by (drule delivers_bufio [where sz = sz], erule delivers_map [where f = "\<lambda>r. case r of Ahead b \<Rightarrow> b"])
       (auto simp: map_option_case split: option.splits)
qed

section \<open>The readers over an archive\<close>

context random_access
begin

lemma delivers_section:
  "sec_r s = ra \<Longrightarrow> 0 \<le> sec_off s \<Longrightarrow> delivers section_Read s (section_bytes D s) ErrEOF"
  by (rule deliversI [OF sec.io_reader_axioms]) auto

lemma delivers_aes:
  "aes_inv a \<Longrightarrow> delivers (aes_reader_Read S) a (fst (aes_view S a)) (snd (aes_view S a))"
  by (rule deliversI [OF aes.io_reader_axioms]) auto

end

sublocale random_access \<subseteq> zsec: zc_source section_Read "\<lambda>s. sec_r s = ra \<and> 0 \<le> sec_off s"
  "section_bytes D" "\<lambda>_. ErrEOF" "\<lambda>s. nat (sec_limit s - sec_off s)"
  by unfold_locales

lemma readHeader_not_EOF:
  assumes "zipCryptoDecryptReader_readHeader rd (newZipCryptoDecryptReader s pw check verify) = Some (e, zd)"
  shows "e \<noteq> Some ErrEOF"
  using assms
  by (auto simp: zipCryptoDecryptReader_readHeader_def newZipCryptoDecryptReader_def Let_def bind_eq_Some_conv split_beta
      split: option.splits if_splits)

context random_access
begin

text \<open>The header is checked by \<open>Open\<close>; what follows it is delivered.\<close>

lemma delivers_zip:
  assumes "sec_r s = ra" "0 \<le> sec_off s"
    and v: "zd_view (section_bytes D s) ErrEOF (newZipCryptoDecryptReader s pw check verify) = (bs, e)"
  obtains zd where "zipCryptoDecryptReader_readHeader section_Read (newZipCryptoDecryptReader s pw check verify) =
      Some (if e = ErrEOF then None else Some e, zd)"
    "delivers (zipCryptoDecryptReader_Read section_Read) zd bs e"
proof -
  let ?z = "newZipCryptoDecryptReader s pw check verify"
  have s: "zd_r ?z = s" by (simp add: newZipCryptoDecryptReader_def)
  have i: "zsec.zd_inv ?z" using assms(1,2) by (simp add: zsec.zd_inv_def newZipCryptoDecryptReader_def)
  obtain err zd where
    h: "zipCryptoDecryptReader_readHeader section_Read ?z = Some (err, zd)" and
    zd: "zsec.zd_inv zd" "zd_headerDone zd" "err = zd_err zd"
      "zd_view (section_bytes D (zd_r zd)) ErrEOF zd = (bs, e)"
    by (rule zsec.readHeader_spec [OF i]) (simp only: s v)
  have "err = (if e = ErrEOF then None else Some e)"
    using zd(2-4) readHeader_not_EOF [OF h] by (auto simp: zd_view_def split: option.splits)
  moreover have "delivers (zipCryptoDecryptReader_Read section_Read) zd bs e"
    by (rule deliversI [OF zsec.zd.io_reader_axioms]) (use zd in simp_all)
  ultimately show ?thesis using h that by simp
qed

end

section \<open>The checked reader\<close>

text \<open>What \<open>readDataDescriptor\<close> finds in a section holding \<open>bs\<close>.\<close>

definition descriptor_verdict :: "byte list \<Rightarrow> FileHeader \<Rightarrow> zip_error option" where
  "descriptor_verdict bs f =
     (if length bs < 12 then Some (if bs = [] then ErrEOF else ErrUnexpectedEOF)
      else check_descriptor (take 16 bs) f)"

context random_access
begin

lemma readDataDescriptor_spec:
  assumes "sec_r s = ra" "0 \<le> sec_off s"
  obtains s' where "readDataDescriptor s f = Some (descriptor_verdict (section_bytes D s) f, s')"
proof -
  obtain s' where s': "io_ReadFull section_Read 16 s =
      Some (take 16 (section_bytes D s), readFull_err 16 (section_bytes D s) ErrEOF, s')"
    using section_ReadFull [OF assms, of 16] by metis
  show ?thesis
    by (rule that [of s'])
       (auto simp: readDataDescriptor_def descriptor_verdict_def dataDescriptorLen_def s' readFull_err_def)
qed

end

text \<open>
  The same by the format: \<open>bs\<close> starts with a data descriptor, of 16 bytes with its signature and of 12
  without, that has the checksum \<open>crc\<close>. A checksum equal to the signature has to be written with it.
\<close>

definition descriptor_truncated :: "byte list \<Rightarrow> bool" where
  "descriptor_truncated bs \<longleftrightarrow> length bs < (if take 4 bs = put32 dataDescriptorSignature then 16 else 12)"

definition descriptor_repeats :: "u32 \<Rightarrow> byte list \<Rightarrow> bool" where
  "descriptor_repeats crc bs \<longleftrightarrow>
     take 8 bs = put32 dataDescriptorSignature @ put32 crc
     \<or> take 4 bs = put32 crc \<and> crc \<noteq> dataDescriptorSignature"

lemma put32_eq [simp]: "put32 v = put32 w \<longleftrightarrow> v = w"
  by (metis get_put_exact(2))

lemma take_4_put32:
  assumes "4 \<le> length b"
  shows "take 4 b = put32 v \<longleftrightarrow> get32 b = v"
proof -
  have "get32 (take 4 b) = get32 b" using assms by (simp add: get32_le)
  with put_get(2) [of "take 4 b"] assms show ?thesis by (metis get_put_exact(2) length_take min.absorb2)
qed

lemma take_8_put32:
  assumes "8 \<le> length b"
  shows "take 8 b = put32 v @ put32 w \<longleftrightarrow> get32 b = v \<and> get32 (drop 4 b) = w"
proof -
  have "take 8 b = take 4 b @ take 4 (drop 4 b)" using take_add [of 4 4 b] by simp
  then show ?thesis using assms by (simp add: take_4_put32)
qed

lemma descriptor_verdict_wire:
  "descriptor_verdict bs f =
     (if descriptor_truncated bs then Some (if bs = [] then ErrEOF else ErrUnexpectedEOF)
      else if descriptor_repeats (CRC32 f) bs then None else Some ErrChecksum)"
proof (cases "length bs < 12")
  case True
  then show ?thesis by (auto simp: descriptor_verdict_def descriptor_truncated_def)
next
  case False
  then have n: "4 \<le> length bs" "8 \<le> length bs" "bs \<noteq> []" by auto
  have g: "get32 (take 16 bs) = get32 bs" "get32 (drop 4 (take 16 bs)) = get32 (drop 4 bs)"
    using False by (simp_all add: get32_le drop_take)
  show ?thesis using False n
    by (auto simp: descriptor_verdict_def check_descriptor_def rb_uint32_def descriptor_truncated_def
        descriptor_repeats_def take_4_put32 [OF n(1)] take_8_put32 [OF n(2)] g)
qed

text \<open>What becomes of the end of \<open>rc\<close> after a stream of \<open>n\<close> bytes with the given CRC-32.\<close>

definition checked_verdict :: "byte list option \<Rightarrow> FileHeader \<Rightarrow> u32 \<Rightarrow> u64 \<Rightarrow> zip_error" where
  "checked_verdict desc f crc n =
     (if n \<noteq> UncompressedSize64 f then ErrUnexpectedEOF
      else case desc of
        None \<Rightarrow> if CRC32 f \<noteq> 0 \<and> crc \<noteq> CRC32 f then ErrChecksum else ErrEOF
      | Some bs \<Rightarrow> (case descriptor_verdict bs f of
            Some e \<Rightarrow> if e = ErrEOF then ErrUnexpectedEOF else e
          | None \<Rightarrow> if crc \<noteq> CRC32 f then ErrChecksum else ErrEOF))"

locale checked_entry = io_reader rd inv stream fin rank + random_access ra D
  for rd :: "'r read_fn" and inv :: "'r \<Rightarrow> bool" and stream :: "'r \<Rightarrow> byte list"
    and fin :: "'r \<Rightarrow> zip_error" and rank :: "'r \<Rightarrow> nat" and ra :: read_at and D :: "byte list"
begin

definition ck_inv :: "'r checksumReader \<Rightarrow> bool" where
  "ck_inv c \<longleftrightarrow> inv (ck_rc c)
     \<and> (ck_err c = None \<longrightarrow> (\<forall>d. ck_desr c = Some d \<longrightarrow> sec_r d = ra \<and> 0 \<le> sec_off d))"

definition ck_stream :: "'r checksumReader \<Rightarrow> byte list" where
  "ck_stream c = (if ck_err c = None then stream (ck_rc c) else [])"

definition ck_fin :: "'r checksumReader \<Rightarrow> zip_error" where
  "ck_fin c = (case ck_err c of
     Some e \<Rightarrow> e
   | None \<Rightarrow>
       if fin (ck_rc c) \<noteq> ErrEOF then fin (ck_rc c)
       else checked_verdict (map_option (section_bytes D) (ck_desr c)) (ck_f c)
         (crc32_Write (ck_hash c) (stream (ck_rc c))) (ck_nread c + of_nat (length (stream (ck_rc c)))))"

lemma checksumReader_finish_spec:
  assumes "\<And>d. ck_desr c = Some d \<Longrightarrow> sec_r d = ra \<and> 0 \<le> sec_off d"
  obtains d where "checksumReader_finish c =
    Some (checked_verdict (map_option (section_bytes D) (ck_desr c)) (ck_f c) (ck_hash c) (ck_nread c),
      c\<lparr>ck_desr := d\<rparr>)"
proof (cases "ck_desr c")
  case None
  then have "c\<lparr>ck_desr := None\<rparr> = c" by (cases c) simp
  with None that [of None] show ?thesis by (simp add: checksumReader_finish_def checked_verdict_def)
next
  case (Some s)
  obtain s' where s': "readDataDescriptor s (ck_f c) = Some (descriptor_verdict (section_bytes D s) (ck_f c), s')"
    using readDataDescriptor_spec assms [OF Some] by metis
  have "c\<lparr>ck_desr := Some s\<rparr> = c" using Some by (cases c) simp
  then show ?thesis
    using that [of "Some s"] that [of "Some s'"] s' Some
    by (cases "ck_nread c = UncompressedSize64 (ck_f c)")
       (auto simp: checksumReader_finish_def checked_verdict_def split: option.splits)
qed

lemma ck_step:
  assumes "ck_inv c" "0 < n" "ck_err c = None"
  obtains b err rc where "rd (ck_rc c) n = Some (b, err, rc)"
    "inv rc" "length b \<le> n" "stream (ck_rc c) = b @ stream rc" "fin rc = fin (ck_rc c)" "rank rc \<le> rank (ck_rc c)"
    "err = None \<longrightarrow> rank rc < rank (ck_rc c)" "err \<noteq> None \<longrightarrow> err = Some (fin rc) \<and> stream rc = []"
    "\<exists>d. checksumReader_Read rd c n =
      (let c' = c\<lparr>ck_rc := rc, ck_hash := crc32_Write (ck_hash c) b, ck_nread := ck_nread c + of_nat (length b)\<rparr>
       in Some (b, if err = None then None else Some (ck_fin c'),
            if err = None then c' else c'\<lparr>ck_desr := d, ck_err := Some (ck_fin c')\<rparr>))"
proof -
  from assms have i: "inv (ck_rc c)" by (simp add: ck_inv_def)
  obtain b err rc where r: "rd (ck_rc c) n = Some (b, err, rc)" using read_returns [OF i assms(2)] by blast
  let ?c = "c\<lparr>ck_rc := rc, ck_hash := crc32_Write (ck_hash c) b, ck_nread := ck_nread c + of_nat (length b)\<rparr>"
  note l = read_law [OF i assms(2) r]
  have e: "err \<noteq> None \<longrightarrow> err = Some (fin rc) \<and> stream rc = []"
    using read_end [OF i assms(2), of b _ rc] r l by auto
  have m: "err = None \<longrightarrow> rank rc < rank (ck_rc c)" using read_more [OF i assms(2), of b rc] r by auto
  have desr: "\<And>d. ck_desr ?c = Some d \<Longrightarrow> sec_r d = ra \<and> 0 \<le> sec_off d"
    using assms by (simp add: ck_inv_def)
  obtain d where d: "checksumReader_finish ?c =
    Some (checked_verdict (map_option (section_bytes D) (ck_desr ?c)) (ck_f ?c) (ck_hash ?c) (ck_nread ?c),
      ?c\<lparr>ck_desr := d\<rparr>)" using desr by (rule checksumReader_finish_spec)
  have "\<exists>d. checksumReader_Read rd c n = Some (b, if err = None then None else Some (ck_fin ?c),
            if err = None then ?c else ?c\<lparr>ck_desr := d, ck_err := Some (ck_fin ?c)\<rparr>)"
  proof (cases err)
    case None
    then show ?thesis using r assms(3) by (simp add: checksumReader_Read_def Let_def)
  next
    case (Some x)
    then have x: "x = fin rc" "stream rc = []" using e by auto
    show ?thesis
    proof (cases "x = ErrEOF")
      case True
      then have "ck_fin ?c = checked_verdict (map_option (section_bytes D) (ck_desr ?c)) (ck_f ?c) (ck_hash ?c) (ck_nread ?c)"
        using x assms(3) by (simp add: ck_fin_def)
      with d show ?thesis
        using r Some True assms(3) by (auto simp: checksumReader_Read_def Let_def)
    next
      case False
      then have "ck_fin ?c = x" using x assms(3) by (simp add: ck_fin_def)
      moreover have "?c\<lparr>ck_desr := ck_desr c, ck_err := Some x\<rparr> = ?c\<lparr>ck_err := Some x\<rparr>" by simp
      ultimately show ?thesis using r Some False assms(3)
        by (intro exI [of _ "ck_desr c"]) (simp add: checksumReader_Read_def Let_def)
    qed
  qed
  with that [OF r] l e m show ?thesis by (simp add: Let_def)
qed

end

text \<open>The checked reader over a source is a source of the same bytes, with the verdict for an end.\<close>

context checked_entry
begin

lemma ck_law:
  assumes "ck_inv c" "0 < n" "checksumReader_Read rd c n = Some (b, e, c')"
  shows "ck_inv c' \<and> length b \<le> n \<and> ck_stream c = b @ ck_stream c' \<and> ck_fin c' = ck_fin c
      \<and> rank (ck_rc c') \<le> rank (ck_rc c) \<and> (\<forall>err. e = Some err \<longrightarrow> err = ck_fin c \<and> ck_stream c' = [])
      \<and> (e = None \<longrightarrow> rank (ck_rc c') < rank (ck_rc c))"
proof (cases "ck_err c")
  case (Some x)
  with assms have "b = []" "e = Some x" "c' = c" by (auto simp: checksumReader_Read_def)
  with assms(1) Some show ?thesis by (auto simp: ck_stream_def ck_fin_def)
next
  case None
  show ?thesis
  proof (rule ck_step [OF assms(1,2) None])
    fix b1 err rc
    assume r: "inv rc" "length b1 \<le> n" "stream (ck_rc c) = b1 @ stream rc" "fin rc = fin (ck_rc c)"
      "rank rc \<le> rank (ck_rc c)" "err = None \<longrightarrow> rank rc < rank (ck_rc c)"
      "err \<noteq> None \<longrightarrow> err = Some (fin rc) \<and> stream rc = []"
    let ?c = "c\<lparr>ck_rc := rc, ck_hash := crc32_Write (ck_hash c) b1, ck_nread := ck_nread c + of_nat (length b1)\<rparr>"
    assume "\<exists>d. checksumReader_Read rd c n =
      (let c' = ?c in Some (b1, if err = None then None else Some (ck_fin c'),
            if err = None then c' else c'\<lparr>ck_desr := d, ck_err := Some (ck_fin c')\<rparr>))"
    then obtain d where d: "b = b1" "e = (if err = None then None else Some (ck_fin ?c))"
      "c' = (if err = None then ?c else ?c\<lparr>ck_desr := d, ck_err := Some (ck_fin ?c)\<rparr>)"
      using assms(3) by (auto simp: Let_def)
    have f: "ck_fin ?c = ck_fin c"
      using None r(3,4) by (simp add: ck_fin_def add.assoc)
    have s: "ck_stream c = b1 @ stream rc" using None r(3) by (simp add: ck_stream_def)
    show ?thesis
    proof (cases err)
      case None': None
      have "c' = ?c" "e = None" using d None' by simp_all
      moreover have "ck_inv ?c" using assms(1) r(1) by (simp add: ck_inv_def)
      moreover have "ck_stream ?c = stream rc" using None by (simp add: ck_stream_def)
      ultimately show ?thesis using f s r(2,5,6) d(1) None' by simp
    next
      case (Some x)
      let ?d = "?c\<lparr>ck_desr := d, ck_err := Some (ck_fin ?c)\<rparr>"
      have "c' = ?d" "e = Some (ck_fin c)" using d Some f by simp_all
      moreover have "ck_inv ?d" using r(1) by (simp add: ck_inv_def)
      moreover have "ck_stream ?d = []" "ck_fin ?d = ck_fin c" using f by (simp_all add: ck_stream_def ck_fin_def)
      ultimately show ?thesis using s r(2,5,7) d(1) Some by simp
    qed
  qed
qed

lemma ck_returns: "ck_inv c \<Longrightarrow> 0 < n \<Longrightarrow> \<exists>b e c'. checksumReader_Read rd c n = Some (b, e, c')"
  by (cases "ck_err c") (auto elim!: ck_step [of c n] simp: checksumReader_Read_def Let_def)

end

sublocale checked_entry \<subseteq> ck: io_reader "checksumReader_Read rd" ck_inv ck_stream ck_fin "\<lambda>c. rank (ck_rc c)"
  by unfold_locales (use ck_returns ck_law in blast)+

interpretation fck: checked_entry section_Read "\<lambda>s. sec_r s = file_at D \<and> 0 \<le> sec_off s" "section_bytes D"
  "\<lambda>_. ErrEOF" "\<lambda>s. nat (sec_limit s - sec_off s)" "file_at D" D for D
  by unfold_locales

context checked_entry
begin

lemma delivers_checked_view: "ck_inv c \<Longrightarrow> delivers (checksumReader_Read rd) c (ck_stream c) (ck_fin c)"
  by (rule deliversI [OF ck.io_reader_axioms]) simp_all

end

lemma delivers_checked:
  assumes "delivers rd rc bs e" "random_access ra D" and c: "ck_rc c = rc" "ck_err c = None"
    "\<And>d. ck_desr c = Some d \<Longrightarrow> sec_r d = ra \<and> 0 \<le> sec_off d"
  shows "delivers (checksumReader_Read rd) c bs
    (if e \<noteq> ErrEOF then e else checked_verdict (map_option (section_bytes D) (ck_desr c)) (ck_f c)
       (crc32_Write (ck_hash c) bs) (ck_nread c + of_nat (length bs)))"
proof -
  obtain I stream fin rank where r: "io_reader rd I stream fin rank" "I rc" "stream rc = bs" "fin rc = e"
    using assms(1) by (rule deliversE)
  note L = checked_entry.intro [OF r(1) assms(2)]
  from checked_entry.delivers_checked_view [OF L, of c] r(2-4) c
  show ?thesis by (auto simp: checked_entry.ck_inv_def [OF L] checked_entry.ck_stream_def [OF L] checked_entry.ck_fin_def [OF L])
qed

text \<open>What \<open>Open\<close> finds at the offset of an entry: the local header, then the payload.\<close>

lemma findBodyOffset_written:
  assumes "random_access (zipr f) D" and "header_fits h"
    and "headerOffset f = int (length pre)" "D = pre @ fileHeader_wire h @ Name h @ Extra h @ rest"
  shows "findBodyOffset f = Inr (int (30 + length (Name h) + length (Extra h)))"
proof -
  have d: "take 30 (drop (nat (headerOffset f)) D) = fileHeader_wire h" using assms(3,4) by simp
  have r: "zipr f 30 (headerOffset f) = (fileHeader_wire h, None)"
    using random_access.read_at_law [OF assms(1), of "headerOffset f" 30, unfolded d] assms(3) by simp
  have sp: "fileHeader_wire h = put32 fileHeaderSignature @ (put16 (ReaderVersion h) @ put16 (Flags h)
     @ put16 (Method h) @ put16 (ModifiedTime h) @ put16 (ModifiedDate h) @ put32 0 @ put32 0 @ put32 0)
     @ put16 (of_nat (length (Name h))) @ put16 (of_nat (length (Extra h)))"
    by (simp add: fileHeader_wire_def)
  have "filled 30 (fileHeader_wire h) = fileHeader_wire h" by simp
  moreover have "uint (of_nat (length (Name h)) :: u16) = int (length (Name h))"
    "uint (of_nat (length (Extra h)) :: u16) = int (length (Extra h))"
    using assms(2) by (simp_all add: header_fits_def uint_nat)
  ultimately show ?thesis
    using r by (simp add: findBodyOffset_def fileHeaderLen_def slice_from_def sp)
qed

lemma descriptor_verdict_written:
  assumes "CRC32 h = CRC32 fh2"
  shows "descriptor_verdict (take 16 (descriptor False fh2 @ post)) h = None"
proof -
  obtain d where d: "take 16 (descriptor False fh2 @ post) = put32 dataDescriptorSignature @ put32 (CRC32 fh2) @ d" "length d = 8"
    by (cases "isZip64 fh2") (auto simp: descriptor_def take_Cons' )
  then show ?thesis using assms
    by (simp add: descriptor_verdict_def check_descriptor_def dataDescriptorLen_def)
qed

section \<open>Decrypting what the writer encrypted\<close>

text \<open>
  The header \<open>h\<close>, as read, describes a payload of the kind \<open>K\<close>, and carries the password it was
  encrypted with.
\<close>

fun can_decrypt :: "aes_suite \<Rightarrow> enc_kind \<Rightarrow> FileHeader \<Rightarrow> bool" where
  "can_decrypt S KPlain h \<longleftrightarrow> \<not> IsEncrypted h"
| "can_decrypt S (KZip pw r chk) h \<longleftrightarrow> IsEncrypted h \<and> ae h = 0 \<and> password h = Some pw \<and> length r = 10
     \<and> zipCryptoCheckBytes (Flags h) (ModifiedTime h) (CRC32 h) = chk"
| "can_decrypt S (KAes E akey salt pwv) h \<longleftrightarrow> IsEncrypted h \<and> ae h \<noteq> 0 \<and> suite_ok S
     \<and> aesKeyLen (aesStrength h) \<noteq> 0 \<and> length salt = aesKeyLen (aesStrength h) div 2
     \<and> (\<exists>pw ek. password h = Some pw \<and> E = aes_Encrypt S ek
          \<and> generateKeys S pw salt (aesKeyLen (aesStrength h)) = (ek, akey, pwv))"

text \<open>The password of \<open>h\<close> is a wrong one, and the value stored for checking it tells.\<close>

fun detects_password :: "aes_suite \<Rightarrow> enc_kind \<Rightarrow> FileHeader \<Rightarrow> bool" where
  "detects_password S KPlain h \<longleftrightarrow> False"
| "detects_password S (KZip pw r chk) h \<longleftrightarrow> IsEncrypted h \<and> ae h = 0 \<and> length r = 10
     \<and> (\<exists>pw'. password h = Some pw'
          \<and> fst (zc_decrypt (NewZipCrypto pw') (take 12 (encrypted (KZip pw r chk) []))) ! 11
              \<noteq> snd (zipCryptoCheckBytes (Flags h) (ModifiedTime h) (CRC32 h)))"
| "detects_password S (KAes E akey salt pwv) h \<longleftrightarrow> IsEncrypted h \<and> ae h \<noteq> 0 \<and> suite_ok S
     \<and> aesKeyLen (aesStrength h) \<noteq> 0 \<and> length salt = aesKeyLen (aesStrength h) div 2 \<and> length pwv = 2
     \<and> (\<exists>pw' ek ak pwv'. password h = Some pw' \<and> pwv' \<noteq> pwv
          \<and> generateKeys S pw' salt (aesKeyLen (aesStrength h)) = (ek, ak, pwv'))"

lemma length_generateKeys:
  "suite_ok S \<Longrightarrow> generateKeys S pw salt kl = (ek, ak, pwv) \<Longrightarrow> length pwv = 2"
  by (auto simp: generateKeys_def suite_ok_def Let_def)

lemma payload_section:
  assumes "A = pre @ P @ post" "length A < 2 ^ 63" "rr = NewSectionReader (file_at A) (int (length pre)) (int (length P))"
  shows "section_bytes A rr = P" "sec_r rr = file_at A" "0 \<le> sec_off rr"
proof -
  have "length pre + length P < 2 ^ 63" using assms(1,2) by simp
  then have m: "int (length pre) + int (length P) \<le> maxint64" by (simp add: maxint64_def)
  show "section_bytes A rr = P" "sec_r rr = file_at A" "0 \<le> sec_off rr"
    using section_bytes_fresh(1-3) [OF _ _ m] assms(1,3) by simp_all
qed

lemma int64_of_length:
  assumes "w = of_nat n" "n < 2 ^ 63"
  shows "int64_of w = int n"
proof -
  have "unat w = n" using assms by (simp add: unat_of_nat take_bit_nat_eq_self)
  with int64_of_small [of w] assms(2) show ?thesis by simp
qed

lemma decrypted_written:
  assumes K: "can_decrypt S K h" and P: "P = encrypted K cs @ authcode S K cs"
    and A: "A = pre @ P @ post" "length A < 2 ^ 63"
    and rr: "rr = NewSectionReader (file_at A) (int (length pre)) (int (length P))"
    and sz: "CompressedSize64 h = of_nat (length P)" and d: "\<not> DeferAuth h"
  shows "\<exists>r. decrypted S rr h = Some (Inr r) \<and> delivers (enc_reader_Read S) r cs ErrEOF"
proof (cases K)
  case KPlain
  note s = payload_section [OF A rr]
  have "decrypted S rr h = Some (Inr (PlainR rr))" using K by (simp add: KPlain decrypted_def)
  moreover have "delivers (enc_reader_Read S) (PlainR rr) cs ErrEOF"
    using delivers_enc(1) [OF fil.delivers_section [OF s(2,3)]] s(1) P KPlain by simp
  ultimately show ?thesis by blast
next
  case (KZip pw r chk)
  note s = payload_section [OF A rr]
  let ?c = "snd (zipCryptoCheckBytes (Flags h) (ModifiedTime h) (CRC32 h))"
  have k: "length r = 10" "?c = snd chk" "IsEncrypted h" "ae h = 0" "password h = Some pw"
    using K by (simp_all add: KZip)
  have "section_bytes A rr = fst (zc_encrypt (NewZipCrypto pw) (r @ [fst chk, snd chk] @ cs))"
    using s(1) P by (simp add: KZip)
  with zd_view_written [OF k(1), of True "snd chk" "snd chk" pw "fst chk" cs ErrEOF rr]
  have v: "zd_view (section_bytes A rr) ErrEOF (newZipCryptoDecryptReader rr pw (snd chk) True) = (cs, ErrEOF)"
    by simp
  obtain zd where zd: "zipCryptoDecryptReader_readHeader section_Read (newZipCryptoDecryptReader rr pw (snd chk) True)
      = Some (None, zd)" "delivers (zipCryptoDecryptReader_Read section_Read) zd cs ErrEOF"
    by (rule fil.delivers_zip [OF s(2,3) v]) simp
  have "decrypted S rr h = Some (Inr (ZipR zd))"
    using k zd(1) by (simp add: decrypted_def split_beta)
  with delivers_enc(2) [OF zd(2)] show ?thesis by blast
next
  case (KAes E akey salt pwv)
  obtain pw ek where k: "IsEncrypted h" "ae h \<noteq> 0" "suite_ok S" "aesKeyLen (aesStrength h) \<noteq> 0"
    "length salt = aesKeyLen (aesStrength h) div 2" "password h = Some pw" "E = aes_Encrypt S ek"
    "generateKeys S pw salt (aesKeyLen (aesStrength h)) = (ek, akey, pwv)" using K by (auto simp: KAes)
  let ?ct = "xor_stream E 0 cs" and ?code = "take 10 (hmac_sha1 S akey (xor_stream E 0 cs))"
  have P': "P = aes_payload salt pwv ?ct ?code" by (simp add: P KAes aes_payload_def)
  have l: "length pwv = 2" "length ?code = 10"
    using length_generateKeys [OF k(3,8)] k(3) by (simp_all add: suite_ok_def)
  have "length P < 2 ^ 63" using A by simp
  then have rr': "rr = NewSectionReader (file_at A) (int (length pre)) (int64_of (CompressedSize64 h))"
    using rr int64_of_length [OF sz] by simp
  from newDecryptionReader_view [OF k(3) refl k(4,5) l A(1) [unfolded P'] A(2) sz [unfolded P'] rr' k(6,8)] d
    auth_verdict_match [OF k(3)]
  obtain a where a: "newDecryptionReader S rr h = Some (Inr a)"
    "random_access (section_ReadAt rr) (aes_payload salt pwv ?ct ?code)"
    "random_access.aes_inv (section_ReadAt rr) a"
    "random_access.aes_view (aes_payload salt pwv ?ct ?code) S a = (xor_stream (aes_Encrypt S ek) 0 ?ct, ErrEOF)"
    by auto
  have "delivers (aes_reader_Read S) a cs ErrEOF"
    using random_access.delivers_aes [OF a(2,3), of S] a(4) k(7) by (simp add: xor_stream_twice)
  from delivers_enc(3) [OF this] k a(1) show ?thesis by (auto simp: decrypted_def)
qed

lemma decrypted_wrong:
  assumes K: "detects_password S K h" and P: "P = encrypted K cs @ authcode S K cs"
    and A: "A = pre @ P @ post" "length A < 2 ^ 63"
    and rr: "rr = NewSectionReader (file_at A) (int (length pre)) (int (length P))"
    and sz: "CompressedSize64 h = of_nat (length P)"
  shows "decrypted S rr h = Some (Inl ErrPassword)"
proof (cases K)
  case KPlain
  with K show ?thesis by simp
next
  case (KZip pw r chk)
  note s = payload_section [OF A rr]
  let ?c = "snd (zipCryptoCheckBytes (Flags h) (ModifiedTime h) (CRC32 h))"
  from K obtain pw' where k: "length r = 10" "IsEncrypted h" "ae h = 0" "password h = Some pw'"
    "fst (zc_decrypt (NewZipCrypto pw') (take 12 (encrypted (KZip pw r chk) []))) ! 11 \<noteq> ?c"
    by (auto simp: KZip)
  have t: "take 12 P = take 12 (encrypted (KZip pw r chk) [])"
    using zc_append [of "NewZipCrypto pw" "r @ [fst chk, snd chk]" cs] k(1)
    by (simp add: P KZip split_beta)
  have "12 \<le> length P" using k(1) by (simp add: P KZip)
  then have "zd_view P ErrEOF (newZipCryptoDecryptReader rr pw' ?c True) = ([], ErrPassword)"
    using k(5) t by (simp add: zd_view_def newZipCryptoDecryptReader_def zipCryptoHeaderLen_def split_beta)
  then have v: "zd_view (section_bytes A rr) ErrEOF (newZipCryptoDecryptReader rr pw' ?c True) = ([], ErrPassword)"
    using s(1) by simp
  obtain zd where "zipCryptoDecryptReader_readHeader section_Read (newZipCryptoDecryptReader rr pw' ?c True)
      = Some (Some ErrPassword, zd)"
    by (rule fil.delivers_zip [OF s(2,3) v]) simp
  with k show ?thesis by (simp add: decrypted_def split_beta)
next
  case (KAes E akey salt pwv)
  from K obtain pw' ek ak pwv' where k: "IsEncrypted h" "ae h \<noteq> 0" "suite_ok S" "aesKeyLen (aesStrength h) \<noteq> 0"
    "length salt = aesKeyLen (aesStrength h) div 2" "length pwv = 2" "password h = Some pw'" "pwv' \<noteq> pwv"
    "generateKeys S pw' salt (aesKeyLen (aesStrength h)) = (ek, ak, pwv')" by (auto simp: KAes)
  let ?ct = "xor_stream E 0 cs" and ?code = "take 10 (hmac_sha1 S akey (xor_stream E 0 cs))"
  have P': "P = aes_payload salt pwv ?ct ?code" by (simp add: P KAes aes_payload_def)
  have l: "length ?code = 10" using k(3) by (simp add: suite_ok_def)
  have "length P < 2 ^ 63" using A by simp
  then have rr': "rr = NewSectionReader (file_at A) (int (length pre)) (int64_of (CompressedSize64 h))"
    using rr int64_of_length [OF sz] by simp
  from newDecryptionReader_view [OF k(3) refl k(4,5,6) l A(1) [unfolded P'] A(2) sz [unfolded P'] rr' k(7,9)] k
  show ?thesis by (simp add: decrypted_def)
qed

section \<open>Opening a written entry\<close>

lemma maxint64_bound: "n \<le> m \<Longrightarrow> m < 2 ^ 63 \<Longrightarrow> int n \<le> maxint64"
  by (simp add: maxint64_def)

text \<open>A section that ends after the file holds what there is.\<close>

lemma section_bytes_cut:
  assumes "0 \<le> off" "0 \<le> n" "n \<le> maxint64" "off \<le> maxint64" "length D < 2 ^ 63"
  shows "section_bytes D (NewSectionReader r off n) = take (nat n) (drop (nat off) D)"
    and "sec_r (NewSectionReader r off n) = r" "0 \<le> sec_off (NewSectionReader r off n)"
proof -
  have m: "add64 maxint64 (- n) = maxint64 - n"
    using assms(2,3) add64_exact [of maxint64 "- n"] by (simp add: in_int64_def maxint64_def)
  show "sec_r (NewSectionReader r off n) = r" "0 \<le> sec_off (NewSectionReader r off n)"
    using assms(1) by (simp_all add: NewSectionReader_def Let_def)
  show "section_bytes D (NewSectionReader r off n) = take (nat n) (drop (nat off) D)"
  proof (cases "off \<le> maxint64 - n")
    case True
    then show ?thesis using section_bytes_fresh(1) [of off n D r] assms(1,2) by simp
  next
    case False
    then have "section_bytes D (NewSectionReader r off n) = take (nat (maxint64 - off)) (drop (nat off) D)"
      using m by (simp add: NewSectionReader_def section_bytes_def Let_def)
    moreover have "int (length D) \<le> maxint64" using assms(5) by (simp add: maxint64_def)
    then have "length (drop (nat off) D) \<le> nat (maxint64 - off)" "length (drop (nat off) D) \<le> nat n"
      using False assms(1) by (simp_all add: nat_le_iff le_nat_iff)
    ultimately show ?thesis by simp
  qed
qed

lemma open_delivers:
  "delivers (dz_Read D (body_Read (renv_suite V))) rc bs e \<Longrightarrow>
     delivers (openFile_Read V) \<lparr>op_D = D, op_rc = Unchecked rc\<rparr> bs e"
  "delivers (checksumReader_Read (dz_Read D (body_Read (renv_suite V)))) c bs e \<Longrightarrow>
     delivers (openFile_Read V) \<lparr>op_D = D, op_rc = Checked c\<rparr> bs e"
proof -
  note s = map_option_case openFile_Read_def
  show "delivers (dz_Read D (body_Read (renv_suite V))) rc bs e \<Longrightarrow>
      delivers (openFile_Read V) \<lparr>op_D = D, op_rc = Unchecked rc\<rparr> bs e"
    by (erule delivers_map [where g = "\<lambda>rc. \<lparr>op_D = D, op_rc = Unchecked rc\<rparr>" and
          f = "\<lambda>x. case op_rc x of Unchecked rc \<Rightarrow> rc"])
       (auto simp: s split: option.splits)
  show "delivers (checksumReader_Read (dz_Read D (body_Read (renv_suite V)))) c bs e \<Longrightarrow>
      delivers (openFile_Read V) \<lparr>op_D = D, op_rc = Checked c\<rparr> bs e"
    by (erule delivers_map [where g = "\<lambda>rc. \<lparr>op_D = D, op_rc = Checked rc\<rparr>" and
          f = "\<lambda>x. case op_rc x of Checked rc \<Rightarrow> rc"])
       (auto simp: s split: option.splits)
qed

text \<open>The entry at \<open>pre\<close> of the archive \<open>A\<close>: local header \<open>fh\<close>, payload \<open>P\<close>, and what follows.\<close>

definition entry_at :: "File \<Rightarrow> byte list \<Rightarrow> byte list \<Rightarrow> FileHeader \<Rightarrow> byte list \<Rightarrow> byte list \<Rightarrow> bool" where
  "entry_at f A pre fh P post \<longleftrightarrow> A = pre @ (fileHeader_wire fh @ Name fh @ Extra fh) @ P @ post
     \<and> length A < 2 ^ 63 \<and> header_fits fh \<and> zipr f = file_at A \<and> headerOffset f = int (length pre)
     \<and> CompressedSize64 (f_hdr f) = of_nat (length P)"

definition entry_section :: "byte list \<Rightarrow> byte list \<Rightarrow> FileHeader \<Rightarrow> byte list \<Rightarrow> section_reader" where
  "entry_section A pre fh P = NewSectionReader (file_at A)
     (int (length (pre @ fileHeader_wire fh @ Name fh @ Extra fh))) (int (length P))"

lemma File_Open_steps:
  assumes "entry_at f A pre fh P post"
  shows "File_Open V f = do {
         r \<leftarrow> decrypted (renv_suite V) (entry_section A pre fh P) (f_hdr f);
         (case r of
            Inl err \<Rightarrow> Some (Inl err)
          | Inr r \<Rightarrow>
              (case decompressor (renv_flate V) (renv_decomps V) (Method (f_hdr f)) of
                 None \<Rightarrow> Some (Inl ErrAlgorithm)
               | Some D \<Rightarrow>
                   let r = (if Method (f_hdr f) \<noteq> Store
                        then Ahead (bufio_NewReaderSize r (nat (min (max (int (length P)) 0) maxEntryReadBuffer)))
                        else Direct r)
                   in do {
                     rc \<leftarrow> dz_new D (body_Read (renv_suite V)) r;
                     Some (Inr \<lparr>op_D = D, op_rc =
                       (if isAE2 (f_hdr f) then Unchecked rc
                        else Checked \<lparr>ck_rc = rc, ck_hash = crc32 [], ck_nread = 0, ck_f = f_hdr f,
                          ck_desr = (if hasDataDescriptor (f_hdr f)
                            then Some (NewSectionReader (file_at A)
                              (int (length (pre @ (fileHeader_wire fh @ Name fh @ Extra fh) @ P))) 16) else None),
                          ck_err = None\<rparr>)\<rparr>) })) }"
proof -
  let ?H = "fileHeader_wire fh @ Name fh @ Extra fh"
  have A: "A = pre @ ?H @ P @ post" "length A < 2 ^ 63" "header_fits fh" "zipr f = file_at A"
    "headerOffset f = int (length pre)" "CompressedSize64 (f_hdr f) = of_nat (length P)"
    using assms unfolding entry_at_def by blast+
  have "random_access (zipr f) A" unfolding A(4) by (rule fil.random_access_axioms)
  from findBodyOffset_written [OF this A(3,5), of "P @ post"] A(1)
  have b: "findBodyOffset f = Inr (int (length ?H))" by simp
  have l: "length pre + length ?H + length P < 2 ^ 63" using A(1,2) by simp
  have "add64 (headerOffset f) (int (length ?H)) = int (length (pre @ ?H))"
    using l A(5) by (subst add64_exact) (simp_all add: in_int64_def)
  moreover have "add64 (int (length (pre @ ?H))) (int (length P)) = int (length (pre @ ?H @ P))"
    using l by (subst add64_exact) (simp_all add: in_int64_def)
  moreover have "int64_of (CompressedSize64 (f_hdr f)) = int (length P)"
    using l by (intro int64_of_length A(6)) simp
  ultimately show ?thesis
    by (simp only: File_Open_def b A(4) entry_section_def sum.case Let_def dataDescriptorLen_def append_assoc
        of_nat_numeral)
qed

lemma Open_written:
  assumes E: "entry_at f A pre fh P post" and h: "h = f_hdr f"
    and dec: "decrypted (renv_suite V) (entry_section A pre fh P) h = Some (Inr r)"
      "delivers (enc_reader_Read (renv_suite V)) r enc ErrEOF"
    and D: "decompressor (renv_flate V) (renv_decomps V) (Method h) = Some D" "decomp_ok D codes" "codes enc plain"
    and chk: "\<not> isAE2 h \<Longrightarrow> UncompressedSize64 h = of_nat (length plain) \<and> CRC32 h = crc32 plain
      \<and> (hasDataDescriptor h \<longrightarrow> descriptor_verdict (take 16 post) h = None)"
  shows "\<exists>x. File_Open V f = Some (Inr x) \<and> delivers (openFile_Read V) x plain ErrEOF"
proof -
  let ?H = "fileHeader_wire fh @ Name fh @ Extra fh" and ?S = "renv_suite V"
  let ?b = "if Method h \<noteq> Store
     then Ahead (bufio_NewReaderSize r (nat (min (max (int (length P)) 0) maxEntryReadBuffer))) else Direct r"
  have "delivers (body_Read ?S) ?b enc ErrEOF" using delivers_body dec(2) by auto
  from delivers_decomp [OF D(2) this D(3)] obtain d s' where
    d: "dz_new D (body_Read ?S) ?b = Some (d, s')" "delivers (dz_Read D (body_Read ?S)) (d, s') plain ErrEOF"
    by metis
  note open_eq = File_Open_steps [OF E, of V, folded h, unfolded dec(1)]
  show ?thesis
  proof (cases "isAE2 h")
    case True
    then have "File_Open V f = Some (Inr \<lparr>op_D = D, op_rc = Unchecked (d, s')\<rparr>)"
      using open_eq D(1) d(1) by (simp add: Let_def)
    with open_delivers(1) [OF d(2)] show ?thesis by blast
  next
    case False
    let ?s16 = "NewSectionReader (file_at A) (int (length (pre @ ?H @ P))) 16"
    let ?c = "\<lparr>ck_rc = (d, s'), ck_hash = crc32 [], ck_nread = 0, ck_f = h,
       ck_desr = (if hasDataDescriptor h then Some ?s16 else None), ck_err = None\<rparr>"
    note c = chk [OF False]
    have o: "File_Open V f = Some (Inr \<lparr>op_D = D, op_rc = Checked ?c\<rparr>)"
      using open_eq D(1) d(1) False by (simp add: Let_def)
    have A: "A = (pre @ ?H @ P) @ post" "length A < 2 ^ 63" using E unfolding entry_at_def append_assoc by blast+
    have post: "drop (nat (int (length (pre @ ?H @ P)))) A = post"
      unfolding A(1) nat_int by (metis append_eq_conv_conj)
    have "length (pre @ ?H @ P) \<le> length A" unfolding A(1) by simp
    then have lim: "int (length (pre @ ?H @ P)) \<le> maxint64"
      using A(2) by (rule maxint64_bound)
    have "0 \<le> (16 :: int)" "16 \<le> maxint64" by (simp_all add: maxint64_def)
    note s = section_bytes_cut [OF of_nat_0_le_iff this lim A(2), of "file_at A", unfolded post]
    have "delivers (checksumReader_Read (dz_Read D (body_Read ?S))) ?c plain
      (if ErrEOF \<noteq> ErrEOF then ErrEOF
       else checked_verdict (map_option (section_bytes A) (ck_desr ?c)) (ck_f ?c)
         (crc32_Write (ck_hash ?c) plain) (ck_nread ?c + of_nat (length plain)))"
      by (rule delivers_checked [OF d(2) fil.random_access_axioms]) (use s(2,3) in \<open>auto split: if_splits\<close>)
    then have "delivers (checksumReader_Read (dz_Read D (body_Read ?S))) ?c plain
      (checked_verdict (map_option (section_bytes A) (ck_desr ?c)) h (crc32 plain) (of_nat (length plain)))"
      by (simp only: checksumReader.select_convs crc32_def crc32_Write_Nil add_0 simp_thms if_False)
    moreover have "checked_verdict (map_option (section_bytes A) (ck_desr ?c)) h (crc32 plain) (of_nat (length plain)) = ErrEOF"
      using c s(1) by (auto simp: checked_verdict_def)
    ultimately show ?thesis using o open_delivers(2) [where c = ?c] by auto
  qed
qed

lemma entry_image_at:
  assumes "A = pre @ entry_image S K fh enc fh2 @ post" "length A < 2 ^ 63" "header_fits fh"
    and "zipr f = file_at A" "headerOffset f = int (length pre)"
    and "CompressedSize64 (f_hdr f) = of_nat (length (encrypted K enc @ authcode S K enc))"
  shows "entry_at f A pre fh (encrypted K enc @ authcode S K enc) (descriptor (kind_is_aes K) fh2 @ post)"
  using assms(2-6) unfolding entry_at_def by (simp only: assms(1) entry_image_def append_assoc)

lemma entry_section_payload:
  assumes "entry_at f A pre fh P post"
  shows "A = (pre @ fileHeader_wire fh @ Name fh @ Extra fh) @ P @ post" "length A < 2 ^ 63"
    "CompressedSize64 (f_hdr f) = of_nat (length P)"
  using assms unfolding entry_at_def append_assoc by blast+

lemma Open_image:
  assumes A: "A = pre @ entry_image (renv_suite V) K fh enc fh2 @ post" "length A < 2 ^ 63" "header_fits fh"
    and f: "zipr f = file_at A" "headerOffset f = int (length pre)" "h = f_hdr f"
    and sz: "CompressedSize64 h = of_nat (length (encrypted K enc @ authcode (renv_suite V) K enc))"
    and K: "can_decrypt (renv_suite V) K h" "\<not> DeferAuth h" "isAE2 h \<longleftrightarrow> kind_is_aes K"
    and D: "decompressor (renv_flate V) (renv_decomps V) (Method h) = Some D" "decomp_ok D codes" "codes enc plain"
    and chk: "\<not> isAE2 h \<Longrightarrow> UncompressedSize64 h = of_nat (length plain) \<and> CRC32 h = crc32 plain \<and> CRC32 fh2 = CRC32 h"
  shows "\<exists>x. File_Open V f = Some (Inr x) \<and> delivers (openFile_Read V) x plain ErrEOF"
proof -
  note E = entry_image_at [OF A f(1,2) sz [unfolded f(3)]]
  note s = entry_section_payload [OF E]
  from decrypted_written [OF K(1) refl s(1,2) entry_section_def [of A pre fh] sz K(2)] obtain r where
    r: "decrypted (renv_suite V) (entry_section A pre fh (encrypted K enc @ authcode (renv_suite V) K enc)) h = Some (Inr r)"
    "delivers (enc_reader_Read (renv_suite V)) r enc ErrEOF" by blast
  show ?thesis
    by (rule Open_written [OF E f(3) r D])
       (use chk K(3) descriptor_verdict_written [of h fh2 post] in auto)
qed

lemma Open_no_password:
  assumes "entry_at f A pre fh P post" "IsEncrypted (f_hdr f)" "password (f_hdr f) = None"
  shows "File_Open V f = Some (Inl ErrPassword)"
  using File_Open_steps [OF assms(1), of V] assms(2,3) by (simp add: decrypted_def)

lemma Open_wrong_password:
  assumes A: "A = pre @ entry_image (renv_suite V) K fh enc fh2 @ post" "length A < 2 ^ 63" "header_fits fh"
    and f: "zipr f = file_at A" "headerOffset f = int (length pre)" "h = f_hdr f"
    and sz: "CompressedSize64 h = of_nat (length (encrypted K enc @ authcode (renv_suite V) K enc))"
    and K: "detects_password (renv_suite V) K h"
  shows "File_Open V f = Some (Inl ErrPassword)"
proof -
  note E = entry_image_at [OF A f(1,2) sz [unfolded f(3)]]
  note s = entry_section_payload [OF E]
  have "decrypted (renv_suite V) (entry_section A pre fh (encrypted K enc @ authcode (renv_suite V) K enc)) h
    = Some (Inl ErrPassword)"
    by (rule decrypted_wrong [OF K refl s(1,2) entry_section_def sz])
  then show ?thesis using File_Open_steps [OF E, of V] f(3) by simp
qed

end
