(* ===== verification/Zip_Writer.thy ===== *)
theory Zip_Writer
  imports Zip_FileWriter
begin

text \<open>
  The \<open>Writer\<close> of writer.go (and \<open>CreateRaw\<close> of raw_writer.go): the entries of an archive, its central
  directory, and the detached mode in which entries are written as parts.

  A \<open>*FileHeader\<close> is an index into the list \<open>hs\<close> of the headers of the program, since the writer, the
  open file and the directory share the caller's header and update it in place.
\<close>

section \<open>State\<close>

text \<open>The Go \<open>header\<close>: a pointer to a \<open>FileHeader\<close>, an offset and an order.\<close>

record dir_header =
  hd_fh :: nat
  hd_offset :: u64
  hd_order :: int

text \<open>
  \<open>wr_cw\<close> is \<open>None\<close> for a nil \<open>cw\<close>; \<open>wr_last\<close> is the last file with the pointer to its header. The
  writer \<open>last\<close> writes through is \<open>cw\<close> itself: \<open>last_file\<close> is the file over the current \<open>cw\<close>.
\<close>

type_synonym 'w archive_writer = "'w bufio_writer countWriter"

record ('w, 'c) Writer =
  wr_cw :: "'w archive_writer option"
  wr_dir :: "dir_header list"
  wr_last :: "(nat \<times> ('w archive_writer, 'c) fileWriter) option"
  wr_closed :: bool
  wr_detached :: bool
  wr_centralDirectory :: "byte list option"

definition archive_Write :: "'w write_fn \<Rightarrow> 'w archive_writer write_fn" where
  "archive_Write wr = countWriter_Write (bufio_Write wr)"

definition NewWriter :: "'w list \<Rightarrow> ('w, 'c) Writer result" where
  "NewWriter ws =
     (if 1 < length ws then Inl GoPanic
      else if length ws = 1
      then Inr \<lparr>wr_cw = Some \<lparr>cw_w = bufio_NewWriter (hd ws), cw_count = 0\<rparr>, wr_dir = [],
             wr_last = None, wr_closed = False, wr_detached = False, wr_centralDirectory = None\<rparr>
      else Inr \<lparr>wr_cw = None, wr_dir = [], wr_last = None, wr_closed = False, wr_detached = True,
             wr_centralDirectory = None\<rparr>)"

definition SetOffset :: "int \<Rightarrow> ('w, 'c) Writer \<Rightarrow> ('w, 'c) Writer result" where
  "SetOffset n w = (case wr_cw w of
     None \<Rightarrow> Inl GoPanic
   | Some cw \<Rightarrow> if cw_count cw \<noteq> 0 then Inl GoPanic else Inr (w\<lparr>wr_cw := Some (cw\<lparr>cw_count := n\<rparr>)\<rparr>))"

definition Writer_Flush :: "'w write_fn \<Rightarrow> ('w, 'c) Writer \<Rightarrow> zip_error option \<times> ('w, 'c) Writer" where
  "Writer_Flush wr w =
     (if wr_detached w then (None, w)
      else case wr_cw w of
             None \<Rightarrow> (Some GoPanic, w)
           | Some cw \<Rightarrow> (case bufio_Flush wr (cw_w cw) of (err, b) \<Rightarrow>
               (err, w\<lparr>wr_cw := Some (cw\<lparr>cw_w := b\<rparr>)\<rparr>)))"

section \<open>The file being written\<close>

definition last_file ::
  "'w archive_writer \<Rightarrow> ('w archive_writer, 'c) fileWriter \<Rightarrow> ('w archive_writer, 'c) fileWriter" where
  "last_file cw fw = with_enc (with_zipw cw (fw_enc fw)) fw"

text \<open>\<open>if w.last != nil && !w.last.closed { if err := w.last.Close() ... }\<close>.\<close>

definition Writer_closeLast ::
  "('w archive_writer, 'c) writer_env \<Rightarrow> 'w write_fn \<Rightarrow> ('w, 'c) Writer \<Rightarrow> FileHeader list
     \<Rightarrow> zip_error option \<times> ('w, 'c) Writer \<times> FileHeader list" where
  "Writer_closeLast V wr w hs = (case (wr_last w, wr_cw w) of
     (Some (a, fw), Some cw) \<Rightarrow>
       if fw_closed fw then (None, w, hs)
       else (case fileWriter_Close V (archive_Write wr) (hs ! a) (last_file cw fw) of (err, fh, fw) \<Rightarrow>
         (err, w\<lparr>wr_last := Some (a, fw), wr_cw := Some (zipw (fw_enc fw))\<rparr>, hs[a := fh]))
   | _ \<Rightarrow> (None, w, hs))"

text \<open>
  A \<open>Write\<close> to the \<open>io.Writer\<close> the last \<open>CreateHeader\<close> or \<open>CreateRaw\<close> returned. Every other file of the
  writer is closed, and so is this one after \<open>Writer.Close\<close>.
\<close>

definition Writer_Write ::
  "'w write_fn \<Rightarrow> FileHeader list \<Rightarrow> ('w, 'c) Writer write_fn" where
  "Writer_Write wr hs w p = (case (wr_last w, wr_cw w) of
     (Some (a, fw), Some cw) \<Rightarrow>
       (case fileWriter_Write (hs ! a) (archive_Write wr) (last_file cw fw) p of (n, err, fw) \<Rightarrow>
          (n, err, w\<lparr>wr_last := Some (a, fw), wr_cw := Some (zipw (fw_enc fw))\<rparr>))
   | _ \<Rightarrow> (0, Some ErrWriteClosed, w))"

section \<open>Adding entries\<close>

text \<open>The two constructors differ in the file writer they make.\<close>

definition add_entry ::
  "('w archive_writer, 'c) writer_env \<Rightarrow> 'w write_fn
     \<Rightarrow> (FileHeader \<Rightarrow> 'w archive_writer \<Rightarrow> ('w archive_writer, 'c) fileWriter result \<times> FileHeader \<times> 'w archive_writer)
     \<Rightarrow> nat \<Rightarrow> ('w, 'c) Writer \<Rightarrow> FileHeader list \<Rightarrow> zip_error option \<times> ('w, 'c) Writer \<times> FileHeader list" where
  "add_entry V wr new_file a w hs =
     (if wr_detached w then (Some ErrDetached, w, hs)
      else case Writer_closeLast V wr w hs of
        (Some err, w, hs) \<Rightarrow> (Some err, w, hs)
      | (None, w, hs) \<Rightarrow>
          if wr_dir w \<noteq> [] \<and> hd_fh (last (wr_dir w)) = a then (Some ErrDuplicateHeader, w, hs)
          else (case wr_cw w of
                  None \<Rightarrow> (Some GoPanic, w, hs)
                | Some cw \<Rightarrow>
                    let h = \<lparr>hd_fh = a, hd_offset = uint64_of (cw_count cw), hd_order = 0\<rparr> in
                    (case new_file (hs ! a) cw of
                       (Inl err, fh, cw) \<Rightarrow> (Some err, w\<lparr>wr_cw := Some cw\<rparr>, hs[a := fh])
                     | (Inr fw, fh, cw) \<Rightarrow>
                         (None, w\<lparr>wr_cw := Some cw, wr_dir := wr_dir w @ [h], wr_last := Some (a, fw)\<rparr>,
                          hs[a := fh]))))"

definition CreateHeader ::
  "('w archive_writer, 'c) writer_env \<Rightarrow> 'w write_fn \<Rightarrow> (nat \<Rightarrow> byte list result) \<Rightarrow> nat
     \<Rightarrow> ('w, 'c) Writer \<Rightarrow> FileHeader list \<Rightarrow> zip_error option \<times> ('w, 'c) Writer \<times> FileHeader list" where
  "CreateHeader V wr rnd = add_entry V wr (newFileWriter V (archive_Write wr) rnd)"

definition CreateRaw ::
  "('w archive_writer, 'c) writer_env \<Rightarrow> 'w write_fn \<Rightarrow> (nat \<Rightarrow> byte list result) \<Rightarrow> nat
     \<Rightarrow> ('w, 'c) Writer \<Rightarrow> FileHeader list \<Rightarrow> zip_error option \<times> ('w, 'c) Writer \<times> FileHeader list" where
  "CreateRaw V wr rnd = add_entry V wr (newRawFileWriter V (archive_Write wr) rnd)"

definition createHeader ::
  "byte list \<Rightarrow> u16 \<Rightarrow> int \<Rightarrow> EncryptionMethod \<Rightarrow> byte list \<Rightarrow> FileHeader result" where
  "createHeader name mtd level enc pw =
     (if mtd = Store \<and> level \<noteq> 0 then Inl ErrStoreLevel
      else if enc \<noteq> NoEncryption \<and> mtd \<noteq> Deflate \<and> mtd \<noteq> Store then Inl ErrEncryptMethod
      else if enc \<noteq> NoEncryption \<and> pw = [] then Inl ErrPasswordRequired
      else if pw \<noteq> [] \<and> enc = NoEncryption then Inl ErrEncryptionRequired
      else
        let h = zeroFileHeader\<lparr>Name := name, Method := mtd, CompressionLevel := level\<rparr>
        in if enc \<noteq> NoEncryption then Inr (SetPassword pw (SetEncryptionMethod enc h)) else Inr h)"

definition Create ::
  "('w archive_writer, 'c) writer_env \<Rightarrow> 'w write_fn \<Rightarrow> (nat \<Rightarrow> byte list result)
     \<Rightarrow> byte list \<Rightarrow> u16 \<Rightarrow> int \<Rightarrow> EncryptionMethod \<Rightarrow> byte list
     \<Rightarrow> ('w, 'c) Writer \<Rightarrow> FileHeader list \<Rightarrow> zip_error option \<times> ('w, 'c) Writer \<times> FileHeader list" where
  "Create V wr rnd name mtd level enc pw w hs = (case createHeader name mtd level enc pw of
     Inl err \<Rightarrow> (Some err, w, hs)
   | Inr h \<Rightarrow> CreateHeader V wr rnd (length hs) w (hs @ [h]))"

section \<open>Parts of a detached writer\<close>

definition addDetachedHeader :: "dir_header \<Rightarrow> ('w, 'c) Writer \<Rightarrow> ('w, 'c) Writer" where
  "addDetachedHeader h w = w\<lparr>wr_dir := wr_dir w @ [h]\<rparr>"

definition AddFileWithOffset :: "nat \<Rightarrow> int \<Rightarrow> u64 \<Rightarrow> ('w, 'c) Writer \<Rightarrow> ('w, 'c) Writer" where
  "AddFileWithOffset a order offset w =
     addDetachedHeader \<lparr>hd_fh = a, hd_offset = offset, hd_order = order\<rparr> w"

definition add_part ::
  "(FileHeader \<Rightarrow> 'z \<Rightarrow> ('z, 'd) fileWriter result \<times> FileHeader \<times> 'z) \<Rightarrow> nat \<Rightarrow> int \<Rightarrow> 'z
     \<Rightarrow> ('w, 'c) Writer \<Rightarrow> FileHeader list
     \<Rightarrow> ('z, 'd) fileWriter result \<times> 'z \<times> ('w, 'c) Writer \<times> FileHeader list" where
  "add_part new_file a order partWriter w hs = (case new_file (hs ! a) partWriter of
     (Inl err, fh, z) \<Rightarrow> (Inl err, z, w, hs[a := fh])
   | (Inr fw, fh, z) \<Rightarrow>
       (Inr fw, z, addDetachedHeader \<lparr>hd_fh = a, hd_offset = 0, hd_order = order\<rparr> w, hs[a := fh]))"

definition CreateFileParts ::
  "('z, 'd) writer_env \<Rightarrow> 'z write_fn \<Rightarrow> (nat \<Rightarrow> byte list result) \<Rightarrow> nat \<Rightarrow> int \<Rightarrow> 'z
     \<Rightarrow> ('w, 'c) Writer \<Rightarrow> FileHeader list
     \<Rightarrow> ('z, 'd) fileWriter result \<times> 'z \<times> ('w, 'c) Writer \<times> FileHeader list" where
  "CreateFileParts V wr rnd = add_part (newFileWriter V wr rnd)"

definition CreateRawFileParts ::
  "('z, 'd) writer_env \<Rightarrow> 'z write_fn \<Rightarrow> (nat \<Rightarrow> byte list result) \<Rightarrow> nat \<Rightarrow> int \<Rightarrow> 'z
     \<Rightarrow> ('w, 'c) Writer \<Rightarrow> FileHeader list
     \<Rightarrow> ('z, 'd) fileWriter result \<times> 'z \<times> ('w, 'c) Writer \<times> FileHeader list" where
  "CreateRawFileParts V wr rnd = add_part (newRawFileWriter V wr rnd)"

definition CreateFilePartSimple ::
  "('z, 'd) writer_env \<Rightarrow> 'z write_fn \<Rightarrow> (nat \<Rightarrow> byte list result)
     \<Rightarrow> byte list \<Rightarrow> u16 \<Rightarrow> int \<Rightarrow> EncryptionMethod \<Rightarrow> byte list \<Rightarrow> int \<Rightarrow> 'z
     \<Rightarrow> ('w, 'c) Writer \<Rightarrow> FileHeader list
     \<Rightarrow> ('z, 'd) fileWriter result \<times> 'z \<times> ('w, 'c) Writer \<times> FileHeader list" where
  "CreateFilePartSimple V wr rnd name mtd level enc pw order partWriter w hs =
     (case createHeader name mtd level enc pw of
        Inl err \<Rightarrow> (Inl err, partWriter, w, hs)
      | Inr h \<Rightarrow> CreateFileParts V wr rnd (length hs) order partWriter w (hs @ [h]))"

section \<open>The central directory\<close>

text \<open>The loop over \<open>w.dir\<close> that writes its records.\<close>

fun writeDirectory ::
  "'z write_fn \<Rightarrow> FileHeader list \<Rightarrow> dir_header list \<Rightarrow> 'z \<Rightarrow> zip_error option \<times> 'z" where
  "writeDirectory wr hs [] z = (None, z)"
| "writeDirectory wr hs (h # ds) z =
     (case writeDirectoryHeader wr (hs ! hd_fh h) (hd_offset h) z of
        (Some err, z) \<Rightarrow> (Some err, z)
      | (None, z) \<Rightarrow> writeDirectory wr hs ds z)"

text \<open>\<open>generateCentralDirectory\<close>: the length of a part, and the loop that assigns the offsets.\<close>

definition partLen :: "FileHeader \<Rightarrow> u64" where
  "partLen h =
     (let partLen = of_nat (fileHeaderLen + length (Name h) + length (Extra h)) + CompressedSize64 h;
          ddLen = (of_nat dataDescriptorLen :: u64);
          ddLen = (if isZip64 h then of_nat dataDescriptor64Len else ddLen);
          ddLen = (if writesAES h then ddLen - 4 else ddLen)
      in partLen + ddLen)"

fun assign_offsets ::
  "FileHeader list \<Rightarrow> u64 \<Rightarrow> dir_header list \<Rightarrow> dir_header list \<times> u64" where
  "assign_offsets hs offset [] = ([], offset)"
| "assign_offsets hs offset (h # ds) =
     (let (h, offset) =
            (if hd_offset h = 0 \<and> 0 < offset then (h\<lparr>hd_offset := offset\<rparr>, offset)
             else if 0 < hd_offset h then (h, hd_offset h)
             else (h\<lparr>hd_offset := offset\<rparr>, offset));
          (ds, total) = assign_offsets hs (offset + partLen (hs ! hd_fh h)) ds
      in (h # ds, total))"

text \<open>\<open>sort.SliceStable\<close> by order is \<open>sort_key\<close>; \<open>new(bytes.Buffer)\<close> is \<open>empty_sink\<close>.\<close>

definition generateCentralDirectory ::
  "('w, 'c) Writer \<Rightarrow> FileHeader list \<Rightarrow> zip_error option \<times> ('w, 'c) Writer" where
  "generateCentralDirectory w hs =
     (if wr_centralDirectory w \<noteq> None then (None, w)
      else
        let (dir, offset) = assign_offsets hs 0 (sort_key hd_order (wr_dir w));
            w = w\<lparr>wr_dir := dir\<rparr>
        in case writeDirectory sink_write hs dir empty_sink of
             (Some err, buf) \<Rightarrow> (Some err, w)
           | (None, buf) \<Rightarrow>
               (case writeDirectoryEnd sink_write (of_nat (length dir))
                       (of_nat (length (sink_data buf))) offset buf of
                  (Some err, buf) \<Rightarrow> (Some err, w)
                | (None, buf) \<Rightarrow> (None, w\<lparr>wr_centralDirectory := Some (sink_data buf)\<rparr>)))"

definition GetCentralDirectoryBytes ::
  "('w, 'c) Writer \<Rightarrow> FileHeader list \<Rightarrow> byte list result \<times> ('w, 'c) Writer" where
  "GetCentralDirectoryBytes w hs =
     (if \<not> wr_detached w then (Inl ErrNotDetached, w)
      else case generateCentralDirectory w hs of
             (Some err, w) \<Rightarrow> (Inl err, w)
           | (None, w) \<Rightarrow> (Inr (the (wr_centralDirectory w)), w))"

definition Writer_Close ::
  "('w archive_writer, 'c) writer_env \<Rightarrow> 'w write_fn \<Rightarrow> ('w, 'c) Writer \<Rightarrow> FileHeader list
     \<Rightarrow> zip_error option \<times> ('w, 'c) Writer \<times> FileHeader list" where
  "Writer_Close V wr w hs =
     (case Writer_closeLast V wr w hs of
        (Some err, w, hs) \<Rightarrow> (Some err, w, hs)
      | (None, w', hs) \<Rightarrow>
          let w = (case wr_last w of
                Some (a, fw) \<Rightarrow> if fw_closed fw then w' else w'\<lparr>wr_last := None\<rparr>
              | None \<Rightarrow> w') in
          if wr_closed w then (Some ErrClosedTwice, w, hs)
          else
            let w = w\<lparr>wr_closed := True\<rparr> in
            if wr_detached w
            then (case generateCentralDirectory w hs of (err, w) \<Rightarrow> (err, w, hs))
            else case wr_cw w of
                None \<Rightarrow> (Some GoPanic, w, hs)
              | Some cw \<Rightarrow>
                  let start = cw_count cw in
                  (case writeDirectory (archive_Write wr) hs (wr_dir w) cw of
                     (Some err, cw) \<Rightarrow> (Some err, w\<lparr>wr_cw := Some cw\<rparr>, hs)
                   | (None, cw) \<Rightarrow>
                       (case writeDirectoryEnd (archive_Write wr) (of_nat (length (wr_dir w)))
                               (uint64_of (cw_count cw - start)) (uint64_of start) cw of
                          (Some err, cw) \<Rightarrow> (Some err, w\<lparr>wr_cw := Some cw\<rparr>, hs)
                        | (None, cw) \<Rightarrow>
                            (case bufio_Flush wr (cw_w cw) of (err, b) \<Rightarrow>
                               (err, w\<lparr>wr_cw := Some (cw\<lparr>cw_w := b\<rparr>)\<rparr>, hs)))))"

section \<open>Archives\<close>

text \<open>
  What a client asks for one entry: which constructor, its random bytes, its header, the pieces it
  writes. \<open>write_jobs\<close> is the client that adds the entries one after the other.
\<close>

record job =
  j_raw :: bool
  j_rnd :: "nat \<Rightarrow> byte list result"
  j_hdr :: nat
  j_writes :: "byte list list"

definition create_job ::
  "('w archive_writer, 'c) writer_env \<Rightarrow> 'w write_fn \<Rightarrow> job \<Rightarrow> ('w, 'c) Writer \<Rightarrow> FileHeader list
     \<Rightarrow> zip_error option \<times> ('w, 'c) Writer \<times> FileHeader list" where
  "create_job V wr j = (if j_raw j then CreateRaw V wr (j_rnd j) (j_hdr j)
     else CreateHeader V wr (j_rnd j) (j_hdr j))"

fun write_jobs ::
  "('w archive_writer, 'c) writer_env \<Rightarrow> 'w write_fn \<Rightarrow> job list \<Rightarrow> ('w, 'c) Writer \<Rightarrow> FileHeader list
     \<Rightarrow> zip_error option \<times> ('w, 'c) Writer \<times> FileHeader list" where
  "write_jobs V wr [] w hs = (None, w, hs)"
| "write_jobs V wr (j # js) w hs = (case create_job V wr j w hs of
     (Some e, w, hs) \<Rightarrow> (Some e, w, hs)
   | (None, w, hs) \<Rightarrow>
       (case write_seq (Writer_Write wr hs) (j_writes j) w of
          (Some e, w) \<Rightarrow> (Some e, w, hs)
        | (None, w) \<Rightarrow> write_jobs V wr js w hs))"

definition job_plain :: "job \<Rightarrow> byte list" where "job_plain j = concat (j_writes j)"

definition job_header :: "FileHeader \<Rightarrow> FileHeader" where
  "job_header fh = enc_header (streamed_header fh)"

definition job_kind :: "('z, 'c) writer_env \<Rightarrow> job \<Rightarrow> FileHeader \<Rightarrow> enc_kind" where
  "job_kind V j fh = enc_kind_of (env_suite V) (j_rnd j) (streamed_header fh)"

definition job_payload :: "('z, 'c) writer_env \<Rightarrow> job \<Rightarrow> FileHeader \<Rightarrow> byte list \<Rightarrow> byte list" where
  "job_payload V j fh enc =
     encrypted (job_kind V j fh) enc @ authcode (env_suite V) (job_kind V j fh) enc"

text \<open>The header of the entry in the directory, when its compressed contents are \<open>enc\<close>.\<close>

definition job_final :: "('z, 'c) writer_env \<Rightarrow> job \<Rightarrow> FileHeader \<Rightarrow> byte list \<Rightarrow> FileHeader" where
  "job_final V j fh enc = closed_header (j_raw j) (writesAES fh) (crc32 (job_plain j))
     (env_xxh3 V (job_plain j)) (of_nat (length (job_payload V j fh enc)))
     (of_nat (length (job_plain j))) (job_header fh)"

definition job_image :: "('z, 'c) writer_env \<Rightarrow> job \<Rightarrow> FileHeader \<Rightarrow> byte list \<Rightarrow> byte list" where
  "job_image V j fh enc =
     entry_image (env_suite V) (job_kind V j fh) (job_header fh) enc (job_final V j fh enc)"

definition job_codes :: "(u16 \<Rightarrow> byte list \<Rightarrow> byte list \<Rightarrow> bool) \<Rightarrow> job \<Rightarrow> FileHeader
    \<Rightarrow> byte list \<Rightarrow> byte list \<Rightarrow> bool" where
  "job_codes codec j fh = (if j_raw j then (=) else codec (Method fh))"

definition job_ok :: "('z, 'c) writer_env \<Rightarrow> (u16 \<Rightarrow> byte list \<Rightarrow> byte list \<Rightarrow> bool) \<Rightarrow> job
    \<Rightarrow> FileHeader \<Rightarrow> bool" where
  "job_ok V codec j fh \<longleftrightarrow>
     (j_raw j \<or> (\<exists>C. compressor (env_flate V) (env_comps V) (Method fh) (CompressionLevel fh) = Some C
        \<and> comp_ok C (codec (Method fh))))
     \<and> enc_ready (env_suite V) (j_rnd j) (streamed_header fh) \<and> header_fits (job_header fh)"

lemma kind_is_aes_job: "kind_is_aes (job_kind V j fh) = writesAES fh"
  by (simp add: job_kind_def kind_is_aes_enc) (simp add: writesAES_def streamed_header_def)

text \<open>The entries of an archive: each with the compressed contents of its job, \<open>hs0\<close> the headers given.\<close>

type_synonym done_list = "(job \<times> byte list) list"

definition image_of :: "('z, 'c) writer_env \<Rightarrow> FileHeader list \<Rightarrow> job \<times> byte list \<Rightarrow> byte list" where
  "image_of V hs0 d = job_image V (fst d) (hs0 ! j_hdr (fst d)) (snd d)"

definition final_of :: "('z, 'c) writer_env \<Rightarrow> FileHeader list \<Rightarrow> job \<times> byte list \<Rightarrow> FileHeader" where
  "final_of V hs0 d = job_final V (fst d) (hs0 ! j_hdr (fst d)) (snd d)"

definition images :: "('z, 'c) writer_env \<Rightarrow> FileHeader list \<Rightarrow> done_list \<Rightarrow> byte list" where
  "images V hs0 ds = concat (map (image_of V hs0) ds)"

fun dir_of :: "('z, 'c) writer_env \<Rightarrow> FileHeader list \<Rightarrow> u64 \<Rightarrow> done_list \<Rightarrow> dir_header list" where
  "dir_of V hs0 pos [] = []"
| "dir_of V hs0 pos (d # ds) = \<lparr>hd_fh = j_hdr (fst d), hd_offset = pos, hd_order = 0\<rparr>
     # dir_of V hs0 (pos + of_nat (length (image_of V hs0 d))) ds"

lemma images_simps [simp]:
  "images V hs0 [] = []" "images V hs0 (d # ds) = image_of V hs0 d @ images V hs0 ds"
  "images V hs0 (ds @ es) = images V hs0 ds @ images V hs0 es"
  by (simp_all add: images_def)

lemma dir_of_append:
  "dir_of V hs0 pos (ds @ es) = dir_of V hs0 pos ds
     @ dir_of V hs0 (pos + of_nat (length (images V hs0 ds))) es"
  by (induction ds arbitrary: pos) (simp_all add: add.assoc)

lemma dir_of_last: "ds \<noteq> [] \<Longrightarrow> hd_fh (last (dir_of V hs0 pos ds)) = j_hdr (fst (last ds))"
proof (induction ds arbitrary: pos)
  case (Cons d ds)
  then show ?case by (cases ds) auto
qed simp

lemma length_dir_of [simp]: "length (dir_of V hs0 pos ds) = length ds"
  by (induction ds arbitrary: pos) auto

context entry_writer
begin

lemma open_job:
  fixes V :: "('z, 'c) writer_env"
  assumes ok: "job_ok V codec j fh" and g: "good z"
  shows "\<exists>fw z1 C. (if j_raw j then newRawFileWriter V wr (j_rnd j) fh z
       else newFileWriter V wr (j_rnd j) fh z) = (Inr fw, job_header fh, z1)
    \<and> zipw (fw_enc fw) = z1
    \<and> out z1 = out z @ fileHeader_wire (job_header fh) @ Name (job_header fh) @ Extra (job_header fh)
    \<and> opened C (job_codes codec j fh) (j_raw j) (out z1) (job_kind V j fh) (job_header fh) fw []"
proof -
  have er: "enc_ready (env_suite V) (j_rnd j) (streamed_header fh)" "header_fits (job_header fh)"
    using ok by (auto simp: job_ok_def)
  show ?thesis
  proof (cases "j_raw j")
    case True
    obtain fw z1 where "newRawFileWriter V wr (j_rnd j) fh z = (Inr fw, job_header fh, z1)"
      "zipw (fw_enc fw) = z1"
      "out z1 = out z @ fileHeader_wire (job_header fh) @ Name (job_header fh) @ Extra (job_header fh)"
      "opened nop_compressor (=) True (out z1) (job_kind V j fh) (job_header fh) fw []"
      by (rule newRawFileWriter_ok [OF er g job_header_def job_kind_def])
    with True show ?thesis
      by (intro exI [of _ fw] exI [of _ z1] exI [of _ nop_compressor] conjI) (simp_all add: job_codes_def)
  next
    case False
    with ok obtain C where C: "compressor (env_flate V) (env_comps V) (Method fh) (CompressionLevel fh) = Some C"
      "comp_ok C (codec (Method fh))" by (auto simp: job_ok_def)
    obtain fw z1 where "newFileWriter V wr (j_rnd j) fh z = (Inr fw, job_header fh, z1)"
      "zipw (fw_enc fw) = z1"
      "out z1 = out z @ fileHeader_wire (job_header fh) @ Name (job_header fh) @ Extra (job_header fh)"
      "opened C (codec (Method fh)) False (out z1) (job_kind V j fh) (job_header fh) fw []"
      by (rule newFileWriter_ok [OF C er g job_header_def job_kind_def])
    with False show ?thesis
      by (intro exI [of _ fw] exI [of _ z1] exI [of _ C] conjI) (simp_all add: job_codes_def)
  qed
qed

end

section \<open>The writer's invariant\<close>

locale archive = buffered_writer wr out good
  for wr :: "'w write_fn" and out :: "'w \<Rightarrow> byte list" and good :: "'w \<Rightarrow> bool"
begin

text \<open>The count of \<open>cw\<close> is the number of bytes written plus the offset \<open>\<delta>\<close> the archive started with.\<close>

definition aout :: "'w archive_writer \<Rightarrow> byte list" where "aout cw = bw_out (cw_w cw)"

definition agood :: "u64 \<Rightarrow> 'w archive_writer \<Rightarrow> bool" where
  "agood \<delta> cw \<longleftrightarrow> bw_good (cw_w cw) \<and> uint64_of (cw_count cw) = \<delta> + of_nat (length (aout cw))"

end

sublocale archive \<subseteq> arc: entry_writer "archive_Write wr" aout "agood \<delta>" for \<delta>
proof
  fix w p n w'
  assume "archive_Write wr w p = (n, None, w')"
  then show "n = length p \<and> aout w' = aout w @ p"
    by (auto simp: archive_Write_def aout_def countWriter_Write_def split: prod.splits dest: bw.write_ok)
next
  fix w p n e w'
  assume "archive_Write wr w p = (n, Some e, w')"
  then show "n \<le> length p \<and> aout w' = aout w @ take n p"
    by (auto simp: archive_Write_def aout_def countWriter_Write_def split: prod.splits dest: bw.write_err)
next
  fix w p
  assume g: "agood \<delta> w"
  then obtain n b where b: "bufio_Write wr (cw_w w) p = (n, None, b)" "bw_good b"
    using bw.write_good [of "cw_w w" p] by (auto simp: agood_def)
  from bw.write_ok [OF b(1)] b g show "\<exists>n w'. archive_Write wr w p = (n, None, w') \<and> agood \<delta> w'"
    by (auto simp: archive_Write_def countWriter_Write_def agood_def aout_def uint64_of_def add64_def
        int64_of_def)
qed

lemma with_enc_simps [simp]:
  "with_enc (fw_enc fw) fw = fw" "fw_enc (with_enc e fw) = e" "fw_closed (with_enc e fw) = fw_closed fw"
  by (simp_all add: with_enc_def fw_enc_def)

lemma last_file_same: "zipw (fw_enc fw) = cw \<Longrightarrow> last_file cw fw = fw"
  by (auto simp: last_file_def)

definition headers_at ::
  "('z, 'c) writer_env \<Rightarrow> FileHeader list \<Rightarrow> done_list \<Rightarrow> FileHeader list \<Rightarrow> bool" where
  "headers_at V hs0 ds hs \<longleftrightarrow> length hs = length hs0
     \<and> (\<forall>d \<in> set ds. j_hdr (fst d) < length hs0 \<and> hs ! j_hdr (fst d) = final_of V hs0 d)
     \<and> (\<forall>a < length hs0. a \<notin> (j_hdr \<circ> fst) ` set ds \<longrightarrow> hs ! a = hs0 ! a)"

context archive
begin

text \<open>
  The writer between two entries, and while the entry \<open>j\<close> is open and has taken \<open>acc\<close>; \<open>ds\<close> are the
  entries already complete.
\<close>

definition closed_state ::
  "('w archive_writer, 'c) writer_env \<Rightarrow> FileHeader list \<Rightarrow> u64 \<Rightarrow> byte list \<Rightarrow> done_list
     \<Rightarrow> ('w, 'c) Writer \<Rightarrow> FileHeader list \<Rightarrow> bool" where
  "closed_state V hs0 \<delta> base ds w hs \<longleftrightarrow> \<not> wr_detached w \<and> \<not> wr_closed w
     \<and> (\<exists>cw. wr_cw w = Some cw \<and> agood \<delta> cw \<and> aout cw = base @ images V hs0 ds)
     \<and> (\<forall>a fw. wr_last w = Some (a, fw) \<longrightarrow> fw_closed fw)
     \<and> wr_dir w = dir_of V hs0 (\<delta> + of_nat (length base)) ds
     \<and> headers_at V hs0 ds hs"

definition open_state ::
  "('w archive_writer, 'c) writer_env \<Rightarrow> (u16 \<Rightarrow> byte list \<Rightarrow> byte list \<Rightarrow> bool) \<Rightarrow> FileHeader list
     \<Rightarrow> u64 \<Rightarrow> byte list \<Rightarrow> done_list \<Rightarrow> job \<Rightarrow> byte list \<Rightarrow> ('w, 'c) Writer \<Rightarrow> FileHeader list \<Rightarrow> bool" where
  "open_state V codec hs0 \<delta> base ds j acc w hs \<longleftrightarrow> \<not> wr_detached w \<and> \<not> wr_closed w
     \<and> (\<exists>fw C. wr_cw w = Some (zipw (fw_enc fw)) \<and> wr_last w = Some (j_hdr j, fw)
        \<and> arc.opened \<delta> C (job_codes codec j (hs0 ! j_hdr j)) (j_raw j)
            (base @ images V hs0 ds @ fileHeader_wire (job_header (hs0 ! j_hdr j))
               @ Name (job_header (hs0 ! j_hdr j)) @ Extra (job_header (hs0 ! j_hdr j)))
            (job_kind V j (hs0 ! j_hdr j)) (job_header (hs0 ! j_hdr j)) fw acc)
     \<and> wr_dir w = dir_of V hs0 (\<delta> + of_nat (length base)) ds
         @ [\<lparr>hd_fh = j_hdr j, hd_offset = \<delta> + of_nat (length base) + of_nat (length (images V hs0 ds)), hd_order = 0\<rparr>]
     \<and> hs ! j_hdr j = job_header (hs0 ! j_hdr j) \<and> j_hdr j < length hs0
     \<and> j_hdr j \<notin> (j_hdr \<circ> fst) ` set ds
     \<and> headers_at V hs0 ds (hs[j_hdr j := hs0 ! j_hdr j])"

lemma Write_open:
  assumes "open_state V codec hs0 \<delta> base ds j acc w hs"
  obtains w' where "Writer_Write wr hs w p = (length p, None, w')"
    "open_state V codec hs0 \<delta> base ds j (acc @ p) w' hs"
proof -
  let ?fh = "hs0 ! j_hdr j"
  let ?b = "base @ images V hs0 ds @ fileHeader_wire (job_header ?fh) @ Name (job_header ?fh) @ Extra (job_header ?fh)"
  from assms obtain fw C where o: "wr_cw w = Some (zipw (fw_enc fw))" "wr_last w = Some (j_hdr j, fw)"
    "arc.opened \<delta> C (job_codes codec j ?fh) (j_raw j) ?b (job_kind V j ?fh) (job_header ?fh) fw acc"
    unfolding open_state_def by blast
  obtain fw' where f: "fileWriter_Write (job_header ?fh) (archive_Write wr) fw p = (length p, None, fw')"
    "arc.opened \<delta> C (job_codes codec j ?fh) (j_raw j) ?b (job_kind V j ?fh) (job_header ?fh) fw' (acc @ p)"
    by (rule arc.opened_Write [OF o(3)])
  let ?w = "w\<lparr>wr_last := Some (j_hdr j, fw'), wr_cw := Some (zipw (fw_enc fw'))\<rparr>"
  have "Writer_Write wr hs w p = (length p, None, ?w)"
    using assms o(1,2) f(1) by (simp add: Writer_Write_def open_state_def last_file_same)
  moreover have "open_state V codec hs0 \<delta> base ds j (acc @ p) ?w hs"
    using assms f(2) unfolding open_state_def by auto
  ultimately show ?thesis using that by blast
qed

lemma Writes_open:
  assumes "open_state V codec hs0 \<delta> base ds j acc w hs"
  obtains w' where "write_seq (Writer_Write wr hs) ps w = (None, w')"
    "open_state V codec hs0 \<delta> base ds j (acc @ concat ps) w' hs"
proof -
  have "\<exists>w'. write_seq (Writer_Write wr hs) ps w = (None, w')
      \<and> open_state V codec hs0 \<delta> base ds j (acc @ concat ps) w' hs"
    using assms
  proof (induction ps arbitrary: w acc)
    case (Cons p ps)
    from Write_open [OF Cons.prems, of p] obtain w1 where
      "Writer_Write wr hs w p = (length p, None, w1)" "open_state V codec hs0 \<delta> base ds j (acc @ p) w1 hs" .
    with Cons.IH [of "acc @ p" w1] show ?case by auto
  qed auto
  with that show ?thesis by blast
qed

lemma closeLast_closed:
  "closed_state V hs0 \<delta> base ds w hs \<Longrightarrow> Writer_closeLast V wr w hs = (None, w, hs)"
  by (auto simp: closed_state_def Writer_closeLast_def split: option.splits)

lemma closeLast_open:
  assumes "open_state V codec hs0 \<delta> base ds j (job_plain j) w hs"
  obtains w' hs' enc where "Writer_closeLast V wr w hs = (None, w', hs')"
    "job_codes codec j (hs0 ! j_hdr j) enc (job_plain j)"
    "closed_state V hs0 \<delta> base (ds @ [(j, enc)]) w' hs'"
    "\<exists>fw fw'. wr_last w = Some (j_hdr j, fw) \<and> \<not> fw_closed fw \<and> wr_last w' = Some (j_hdr j, fw')"
proof -
  let ?fh = "hs0 ! j_hdr j"
  let ?b = "base @ images V hs0 ds @ fileHeader_wire (job_header ?fh) @ Name (job_header ?fh) @ Extra (job_header ?fh)"
  from assms obtain fw C where o: "wr_cw w = Some (zipw (fw_enc fw))" "wr_last w = Some (j_hdr j, fw)"
    "arc.opened \<delta> C (job_codes codec j ?fh) (j_raw j) ?b (job_kind V j ?fh) (job_header ?fh) fw (job_plain j)"
    and h: "hs ! j_hdr j = job_header ?fh" "j_hdr j < length hs0" "j_hdr j \<notin> (j_hdr \<circ> fst) ` set ds"
      "headers_at V hs0 ds (hs[j_hdr j := ?fh])" "\<not> wr_detached w" "\<not> wr_closed w"
    and dir: "wr_dir w = dir_of V hs0 (\<delta> + of_nat (length base)) ds
         @ [\<lparr>hd_fh = j_hdr j, hd_offset = \<delta> + of_nat (length base) + of_nat (length (images V hs0 ds)), hd_order = 0\<rparr>]"
    unfolding open_state_def by blast
  obtain fw' enc fh' where f: "fileWriter_Close V (archive_Write wr) (job_header ?fh) fw = (None, fh', fw')"
    "job_codes codec j ?fh enc (job_plain j)" "fw_closed fw'" "agood \<delta> (zipw (fw_enc fw'))"
    "aout (zipw (fw_enc fw')) = ?b @ encrypted (job_kind V j ?fh) enc
       @ authcode (env_suite V) (job_kind V j ?fh) enc @ descriptor (kind_is_aes (job_kind V j ?fh)) fh'"
    "fh' = closed_header (j_raw j) (kind_is_aes (job_kind V j ?fh)) (crc32 (job_plain j)) (env_xxh3 V (job_plain j))
       (of_nat (length (encrypted (job_kind V j ?fh) enc @ authcode (env_suite V) (job_kind V j ?fh) enc)))
       (of_nat (length (job_plain j))) (job_header ?fh)"
    by (rule arc.opened_Close [OF o(3)])
  have fin: "fh' = final_of V hs0 (j, enc)"
    by (simp only: f(6) final_of_def job_final_def job_payload_def kind_is_aes_job fst_conv snd_conv)
  have im: "aout (zipw (fw_enc fw')) = base @ images V hs0 (ds @ [(j, enc)])"
    by (simp add: f(5) image_of_def job_image_def entry_image_def fin final_of_def)
  let ?w = "w\<lparr>wr_last := Some (j_hdr j, fw'), wr_cw := Some (zipw (fw_enc fw'))\<rparr>"
  have nc: "\<not> fw_closed fw" using arc.opened_not_closed [OF o(3)] .
  have "Writer_closeLast V wr w hs = (None, ?w, hs[j_hdr j := fh'])"
    using o(1,2) nc f(1) h(1) by (simp add: Writer_closeLast_def last_file_same)
  moreover have "closed_state V hs0 \<delta> base (ds @ [(j, enc)]) ?w (hs[j_hdr j := fh'])"
  proof -
    have "headers_at V hs0 (ds @ [(j, enc)]) (hs[j_hdr j := fh'])"
      using h(2,3,4) fin by (auto simp: headers_at_def nth_list_update image_iff)
    moreover have "wr_dir ?w = dir_of V hs0 (\<delta> + of_nat (length base)) (ds @ [(j, enc)])"
      by (simp add: dir dir_of_append)
    ultimately show ?thesis using h(5,6) f(3,4) im by (simp add: closed_state_def)
  qed
  ultimately show ?thesis using that f(2) o(2) nc by auto
qed

lemma create_closed:
  fixes V :: "('w archive_writer, 'c) writer_env"
  assumes cs: "closed_state V hs0 \<delta> base ds w hs" and ok: "job_ok V codec j (hs0 ! j_hdr j)"
    and new: "j_hdr j < length hs0" "j_hdr j \<notin> (j_hdr \<circ> fst) ` set ds"
  obtains w' hs' where "create_job V wr j w hs = (None, w', hs')"
    "open_state V codec hs0 \<delta> base ds j [] w' hs'"
proof -
  let ?fh = "hs0 ! j_hdr j"
  from cs obtain cw where c: "wr_cw w = Some cw" "agood \<delta> cw" "aout cw = base @ images V hs0 ds"
    and h: "\<not> wr_detached w" "\<not> wr_closed w" "headers_at V hs0 ds hs"
    and dir: "wr_dir w = dir_of V hs0 (\<delta> + of_nat (length base)) ds"
    by (auto simp: closed_state_def)
  have hj: "hs ! j_hdr j = ?fh" using h(3) new by (auto simp: headers_at_def)
  have "\<exists>fw z1 C. (if j_raw j then newRawFileWriter V (archive_Write wr) (j_rnd j) ?fh cw
       else newFileWriter V (archive_Write wr) (j_rnd j) ?fh cw) = (Inr fw, job_header ?fh, z1)
    \<and> zipw (fw_enc fw) = z1
    \<and> aout z1 = aout cw @ fileHeader_wire (job_header ?fh) @ Name (job_header ?fh) @ Extra (job_header ?fh)
    \<and> arc.opened \<delta> C (job_codes codec j ?fh) (j_raw j) (aout z1) (job_kind V j ?fh) (job_header ?fh) fw []"
    by (rule arc.open_job [OF ok c(2)])
  then obtain fw z1 C where f: "(if j_raw j then newRawFileWriter V (archive_Write wr) (j_rnd j) ?fh cw
       else newFileWriter V (archive_Write wr) (j_rnd j) ?fh cw) = (Inr fw, job_header ?fh, z1)"
    "zipw (fw_enc fw) = z1"
    "aout z1 = aout cw @ fileHeader_wire (job_header ?fh) @ Name (job_header ?fh) @ Extra (job_header ?fh)"
    "arc.opened \<delta> C (job_codes codec j ?fh) (j_raw j) (aout z1) (job_kind V j ?fh) (job_header ?fh) fw []"
    by blast
  have dup: "\<not> (wr_dir w \<noteq> [] \<and> hd_fh (last (wr_dir w)) = j_hdr j)"
  proof
    assume d: "wr_dir w \<noteq> [] \<and> hd_fh (last (wr_dir w)) = j_hdr j"
    then have "ds \<noteq> []" by (auto simp: dir)
    moreover from d this have "j_hdr (fst (last ds)) = j_hdr j" by (simp add: dir dir_of_last)
    ultimately show False using new(2) by (metis comp_apply image_eqI last_in_set)
  qed
  let ?h = "\<lparr>hd_fh = j_hdr j, hd_offset = uint64_of (cw_count cw), hd_order = 0\<rparr>"
  let ?w = "w\<lparr>wr_cw := Some z1, wr_dir := wr_dir w @ [?h], wr_last := Some (j_hdr j, fw)\<rparr>"
  have "create_job V wr j w hs = (None, ?w, hs[j_hdr j := job_header ?fh])"
    using f(1) h(1) c(1) dup hj closeLast_closed [OF cs]
    by (cases "j_raw j") (simp_all add: create_job_def CreateRaw_def CreateHeader_def add_entry_def)
  moreover have "open_state V codec hs0 \<delta> base ds j [] ?w (hs[j_hdr j := job_header ?fh])"
  proof -
    have "uint64_of (cw_count cw) = \<delta> + of_nat (length base) + of_nat (length (images V hs0 ds))"
      using c(2,3) by (simp add: agood_def add.assoc)
    moreover have "length hs = length hs0" using h(3) by (simp add: headers_at_def)
    moreover have "hs[j_hdr j := ?fh] = hs" using hj by (metis list_update_id)
    ultimately show ?thesis using f h(1,2,3) new dir c(3) by (auto simp: open_state_def)
  qed
  ultimately show ?thesis using that by blast
qed

end

section \<open>Writing and closing an archive\<close>

definition encoded :: "(u16 \<Rightarrow> byte list \<Rightarrow> byte list \<Rightarrow> bool) \<Rightarrow> FileHeader list \<Rightarrow> done_list \<Rightarrow> bool" where
  "encoded codec hs0 ds \<longleftrightarrow> (\<forall>d \<in> set ds. job_codes codec (fst d) (hs0 ! j_hdr (fst d)) (snd d) (job_plain (fst d)))"

lemma encoded_append [simp]:
  "encoded codec hs0 (ds @ es) \<longleftrightarrow> encoded codec hs0 ds \<and> encoded codec hs0 es"
  by (auto simp: encoded_def)

lemma uint64_of_diff: "uint64_of (a - b) = uint64_of a - uint64_of b"
  by (simp add: uint64_of_def)

context io_writer
begin

lemma writeDirectory_good:
  "good z \<Longrightarrow> \<forall>h \<in> set ds. directory_fits (hs ! hd_fh h) (hd_offset h) \<Longrightarrow>
     \<exists>z'. writeDirectory wr hs ds z = (None, z') \<and> good z'
       \<and> out z' = out z @ concat (map (\<lambda>h. directory_record (hs ! hd_fh h) (hd_offset h)) ds)"
proof (induction ds arbitrary: z)
  case (Cons h ds)
  let ?f = "hs ! hd_fh h" and ?o = "hd_offset h"
  from write_seq_good [OF Cons.prems(1), of "[directoryHeader_wire ?f ?o, Name ?f, directory_extra ?f ?o, Comment ?f]"]
  obtain z1 where z1: "writeDirectoryHeader wr ?f ?o z = (None, z1)" "good z1"
    "out z1 = out z @ directory_record ?f ?o"
    using Cons.prems(2) by (auto simp: writeDirectoryHeader_fits directory_record_def)
  with Cons.IH [OF z1(2)] Cons.prems(2) show ?case by auto
qed simp

lemma writeDirectoryEnd_good:
  assumes "good z"
  obtains z' where "writeDirectoryEnd wr n sz off z = (None, z')" "good z'"
    "out z' = out z @ directory_end n sz off"
  using write_seq_good [OF assms] unfolding writeDirectoryEnd_seq concat_directory_end [symmetric] by blast

end

context archive
begin

definition complete ::
  "('w archive_writer, 'c) writer_env \<Rightarrow> (u16 \<Rightarrow> byte list \<Rightarrow> byte list \<Rightarrow> bool) \<Rightarrow> FileHeader list
     \<Rightarrow> u64 \<Rightarrow> byte list \<Rightarrow> job list \<Rightarrow> ('w, 'c) Writer \<Rightarrow> FileHeader list \<Rightarrow> bool" where
  "complete V codec hs0 \<delta> base js w hs \<longleftrightarrow>
     (\<exists>ds. map fst ds = js \<and> encoded codec hs0 ds \<and> closed_state V hs0 \<delta> base ds w hs)
     \<or> (\<exists>ds j. js = map fst ds @ [j] \<and> encoded codec hs0 ds
          \<and> open_state V codec hs0 \<delta> base ds j (job_plain j) w hs)"

lemma complete_closeLast:
  assumes "complete V codec hs0 \<delta> base js w hs"
  obtains w' hs' ds where "Writer_closeLast V wr w hs = (None, w', hs')" "map fst ds = js"
    "encoded codec hs0 ds" "closed_state V hs0 \<delta> base ds w' hs'" "wr_detached w' = wr_detached w"
    "closed_state V hs0 \<delta> base ds (case wr_last w of
       Some (a, fw) \<Rightarrow> if fw_closed fw then w' else w'\<lparr>wr_last := None\<rparr> | None \<Rightarrow> w') hs'"
proof -
  from assms consider
    (closed) ds where "map fst ds = js" "encoded codec hs0 ds" "closed_state V hs0 \<delta> base ds w hs"
  | (open') ds j where "js = map fst ds @ [j]" "encoded codec hs0 ds"
      "open_state V codec hs0 \<delta> base ds j (job_plain j) w hs"
    unfolding complete_def by blast
  then show ?thesis
  proof cases
    case closed
    have "(case wr_last w of Some (a, fw) \<Rightarrow> if fw_closed fw then w else w\<lparr>wr_last := None\<rparr> | None \<Rightarrow> w) = w"
      using closed(3) by (auto simp: closed_state_def split: option.splits)
    with closed closeLast_closed [OF closed(3)] that show ?thesis by simp
  next
    case open'
    obtain w' hs' enc where c: "Writer_closeLast V wr w hs = (None, w', hs')"
      "job_codes codec j (hs0 ! j_hdr j) enc (job_plain j)"
      "closed_state V hs0 \<delta> base (ds @ [(j, enc)]) w' hs'"
      "\<exists>fw fw'. wr_last w = Some (j_hdr j, fw) \<and> \<not> fw_closed fw \<and> wr_last w' = Some (j_hdr j, fw')"
      by (rule closeLast_open [OF open'(3)])
    have "closed_state V hs0 \<delta> base (ds @ [(j, enc)]) (w'\<lparr>wr_last := None\<rparr>) hs'"
      using c(3) by (simp add: closed_state_def)
    moreover have "wr_detached w' = wr_detached w"
      using c(3) open'(3) by (simp add: closed_state_def open_state_def)
    ultimately show ?thesis using that [OF c(1), of "ds @ [(j, enc)]"] c(2,3,4) open'(1,2)
      by (auto simp: encoded_def)
  qed
qed

lemma create_after_closeLast:
  assumes "Writer_closeLast V wr w hs = (None, w', hs')" "wr_detached w' = wr_detached w" "\<not> wr_detached w'"
    and "Writer_closeLast V wr w' hs' = (None, w', hs')"
  shows "create_job V wr j w hs = create_job V wr j w' hs'"
  using assms by (simp add: create_job_def CreateRaw_def CreateHeader_def add_entry_def)

lemma write_jobs_complete:
  "complete V codec hs0 \<delta> base js0 w hs \<Longrightarrow>
   \<forall>j \<in> set js. job_ok V codec j (hs0 ! j_hdr j) \<and> j_hdr j < length hs0 \<Longrightarrow>
   distinct (map j_hdr (js0 @ js)) \<Longrightarrow>
     \<exists>w' hs'. write_jobs V wr js w hs = (None, w', hs') \<and> complete V codec hs0 \<delta> base (js0 @ js) w' hs'"
proof (induction js arbitrary: js0 w hs)
  case (Cons j js)
  obtain w1 hs1 ds where c: "Writer_closeLast V wr w hs = (None, w1, hs1)" "map fst ds = js0"
    "encoded codec hs0 ds" "closed_state V hs0 \<delta> base ds w1 hs1" "wr_detached w1 = wr_detached w"
    by (rule complete_closeLast [OF Cons.prems(1)])
  have "(j_hdr \<circ> fst) ` set ds = j_hdr ` set js0" using c(2) by (auto simp flip: c(2))
  then have new: "j_hdr j < length hs0" "j_hdr j \<notin> (j_hdr \<circ> fst) ` set ds" "job_ok V codec j (hs0 ! j_hdr j)"
    using Cons.prems(2,3) by auto
  obtain w2 hs2 where o: "create_job V wr j w1 hs1 = (None, w2, hs2)"
    "open_state V codec hs0 \<delta> base ds j [] w2 hs2"
    by (rule create_closed [OF c(4) new(3,1,2)])
  obtain w3 where w3: "write_seq (Writer_Write wr hs2) (j_writes j) w2 = (None, w3)"
    "open_state V codec hs0 \<delta> base ds j ([] @ concat (j_writes j)) w3 hs2"
    by (rule Writes_open [OF o(2)])
  have "complete V codec hs0 \<delta> base (js0 @ [j]) w3 hs2"
    unfolding complete_def using w3(2) c(2,3) by (auto simp: job_plain_def)
  from Cons.IH [OF this] Cons.prems(2,3) obtain w' hs' where
    "write_jobs V wr js w3 hs2 = (None, w', hs')" "complete V codec hs0 \<delta> base (js0 @ j # js) w' hs'" by auto
  moreover have "create_job V wr j w hs = (None, w2, hs2)"
    using create_after_closeLast [OF c(1,5) _ closeLast_closed [OF c(4)]] o(1) c(4)
    by (simp add: closed_state_def)
  ultimately show ?case using w3(1) by simp
qed simp

lemma Close_complete:
  assumes c: "complete V codec hs0 \<delta> base js w hs"
    and fits: "\<forall>ds. map fst ds = js \<longrightarrow>
      (\<forall>h \<in> set (dir_of V hs0 (\<delta> + of_nat (length base)) ds). \<forall>d \<in> set ds.
         hd_fh h = j_hdr (fst d) \<longrightarrow> directory_fits (final_of V hs0 d) (hd_offset h))"
  shows "\<exists>w' hs' ds cw D. Writer_Close V wr w hs = (None, w', hs') \<and> map fst ds = js \<and> encoded codec hs0 ds
    \<and> headers_at V hs0 ds hs' \<and> wr_closed w'
    \<and> D = concat (map (\<lambda>h. directory_record (hs' ! hd_fh h) (hd_offset h)) (dir_of V hs0 (\<delta> + of_nat (length base)) ds))
    \<and> wr_cw w' = Some cw \<and> bw_buf (cw_w cw) = []
    \<and> out (bw_wr (cw_w cw)) = base @ images V hs0 ds @ D
        @ directory_end (of_nat (length ds)) (of_nat (length D)) (\<delta> + of_nat (length (base @ images V hs0 ds)))"
proof -
  obtain w1 hs' ds where cl: "Writer_closeLast V wr w hs = (None, w1, hs')" "map fst ds = js"
    "encoded codec hs0 ds" "closed_state V hs0 \<delta> base ds w1 hs'" "wr_detached w1 = wr_detached w"
    "closed_state V hs0 \<delta> base ds (case wr_last w of
       Some (a, fw) \<Rightarrow> if fw_closed fw then w1 else w1\<lparr>wr_last := None\<rparr> | None \<Rightarrow> w1) hs'"
    by (rule complete_closeLast [OF c])
  define w2 where "w2 = (case wr_last w of
       Some (a, fw) \<Rightarrow> if fw_closed fw then w1 else w1\<lparr>wr_last := None\<rparr> | None \<Rightarrow> w1)"
  from cl(6) obtain cw where s: "\<not> wr_detached w2" "\<not> wr_closed w2" "wr_cw w2 = Some cw" "agood \<delta> cw"
    "aout cw = base @ images V hs0 ds" "wr_dir w2 = dir_of V hs0 (\<delta> + of_nat (length base)) ds"
    "headers_at V hs0 ds hs'"
    unfolding w2_def [symmetric] by (auto simp: closed_state_def)
  let ?dir = "dir_of V hs0 (\<delta> + of_nat (length base)) ds"
  define D where "D = concat (map (\<lambda>h. directory_record (hs' ! hd_fh h) (hd_offset h)) ?dir)"
  have "\<forall>h \<in> set ?dir. directory_fits (hs' ! hd_fh h) (hd_offset h)"
  proof
    fix h
    assume h: "h \<in> set ?dir"
    have "\<exists>d \<in> set es. hd_fh g = j_hdr (fst d)" if "g \<in> set (dir_of V hs0 pos es)" for g pos es
      using that by (induction es arbitrary: pos) auto
    from this [OF h] obtain d where d: "d \<in> set ds" "hd_fh h = j_hdr (fst d)" by blast
    with s(7) have "hs' ! hd_fh h = final_of V hs0 d" by (auto simp: headers_at_def)
    with fits cl(2) h d show "directory_fits (hs' ! hd_fh h) (hd_offset h)" by auto
  qed
  from arc.writeDirectory_good [OF s(4) this] obtain cw1 where
    c1: "writeDirectory (archive_Write wr) hs' ?dir cw = (None, cw1)" "agood \<delta> cw1"
    "aout cw1 = aout cw @ D" by (auto simp: D_def)
  have start: "uint64_of (cw_count cw) = \<delta> + of_nat (length (base @ images V hs0 ds))"
    using s(4,5) by (simp add: agood_def)
  have sz: "uint64_of (cw_count cw1 - cw_count cw) = of_nat (length D)"
    using s(4) c1(2,3) by (simp add: agood_def uint64_of_diff)
  let ?eocd = "directory_end (of_nat (length ds)) (of_nat (length D)) (\<delta> + of_nat (length (base @ images V hs0 ds)))"
  obtain cw2 where c2: "writeDirectoryEnd (archive_Write wr) (of_nat (length ds)) (of_nat (length D))
      (\<delta> + of_nat (length (base @ images V hs0 ds))) cw1 = (None, cw2)" "agood \<delta> cw2" "aout cw2 = aout cw1 @ ?eocd"
    by (rule arc.writeDirectoryEnd_good [OF c1(2)])
  obtain e b where b: "bufio_Flush wr (cw_w cw2) = (e, b)" by fastforce
  have "bw_out b = aout cw2 \<and> e = None \<and> bw_buf b = []"
    using Flush_out [OF b] c2(2) by (auto simp: agood_def aout_def bw_good_def)
  then have bo: "e = None" "bw_buf b = []" "out (bw_wr b) = base @ images V hs0 ds @ D @ ?eocd"
  proof -
    assume a: "bw_out b = aout cw2 \<and> e = None \<and> bw_buf b = []"
    then show "e = None" "bw_buf b = []" by simp_all
    from a have "out (bw_wr b) = aout cw2" by (auto simp: bw_out_def)
    then show "out (bw_wr b) = base @ images V hs0 ds @ D @ ?eocd" using c2(3) c1(3) s(5) by simp
  qed
  let ?w = "w2\<lparr>wr_closed := True, wr_cw := Some (cw2\<lparr>cw_w := b\<rparr>)\<rparr>"
  have "Writer_Close V wr w hs = (None, ?w, hs')"
    using cl(1) s(1-3,6) c1(1) c2(1) b bo(1) sz start
    by (simp add: Writer_Close_def Let_def flip: w2_def)
  with cl(2,3) s(7) bo(2,3) D_def show ?thesis by auto
qed

end

section \<open>The checks of \<open>createHeader\<close>\<close>



text \<open>
  A detached writer refuses the calls of the archive mode, an archive writer those of the detached
  mode, and neither changes anything.
\<close>

theorem writer_modes:
  "(wr_detached w \<longrightarrow> CreateHeader V wr rnd a w hs = (Some ErrDetached, w, hs)
      \<and> CreateRaw V wr rnd a w hs = (Some ErrDetached, w, hs) \<and> Writer_Flush wr w = (None, w))
   \<and> (\<not> wr_detached w \<longrightarrow> GetCentralDirectoryBytes w hs = (Inl ErrNotDetached, w))"
  by (simp add: CreateHeader_def CreateRaw_def add_entry_def Writer_Flush_def GetCentralDirectoryBytes_def)

end
