(* ===== verification/Zip_Archive.thy ===== *)
theory Zip_Archive
  imports Zip_Writer Zip_Reader
begin

text \<open>
  The writer and the reader together: what a \<open>Writer\<close> leaves in its destination, and what \<open>NewReader\<close>
  makes of it.
\<close>

section \<open>The entries of an archive\<close>

definition job_aes :: "FileHeader \<Rightarrow> (byte \<times> u16) option" where
  "job_aes fh = (if writesAES fh then Some (aesStrength fh, Method fh) else None)"

fun entries_of :: "('z, 'c) writer_env \<Rightarrow> FileHeader list \<Rightarrow> u64 \<Rightarrow> done_list \<Rightarrow> entry list" where
  "entries_of V hs0 pos [] = []"
| "entries_of V hs0 pos (d # ds) = (final_of V hs0 d, pos, job_aes (hs0 ! j_hdr (fst d)))
     # entries_of V hs0 (pos + of_nat (length (image_of V hs0 d))) ds"

lemma length_entries_of [simp]: "length (entries_of V hs0 pos ds) = length ds"
  by (induction ds arbitrary: pos) auto

text \<open>
  The caller's part: the name, the comment and the extra field leave room for the fields the writer
  adds, and the extra field is a list of fields with none of the tags the writer uses.
\<close>

definition header_plain :: "FileHeader \<Rightarrow> bool" where
  "header_plain fh \<longleftrightarrow> length (Name fh) \<le> 65535 \<and> length (Comment fh) \<le> 65535
     \<and> length (Extra fh) + 51 \<le> 65535 \<and> (\<exists>fs. plain_fields fs \<and> Extra fh = joinExtra fs)"

lemma closed_header_frame [simp]:
  "Name (closed_header raw aes crc xxh cs us fh) = Name fh"
  "Comment (closed_header raw aes crc xxh cs us fh) = Comment fh"
  "Extra (closed_header raw aes crc xxh cs us fh) = Extra fh"
  "Method (closed_header raw aes crc xxh cs us fh) = Method fh"
  "Flags (closed_header raw aes crc xxh cs us fh) = Flags fh"
  "ModifiedTime (closed_header raw aes crc xxh cs us fh) = ModifiedTime fh"
  "CompressedSize64 (closed_header raw aes crc xxh cs us fh) = cs"
  "password (closed_header raw aes crc xxh cs us fh) = password fh"
  "encryption (closed_header raw aes crc xxh cs us fh) = encryption fh"
  by (simp_all add: closed_header_def Let_def)

lemma closed_header_sizes: "sizes_agree (closed_header raw aes crc xxh cs us fh)"
  by (simp add: closed_header_def sizes_agree_def isZip64_def Let_def)

lemma job_header_frame [simp]:
  "Name (job_header fh) = Name fh" "Comment (job_header fh) = Comment fh"
  "Extra (job_header fh) = Extra fh @ joinExtra (aes_field (job_aes fh))"
  by (simp_all add: job_header_def enc_header_def streamed_header_def job_aes_def aes_field_def
      aes_extra_def writesAES_def)

lemma final_of_frame [simp]:
  "Name (final_of V hs0 d) = Name (hs0 ! j_hdr (fst d))"
  "Comment (final_of V hs0 d) = Comment (hs0 ! j_hdr (fst d))"
  "Extra (final_of V hs0 d) = Extra (job_header (hs0 ! j_hdr (fst d)))"
  by (simp_all add: final_of_def job_final_def)

lemma length_aes_field: "length (joinExtra (aes_field a)) \<le> 11"
  by (cases a) (auto simp: aes_field_def extraField_def)

lemma length_directory_extra: "length (directory_extra h off) \<le> length (Extra h) + 40"
  by (simp add: directory_extra_def xxh3_field_def zip64_field_def extraField_def)

lemma final_fits:
  assumes "header_plain (hs0 ! j_hdr (fst d))"
  shows "directory_fits (final_of V hs0 d) off"
  using assms length_directory_extra [of "final_of V hs0 d" off] length_aes_field [of "job_aes (hs0 ! j_hdr (fst d))"]
  by (simp add: directory_fits_def header_plain_def)

lemma final_entry_ok:
  assumes "header_plain (hs0 ! j_hdr (fst d))" "unat off < 2 ^ 63"
  shows "entry_ok (final_of V hs0 d) off (job_aes (hs0 ! j_hdr (fst d)))"
proof -
  obtain fs where "plain_fields fs" "Extra (hs0 ! j_hdr (fst d)) = joinExtra fs"
    using assms(1) by (auto simp: header_plain_def)
  then have "\<exists>fs. plain_fields fs \<and> Extra (final_of V hs0 d) = joinExtra (fs @ aes_field (job_aes (hs0 ! j_hdr (fst d))))"
    by auto
  moreover have "sizes_agree (final_of V hs0 d)" by (simp add: final_of_def job_final_def closed_header_sizes)
  ultimately show ?thesis using final_fits [OF assms(1)] assms(2) by (simp add: entry_ok_def)
qed

lemma entries_of_ok:
  assumes "\<forall>d \<in> set ds. header_plain (hs0 ! j_hdr (fst d))" "n + length (images V hs0 ds) < 2 ^ 63"
  shows "entries_ok (entries_of V hs0 (of_nat n) ds)"
  using assms
proof (induction ds arbitrary: n)
  case (Cons d ds)
  have "of_nat n + of_nat (length (image_of V hs0 d)) = (of_nat (n + length (image_of V hs0 d)) :: u64)" by simp
  moreover have "unat (of_nat n :: u64) < 2 ^ 63" using Cons.prems(2) by (simp add: unat_of_nat take_bit_nat_eq_self)
  moreover have "entries_ok (entries_of V hs0 (of_nat (n + length (image_of V hs0 d))) ds)"
    using Cons.prems by (intro Cons.IH) auto
  ultimately show ?case using Cons.prems(1) by (auto simp: entries_ok_def intro: final_entry_ok)
qed (simp add: entries_ok_def)

lemma directory_of_entries:
  assumes "headers_at V hs0 ds hs"
  shows "concat (map (\<lambda>h. directory_record (hs ! hd_fh h) (hd_offset h)) (dir_of V hs0 pos ds))
    = directory_bytes (entries_of V hs0 pos ds)"
proof -
  have "\<forall>d \<in> set ds. hs ! j_hdr (fst d) = final_of V hs0 d" using assms by (simp add: headers_at_def)
  then show ?thesis by (induction ds arbitrary: pos) auto
qed

section \<open>Reading back an archive\<close>

text \<open>
  An archive is read back unless the 20 bytes before its end record look like a zip64 locator without
  the record asking for one (which \<open>NewReader\<close> then believes).
\<close>

definition locator_ok :: "byte list \<Rightarrow> bool" where
  "locator_ok A \<longleftrightarrow> drop (length A - 22) A = directoryEnd_wire uint16max uint32max uint32max
     \<or> no_locator (take (length A - 22) A)"

lemma directoryEnd_wire_narrow:
  assumes "\<not> end_wide n s off"
  shows "directoryEnd_wire n s off \<noteq> directoryEnd_wire uint16max uint32max uint32max"
proof
  assume "directoryEnd_wire n s off = directoryEnd_wire uint16max uint32max uint32max"
  then have "drop 8 (directoryEnd_wire n s off) = drop 8 (directoryEnd_wire uint16max uint32max uint32max)" by simp
  moreover have "drop 8 (directoryEnd_wire n s off) = put16 (ucast n) @ put16 (ucast n) @ put32 (ucast s)
      @ put32 (ucast off) @ replicate 2 0" for n s off
    by (simp add: directoryEnd_wire_def)
  ultimately have "rb_uint16 (put16 (ucast n) @ put16 (ucast n) @ put32 (ucast s) @ put32 (ucast off) @ replicate 2 0)
      = rb_uint16 (put16 (ucast (uint16max :: u64)) @ put16 (ucast (uint16max :: u64)) @ put32 (ucast (uint32max :: u64))
          @ put32 (ucast (uint32max :: u64)) @ replicate 2 0)" by simp
  then have "(ucast n :: u16) = 65535" by simp
  moreover have "n < 65535" using assms by (auto simp: end_wide_def)
  then have "unat n < 65535" by (simp add: word_less_nat_alt)
  then have "unat (ucast n :: u16) = unat n"
    by (simp add: unsigned_ucast_eq unsigned_take_bit_eq take_bit_nat_eq_self)
  ultimately show False using \<open>unat n < 65535\<close> by simp
qed

lemma locator_ok_end:
  assumes "A = X @ directory_end n s off" "locator_ok A"
  shows "end_wide n s off \<or> no_locator X"
proof (rule disjCI)
  assume "\<not> no_locator X"
  show "end_wide n s off"
  proof (rule ccontr)
    assume w: "\<not> end_wide n s off"
    then have "A = X @ directoryEnd_wire n s off" using assms(1) by (simp add: directory_end_def)
    then have "take (length A - 22) A = X" "drop (length A - 22) A = directoryEnd_wire n s off" by simp_all
    with assms(2) \<open>\<not> no_locator X\<close> directoryEnd_wire_narrow [OF w] show False by (simp add: locator_ok_def)
  qed
qed

interpretation ar: archive sink_write sink_data sink_good
  by unfold_locales

lemma NewWriter_complete:
  assumes "NewWriter [empty_sink] = Inr w"
  shows "ar.complete V codec hs 0 [] [] w hs"
proof -
  have "w = \<lparr>wr_cw = Some \<lparr>cw_w = bufio_NewWriter empty_sink, cw_count = 0\<rparr>, wr_dir = [],
             wr_last = None, wr_closed = False, wr_detached = False, wr_centralDirectory = None\<rparr>"
    using assms by (simp add: NewWriter_def)
  then have "ar.closed_state V hs 0 [] [] w hs"
    by (simp add: ar.closed_state_def ar.agood_def ar.aout_def bsnk.bw_out_def bsnk.bw_good_def
        bufio_NewWriter_def headers_at_def uint64_of_def)
  then show ?thesis by (auto simp: ar.complete_def encoded_def)
qed

text \<open>The archive in the destination once the writer is closed.\<close>

definition archive_data :: "(sink, 'c) Writer \<Rightarrow> byte list" where
  "archive_data w = sink_data (bw_wr (cw_w (the (wr_cw w))))"

lemma archive_closed:
  fixes V :: "(sink archive_writer, 'c) writer_env"
  assumes c: "ar.complete V codec hs 0 [] js w1 hs1" and plain: "\<forall>j \<in> set js. header_plain (hs ! j_hdr j)"
    and close: "Writer_Close V sink_write w1 hs1 = (e2, w2, hs2)"
  obtains ds where "e2 = None" "map fst ds = js" "encoded codec hs ds" "headers_at V hs ds hs2"
    "archive_data w2 = images V hs ds @ directory_bytes (entries_of V hs 0 ds)
      @ directory_end (of_nat (length ds)) (of_nat (length (directory_bytes (entries_of V hs 0 ds))))
          (of_nat (length (images V hs ds)))"
proof -
  have fits: "\<forall>ds. map fst ds = js \<longrightarrow> (\<forall>h \<in> set (dir_of V hs (0 + of_nat (length ([] :: byte list))) ds). \<forall>d \<in> set ds.
         hd_fh h = j_hdr (fst d) \<longrightarrow> directory_fits (final_of V hs d) (hd_offset h))"
  proof (intro allI impI)
    fix ds :: done_list
    assume "map fst ds = js"
    with plain have "\<forall>j \<in> set (map fst ds). header_plain (hs ! j_hdr j)" by simp
    then have "\<forall>d \<in> set ds. header_plain (hs ! j_hdr (fst d))" by simp
    then show "\<forall>h \<in> set (dir_of V hs (0 + of_nat (length ([] :: byte list))) ds). \<forall>d \<in> set ds.
         hd_fh h = j_hdr (fst d) \<longrightarrow> directory_fits (final_of V hs d) (hd_offset h)"
      by (blast intro: final_fits)
  qed
  from ar.Close_complete [OF c fits] obtain w2' hs2' ds cw D where
    c: "Writer_Close V sink_write w1 hs1 = (None, w2', hs2')" "map fst ds = js" "encoded codec hs ds"
    "headers_at V hs ds hs2'"
    "D = concat (map (\<lambda>h. directory_record (hs2' ! hd_fh h) (hd_offset h)) (dir_of V hs (0 + of_nat (length ([] :: byte list))) ds))"
    "wr_cw w2' = Some cw"
    "sink_data (bw_wr (cw_w cw)) = [] @ images V hs ds @ D
        @ directory_end (of_nat (length ds)) (of_nat (length D)) (0 + of_nat (length ([] @ images V hs ds)))"
    by blast
  have "D = directory_bytes (entries_of V hs 0 ds)"
    using directory_of_entries [OF c(4), of 0] c(5) by simp
  moreover have "e2 = None" "w2 = w2'" "hs2 = hs2'" using c(1) close by auto
  moreover have "archive_data w2' = sink_data (bw_wr (cw_w cw))" by (simp add: archive_data_def c(6))
  ultimately show ?thesis using that [of ds] c(2,3,4,7) by simp
qed

lemma write_jobs_new:
  fixes V :: "(sink archive_writer, 'c) writer_env"
  assumes w: "NewWriter [empty_sink] = Inr w"
    and ok: "\<forall>j \<in> set js. job_ok V codec j (hs ! j_hdr j) \<and> header_plain (hs ! j_hdr j) \<and> j_hdr j < length hs"
    and dist: "distinct (map j_hdr js)"
    and jobs: "write_jobs V sink_write js w hs = (e1, w1, hs1)"
  shows "e1 = None" "ar.complete V codec hs 0 [] js w1 hs1"
proof -
  obtain w1' hs1' where j: "write_jobs V sink_write js w hs = (None, w1', hs1')"
    "ar.complete V codec hs 0 [] js w1' hs1'"
    using ar.write_jobs_complete [OF NewWriter_complete [OF w, of V codec hs], of js] ok dist by auto
  with jobs show "e1 = None" "ar.complete V codec hs 0 [] js w1 hs1" by auto
qed

lemma archive_written:
  assumes w: "NewWriter [empty_sink] = Inr w"
    and ok: "\<forall>j \<in> set js. job_ok V codec j (hs ! j_hdr j) \<and> header_plain (hs ! j_hdr j) \<and> j_hdr j < length hs"
    and dist: "distinct (map j_hdr js)"
    and jobs: "write_jobs V sink_write js w hs = (e1, w1, hs1)"
    and close: "Writer_Close V sink_write w1 hs1 = (e2, w2, hs2)"
  obtains ds where "e1 = None" "e2 = None" "map fst ds = js" "encoded codec hs ds"
    "headers_at V hs ds hs2"
    "archive_data w2 = images V hs ds @ directory_bytes (entries_of V hs 0 ds)
      @ directory_end (of_nat (length ds)) (of_nat (length (directory_bytes (entries_of V hs 0 ds))))
          (of_nat (length (images V hs ds)))"
proof -
  note j = write_jobs_new [OF w ok dist jobs]
  have p: "\<forall>j \<in> set js. header_plain (hs ! j_hdr j)" using ok by simp
  show ?thesis by (rule archive_closed [OF j(2) p close]) (rule that [OF j(1)])
qed

lemma NewReader_images:
  assumes A: "A = images V hs ds @ directory_bytes (entries_of V hs 0 ds)
      @ directory_end (of_nat (length ds)) (of_nat (length (directory_bytes (entries_of V hs 0 ds))))
          (of_nat (length (images V hs ds)))"
    and "length A < 2 ^ 63" "locator_ok A" "\<forall>d \<in> set ds. header_plain (hs ! j_hdr (fst d))"
  shows "NewReader (file_at A) (int (length A)) = Some (Inr \<lparr>rdr_r = file_at A,
        rdr_File = map (read_entry (file_at A) (int (length A))) (entries_of V hs 0 ds), rdr_Comment = []\<rparr>)"
proof -
  let ?es = "entries_of V hs 0 ds"
  have A': "A = images V hs ds @ directory_bytes ?es @ directory_end (of_nat (length ?es))
      (of_nat (length (directory_bytes ?es))) (of_nat (length (images V hs ds)))"
    using A by simp
  have "0 + length (images V hs ds) < 2 ^ 63" using assms(2) A by simp
  with assms(4) have "entries_ok ?es" using entries_of_ok [of ds hs 0 V] by simp
  moreover have "end_wide (of_nat (length ?es)) (of_nat (length (directory_bytes ?es))) (of_nat (length (images V hs ds)))
      \<or> no_locator (images V hs ds @ directory_bytes ?es)"
    by (rule locator_ok_end [OF _ assms(3)]) (simp add: A')
  ultimately show ?thesis by (rule NewReader_written [OF A' assms(2)])
qed

text \<open>
  C6. An archive is a round trip of its directory: whatever entries a client creates one after the
  other, compressed or raw, encrypted or not, and however it cuts their contents, every call and
  \<open>Close\<close> succeed, and \<open>NewReader\<close> on the destination lists exactly these entries, in order, with the
  names, attributes, checksums, sizes and offsets the writer recorded.
\<close>

theorem archive_directory_roundtrip:
  assumes "NewWriter [empty_sink] = Inr w"
    and "\<forall>j \<in> set js. job_ok V codec j (hs ! j_hdr j) \<and> header_plain (hs ! j_hdr j) \<and> j_hdr j < length hs"
    and "distinct (map j_hdr js)"
    and "write_jobs V sink_write js w hs = (e1, w1, hs1)"
    and "Writer_Close V sink_write w1 hs1 = (e2, w2, hs2)"
    and "A = archive_data w2" and "length A < 2 ^ 63" and "locator_ok A"
  shows "e1 = None \<and> e2 = None \<and> (\<exists>ds. map fst ds = js \<and> encoded codec hs ds
    \<and> NewReader (file_at A) (int (length A)) = Some (Inr \<lparr>rdr_r = file_at A,
        rdr_File = map (read_entry (file_at A) (int (length A))) (entries_of V hs 0 ds), rdr_Comment = []\<rparr>))"
proof -
  obtain ds where ds: "e1 = None" "e2 = None" "map fst ds = js" "encoded codec hs ds"
    "A = images V hs ds @ directory_bytes (entries_of V hs 0 ds)
      @ directory_end (of_nat (length ds)) (of_nat (length (directory_bytes (entries_of V hs 0 ds))))
          (of_nat (length (images V hs ds)))"
    unfolding assms(6) by (rule archive_written [OF assms(1-5)])
  from assms(2) ds(3) have "\<forall>j \<in> set (map fst ds). header_plain (hs ! j_hdr j)" by simp
  then have "\<forall>d \<in> set ds. header_plain (hs ! j_hdr (fst d))" by simp
  note NewReader_images [OF ds(5) assms(7,8) this]
  with ds(1-4) show ?thesis by blast
qed

lemma locator_ok_written:
  assumes "A = X @ directory_end n s off" "no_locator X"
  shows "locator_ok A"
  using assms by (cases "end_wide n s off") (simp_all add: locator_ok_def directory_end_def)

lemma no_locator_zeros: "no_locator (X @ replicate 20 0)"
proof -
  have "take 4 (replicate 20 0 :: byte list) = 0 # replicate 3 0" by (simp add: eval_nat_numeral)
  then show ?thesis by (simp add: no_locator_def zip_signatures put32_def)
qed

definition toy_entry :: FileHeader where
  "toy_entry = toy_header\<lparr>Comment := replicate 20 0\<rparr>"

definition toy_job :: job where
  "toy_job = \<lparr>j_raw = False, j_rnd = toy_rand, j_hdr = 0, j_writes = [[1, 2], [3]]\<rparr>"

lemma toy_entry_job:
  "job_ok (toy_env :: (sink archive_writer, int) writer_env) (\<lambda>_. (=)) toy_job toy_entry \<and> header_plain toy_entry"
proof -
  have "enc_ready (env_suite (toy_env :: (sink archive_writer, int) writer_env)) toy_rand (streamed_header toy_entry)"
    using toy_ready(3) by (simp add: enc_ready_def streamed_header_def toy_entry_def)
  moreover have "header_fits (job_header toy_entry)"
    using toy_ready(4) by (simp add: header_fits_def toy_entry_def job_header_def enc_header_def
       streamed_header_def writesAES_def)
  moreover have "plain_fields []" by (simp add: plain_fields_def wfExtra_def)
  then have "header_plain toy_entry"
    by (auto simp: header_plain_def toy_entry_def intro!: exI [of _ "[]"])
  ultimately show ?thesis using toy_ready(1,2) by (auto simp: job_ok_def toy_job_def toy_entry_def)
qed

lemma toy_entry_payload:
  defines "K \<equiv> job_kind (toy_env :: (sink archive_writer, int) writer_env) toy_job toy_entry"
  shows "length (encrypted K enc) = length enc + 18"
    "length (authcode (env_suite (toy_env :: (sink archive_writer, int) writer_env)) K enc) = 10"
  by (simp_all add: K_def toy_job_def job_kind_def enc_kind_of_def streamed_header_def toy_entry_def
      generateKeys_def aesKeyLen_def toy_env_def toy_suite_def toy_rand_def)

text \<open>The archive of this entry meets the conditions of the round trip.\<close>

lemma toy_archive:
  defines "V \<equiv> toy_env :: (sink archive_writer, int) writer_env"
  obtains w e1 w1 hs1 e2 w2 hs2 where "NewWriter [empty_sink] = (Inr w :: (sink, int) Writer result)"
    "\<forall>j' \<in> set [toy_job]. job_ok V (\<lambda>_. (=)) j' ([toy_entry] ! j_hdr j') \<and> header_plain ([toy_entry] ! j_hdr j')
      \<and> j_hdr j' < length [toy_entry]"
    "distinct (map j_hdr [toy_job])"
    "write_jobs V sink_write [toy_job] w [toy_entry] = (e1, w1, hs1)"
    "Writer_Close V sink_write w1 hs1 = (e2, w2, hs2)"
    "length (archive_data w2) < 2 ^ 63" "locator_ok (archive_data w2)"
proof -
  note V_def [simp]
  obtain w where w: "NewWriter [empty_sink] = (Inr w :: (sink, int) Writer result)" by (simp add: NewWriter_def)
  obtain e1 w1 hs1 where m: "write_jobs V sink_write [toy_job] w [toy_entry] = (e1, w1, hs1)" by (metis prod_cases3)
  obtain e2 w2 hs2 where c: "Writer_Close V sink_write w1 hs1 = (e2, w2, hs2)" by (metis prod_cases3)
  have ok: "\<forall>j' \<in> set [toy_job]. job_ok V (\<lambda>_. (=)) j' ([toy_entry] ! j_hdr j') \<and> header_plain ([toy_entry] ! j_hdr j')
      \<and> j_hdr j' < length [toy_entry]"
    using toy_entry_job  by (simp add: toy_job_def)
  have d: "distinct (map j_hdr [toy_job])" by simp
  obtain ds where ds: "map fst ds = [toy_job]" "encoded (\<lambda>_. (=)) [toy_entry] ds"
    "archive_data w2 = images V [toy_entry] ds @ directory_bytes (entries_of V [toy_entry] 0 ds)
      @ directory_end (of_nat (length ds)) (of_nat (length (directory_bytes (entries_of V [toy_entry] 0 ds))))
          (of_nat (length (images V [toy_entry] ds)))"
    by (rule archive_written [OF w ok d m c])
  then obtain enc where e: "ds = [(toy_job, enc)]" "enc = [1, 2, 3]"
    by (auto simp: encoded_def job_codes_def toy_job_def job_plain_def)
  have fr: "j_hdr toy_job = 0" by (simp add: toy_job_def)
  obtain Y where Y: "images V [toy_entry] ds @ directory_bytes (entries_of V [toy_entry] 0 ds) = Y @ replicate 20 0"
    by (simp add: e fr directory_record_def) (simp add: toy_entry_def)
  from ds(3) have loc: "locator_ok (archive_data w2)"
    by (intro locator_ok_written [of _ "Y @ replicate 20 0"] no_locator_zeros) (simp add: Y [symmetric])
  have "length (descriptor a h) \<le> 24" for a h by (simp add: length_descriptor)
  note b = this length_directory_extra [of "final_of V [toy_entry] (toy_job, enc)" 0]
  have ml: "length (directory_end n s off) \<le> 98" for n s off by (simp add: directory_end_def)
  have il: "length (image_of V [toy_entry] (toy_job, enc)) \<le> 1000"
    using b(1) [of "kind_is_aes (job_kind V toy_job toy_entry)" "job_final V toy_job toy_entry enc"]
      length_aes_field [of "job_aes toy_entry"]
    by (simp add: image_of_def job_image_def entry_image_def fr e(2) toy_entry_payload )
      (simp add: toy_entry_def)
  have "length (archive_data w2) \<le> 2000"
    using il b(2) length_aes_field [of "job_aes toy_entry"] ml [of 1 "of_nat (length (directory_bytes (entries_of V [toy_entry] 0 ds)))" "of_nat (length (images V [toy_entry] ds))"]
    by (simp add: ds(3) e(1) length_directory_record fr)
      (simp add: toy_entry_def)
  then have len: "length (archive_data w2) < 2 ^ 63" by simp
  show ?thesis by (rule that [OF w ok d m c len loc])
qed

lemma archive_directory_roundtrip_witness:
  "\<exists>w e1 w1 hs1 e2 w2 hs2 A r.
     NewWriter [empty_sink] = Inr w
   \<and> write_jobs (toy_env :: (sink archive_writer, int) writer_env) sink_write
       [toy_job] w [toy_entry] = (e1, w1, hs1)
   \<and> Writer_Close toy_env sink_write w1 hs1 = (e2, w2, hs2) \<and> A = archive_data w2
   \<and> e1 = None \<and> e2 = None \<and> NewReader (file_at A) (int (length A)) = Some (Inr r) \<and> length (rdr_File r) = 1"
proof -
  let ?V = "toy_env :: (sink archive_writer, int) writer_env"
  obtain w :: "(sink, int) Writer" and e1 w1 hs1 e2 w2 hs2 where T: "NewWriter [empty_sink] = Inr w"
    "\<forall>j' \<in> set [toy_job]. job_ok ?V (\<lambda>_. (=)) j' ([toy_entry] ! j_hdr j') \<and> header_plain ([toy_entry] ! j_hdr j')
      \<and> j_hdr j' < length [toy_entry]"
    "distinct (map j_hdr [toy_job])"
    "write_jobs ?V sink_write [toy_job] w [toy_entry] = (e1, w1, hs1)"
    "Writer_Close ?V sink_write w1 hs1 = (e2, w2, hs2)"
    "length (archive_data w2) < 2 ^ 63" "locator_ok (archive_data w2)"
    by (rule toy_archive)
  from archive_directory_roundtrip [OF T(1-5) refl T(6,7)]
  have "e1 = None \<and> e2 = None \<and> (\<exists>r. NewReader (file_at (archive_data w2)) (int (length (archive_data w2))) = Some (Inr r)
      \<and> length (rdr_File r) = 1)"
    by (auto dest!: arg_cong [where f = length])
  then show ?thesis using T(1,4,5) by blast
qed

end
