(* ===== verification/Zip_Detached.thy ===== *)
theory Zip_Detached
  imports Zip_Archive
begin

text \<open>
  The detached mode of \<open>Writer\<close>: the entries are written as parts, each to a writer of its own and in
  any interleaving, and the central directory made by \<open>generateCentralDirectory\<close> fits the parts put
  one after the other in the order asked for.
\<close>

section \<open>Offsets\<close>

text \<open>The length the directory assumes for a part is the number of bytes the file writer has written.\<close>

lemma partLen_image: "partLen (final_of V hs0 d) = of_nat (length (image_of V hs0 d))"
proof -
  let ?fh = "hs0 ! j_hdr (fst d)"
  have "writesAES (final_of V hs0 d) = writesAES ?fh"
    by (simp add: final_of_def job_final_def job_header_def writesAES_def) (simp add: streamed_header_def)
  moreover have "CompressedSize64 (final_of V hs0 d) = of_nat (length (job_payload V (fst d) ?fh (snd d)))"
    by (simp add: final_of_def job_final_def)
  moreover have "length (image_of V hs0 d) = 30 + length (Name ?fh) + length (Extra (final_of V hs0 d))
     + length (job_payload V (fst d) ?fh (snd d)) + ((if isZip64 (final_of V hs0 d) then 24 else 16)
        - (if writesAES ?fh then 4 else 0))"
    by (simp add: image_of_def job_image_def entry_image_def length_descriptor kind_is_aes_job job_payload_def
        final_of_def job_final_def)
  ultimately show ?thesis
    by (simp add: partLen_def Let_def)
qed

text \<open>Headers whose offset is not given get the offsets of the parts laid one after the other.\<close>

fun ordered_dir :: "('z, 'c) writer_env \<Rightarrow> FileHeader list \<Rightarrow> u64 \<Rightarrow> (int \<times> job \<times> byte list) list \<Rightarrow> dir_header list" where
  "ordered_dir V hs0 pos [] = []"
| "ordered_dir V hs0 pos ((n, d) # ds) = \<lparr>hd_fh = j_hdr (fst d), hd_offset = pos, hd_order = n\<rparr>
     # ordered_dir V hs0 (pos + of_nat (length (image_of V hs0 d))) ds"

lemma assign_offsets_parts:
  assumes "\<forall>x \<in> set ds. hs ! j_hdr (fst (snd x)) = final_of V hs0 (snd x)"
  shows "assign_offsets hs pos (map (\<lambda>(n, d). \<lparr>hd_fh = j_hdr (fst d), hd_offset = 0, hd_order = n\<rparr>) ds)
    = (ordered_dir V hs0 pos ds, pos + of_nat (length (images V hs0 (map snd ds))))"
  using assms
proof (induction ds arbitrary: pos)
  case (Cons x ds)
  obtain n d where x: "x = (n, d)" by (cases x) blast
  have "(if 0 < pos then (\<lparr>hd_fh = a, hd_offset = pos, hd_order = n\<rparr>, pos)
     else (\<lparr>hd_fh = a, hd_offset = pos, hd_order = n\<rparr>, pos)) = (\<lparr>hd_fh = a, hd_offset = pos, hd_order = n\<rparr>, pos)" for a
    by simp
  then show ?case using Cons.prems Cons.IH [of "pos + of_nat (length (image_of V hs0 d))"]
    by (simp add: x partLen_image add.assoc Let_def)
qed simp

lemma ordered_dir_records:
  "map (\<lambda>h. (hd_fh h, hd_offset h)) (ordered_dir V hs0 pos ds)
     = map (\<lambda>h. (hd_fh h, hd_offset h)) (dir_of V hs0 pos (map snd ds))"
  by (induction ds arbitrary: pos) auto

lemma length_ordered_dir [simp]: "length (ordered_dir V hs0 pos ds) = length ds"
  by (induction ds arbitrary: pos) auto

lemma sort_key_map: "sort_key f (map g xs) = map g (sort_key (\<lambda>x. f (g x)) xs)"
proof -
  have "insort_key f (g x) (map g ys) = map g (insort_key (\<lambda>x. f (g x)) x ys)" for x ys
    by (induction ys) auto
  then show ?thesis by (induction xs) simp_all
qed

section \<open>Writing parts\<close>

text \<open>
  A part: its job, \<open>j_writes\<close> recording the data accepted so far, its order, and its file writer over a
  destination of its own.
\<close>

record 'd part =
  pt_job :: job
  pt_order :: int
  pt_fw :: "(sink, 'd) fileWriter"

definition part_data :: "'d part \<Rightarrow> byte list" where
  "part_data p = sink_data (zipw (fw_enc (pt_fw p)))"

definition create_part ::
  "(sink, 'd) writer_env \<Rightarrow> job \<Rightarrow> int \<Rightarrow> ('w, 'c) Writer \<Rightarrow> FileHeader list
     \<Rightarrow> (sink, 'd) fileWriter result \<times> sink \<times> ('w, 'c) Writer \<times> FileHeader list" where
  "create_part V j order = (if j_raw j
     then CreateRawFileParts V sink_write (j_rnd j) (j_hdr j) order empty_sink
     else CreateFileParts V sink_write (j_rnd j) (j_hdr j) order empty_sink)"

text \<open>
  The parts may be written concurrently: a run creates parts, writes to any open one and closes any
  one, in any order. \<open>ok\<close> says which parts the client may ask for; each has a header of its own.
\<close>

inductive part_step ::
  "(sink, 'd) writer_env \<Rightarrow> (job \<Rightarrow> bool)
     \<Rightarrow> ('w, 'c) Writer \<times> FileHeader list \<times> 'd part list
     \<Rightarrow> ('w, 'c) Writer \<times> FileHeader list \<times> 'd part list \<Rightarrow> bool" for V ok where
  part_create: "ok j \<Longrightarrow> j_writes j = [] \<Longrightarrow> j_hdr j \<notin> set (map (j_hdr \<circ> pt_job) ps) \<Longrightarrow>
     create_part V j order w hs = (Inr fw, z, w', hs') \<Longrightarrow>
     part_step V ok (w, hs, ps) (w', hs', ps @ [\<lparr>pt_job = j, pt_order = order, pt_fw = fw\<rparr>])"
| part_write: "i < length ps \<Longrightarrow> ps ! i = p \<Longrightarrow>
     fileWriter_Write (hs ! j_hdr (pt_job p)) sink_write (pt_fw p) b = (n, e, fw) \<Longrightarrow>
     part_step V ok (w, hs, ps) (w, hs, ps[i := p\<lparr>pt_fw := fw,
       pt_job := (if e = None then (pt_job p)\<lparr>j_writes := j_writes (pt_job p) @ [b]\<rparr> else pt_job p)\<rparr>])"
| part_close: "i < length ps \<Longrightarrow> ps ! i = p \<Longrightarrow>
     fileWriter_Close V sink_write (hs ! j_hdr (pt_job p)) (pt_fw p) = (e, fh, fw) \<Longrightarrow>
     part_step V ok (w, hs, ps) (w, hs[j_hdr (pt_job p) := fh], ps[i := p\<lparr>pt_fw := fw\<rparr>])"

inductive_cases part_stepE: "part_step V ok s s'"

section \<open>The invariant of a run\<close>

definition part_base :: "FileHeader \<Rightarrow> byte list" where
  "part_base fh = fileHeader_wire (job_header fh) @ Name (job_header fh) @ Extra (job_header fh)"

definition part_open ::
  "(sink, 'd) writer_env \<Rightarrow> (u16 \<Rightarrow> byte list \<Rightarrow> byte list \<Rightarrow> bool) \<Rightarrow> FileHeader \<Rightarrow> FileHeader \<Rightarrow> 'd part \<Rightarrow> bool" where
  "part_open V codec fh fh' p \<longleftrightarrow> fh' = job_header fh \<and>
     (\<exists>C. part.opened C (job_codes codec (pt_job p) fh) (j_raw (pt_job p)) (part_base fh)
        (job_kind V (pt_job p) fh) (job_header fh) (pt_fw p) (job_plain (pt_job p)))"

definition part_closed ::
  "(sink, 'd) writer_env \<Rightarrow> (u16 \<Rightarrow> byte list \<Rightarrow> byte list \<Rightarrow> bool) \<Rightarrow> FileHeader \<Rightarrow> FileHeader \<Rightarrow> 'd part \<Rightarrow> bool" where
  "part_closed V codec fh fh' p \<longleftrightarrow> fw_closed (pt_fw p) \<and>
     (\<exists>enc. job_codes codec (pt_job p) fh enc (job_plain (pt_job p))
        \<and> part_data p = job_image V (pt_job p) fh enc \<and> fh' = job_final V (pt_job p) fh enc)"

definition part_header :: "'d part \<Rightarrow> dir_header" where
  "part_header p = \<lparr>hd_fh = j_hdr (pt_job p), hd_offset = 0, hd_order = pt_order p\<rparr>"

definition parts_inv ::
  "(sink, 'd) writer_env \<Rightarrow> (u16 \<Rightarrow> byte list \<Rightarrow> byte list \<Rightarrow> bool) \<Rightarrow> (job \<Rightarrow> bool) \<Rightarrow> FileHeader list
     \<Rightarrow> ('w, 'c) Writer \<times> FileHeader list \<times> 'd part list \<Rightarrow> bool" where
  "parts_inv V codec ok hs0 s \<longleftrightarrow> (case s of (w, hs, ps) \<Rightarrow>
     wr_detached w \<and> wr_centralDirectory w = None \<and> wr_dir w = map part_header ps
     \<and> distinct (map (j_hdr \<circ> pt_job) ps) \<and> length hs = length hs0
     \<and> (\<forall>p \<in> set ps. ok ((pt_job p)\<lparr>j_writes := []\<rparr>)
          \<and> (part_open V codec (hs0 ! j_hdr (pt_job p)) (hs ! j_hdr (pt_job p)) p
             \<or> part_closed V codec (hs0 ! j_hdr (pt_job p)) (hs ! j_hdr (pt_job p)) p))
     \<and> (\<forall>a. a \<notin> (j_hdr \<circ> pt_job) ` set ps \<longrightarrow> hs ! a = hs0 ! a))"

lemma parts_invI:
  assumes "wr_detached w" "wr_centralDirectory w = None" "wr_dir w = map part_header ps"
    "distinct (map (j_hdr \<circ> pt_job) ps)" "length hs = length hs0"
    "\<And>p. p \<in> set ps \<Longrightarrow> ok ((pt_job p)\<lparr>j_writes := []\<rparr>)"
    "\<And>p. p \<in> set ps \<Longrightarrow> part_open V codec (hs0 ! j_hdr (pt_job p)) (hs ! j_hdr (pt_job p)) p
             \<or> part_closed V codec (hs0 ! j_hdr (pt_job p)) (hs ! j_hdr (pt_job p)) p"
    "\<And>a. a \<notin> (j_hdr \<circ> pt_job) ` set ps \<Longrightarrow> hs ! a = hs0 ! a"
  shows "parts_inv V codec ok hs0 (w, hs, ps)"
  using assms by (simp add: parts_inv_def)

lemma parts_invD:
  assumes "parts_inv V codec ok hs0 (w, hs, ps)"
  shows "wr_detached w" "wr_centralDirectory w = None" "wr_dir w = map part_header ps"
    "distinct (map (j_hdr \<circ> pt_job) ps)" "length hs = length hs0"
    "p \<in> set ps \<Longrightarrow> ok ((pt_job p)\<lparr>j_writes := []\<rparr>)"
    "p \<in> set ps \<Longrightarrow> part_open V codec (hs0 ! j_hdr (pt_job p)) (hs ! j_hdr (pt_job p)) p
             \<or> part_closed V codec (hs0 ! j_hdr (pt_job p)) (hs ! j_hdr (pt_job p)) p"
    "a \<notin> (j_hdr \<circ> pt_job) ` set ps \<Longrightarrow> hs ! a = hs0 ! a"
  using assms by (simp_all add: parts_inv_def)

lemma part_frame [simp]:
  "job_kind V (j\<lparr>j_writes := ps\<rparr>) fh = job_kind V j fh" "job_codes codec (j\<lparr>j_writes := ps\<rparr>) fh = job_codes codec j fh"
  "job_ok V codec (j\<lparr>j_writes := ps\<rparr>) fh = job_ok V codec j fh"
  "job_plain (j\<lparr>j_writes := ps\<rparr>) = concat ps"
  by (simp_all add: job_kind_def job_codes_def job_ok_def job_plain_def)

text \<open>What a \<open>Write\<close> and a \<open>Close\<close> do to a part.\<close>

lemma part_Write:
  assumes "part_open V codec fh fh' p" "fileWriter_Write fh' sink_write (pt_fw p) b = (n, e, fw)"
  shows "n = length b \<and> e = None \<and> part_open V codec fh fh' (p\<lparr>pt_fw := fw,
     pt_job := (pt_job p)\<lparr>j_writes := j_writes (pt_job p) @ [b]\<rparr>\<rparr>)"
proof -
  from assms(1) obtain C where o: "fh' = job_header fh"
    "part.opened C (job_codes codec (pt_job p) fh) (j_raw (pt_job p)) (part_base fh)
        (job_kind V (pt_job p) fh) fh' (pt_fw p) (job_plain (pt_job p))"
    by (auto simp: part_open_def)
  obtain fw' where "fileWriter_Write fh' sink_write (pt_fw p) b = (length b, None, fw')"
    "part.opened C (job_codes codec (pt_job p) fh) (j_raw (pt_job p)) (part_base fh)
        (job_kind V (pt_job p) fh) fh' fw' (job_plain (pt_job p) @ b)"
    by (rule part.opened_Write [OF o(2)])
  then show ?thesis using assms(2) o(1) by (auto simp: part_open_def job_plain_def)
qed

lemma part_Close:
  assumes "part_open V codec fh fh' p" "fileWriter_Close V sink_write fh' (pt_fw p) = (e, fh'', fw)"
  shows "e = None \<and> part_closed V codec fh fh'' (p\<lparr>pt_fw := fw\<rparr>)"
proof -
  let ?j = "pt_job p"
  from assms(1) obtain C where o: "fh' = job_header fh"
    "part.opened C (job_codes codec ?j fh) (j_raw ?j) (part_base fh) (job_kind V ?j fh) fh' (pt_fw p) (job_plain ?j)"
    by (auto simp: part_open_def)
  obtain fw' enc fh2 where f: "fileWriter_Close V sink_write fh' (pt_fw p) = (None, fh2, fw')"
    "job_codes codec ?j fh enc (job_plain ?j)" "fw_closed fw'"
    "sink_data (zipw (fw_enc fw')) = part_base fh @ encrypted (job_kind V ?j fh) enc
       @ authcode (env_suite V) (job_kind V ?j fh) enc @ descriptor (kind_is_aes (job_kind V ?j fh)) fh2"
    "fh2 = closed_header (j_raw ?j) (kind_is_aes (job_kind V ?j fh)) (crc32 (job_plain ?j)) (env_xxh3 V (job_plain ?j))
       (of_nat (length (encrypted (job_kind V ?j fh) enc @ authcode (env_suite V) (job_kind V ?j fh) enc)))
       (of_nat (length (job_plain ?j))) fh'"
    by (rule part.opened_Close [OF o(2), of V]) auto
  have "fh2 = job_final V ?j fh enc"
    by (simp only: f(5) job_final_def job_payload_def kind_is_aes_job o(1))
  moreover from this f(4) have "sink_data (zipw (fw_enc fw')) = job_image V ?j fh enc"
    by (simp add: job_image_def entry_image_def part_base_def)
  ultimately show ?thesis using assms(2) f(1-3) by (auto simp: part_closed_def part_data_def)
qed

lemma part_closed_refuses:
  assumes "part_closed V codec fh fh' p"
  shows "fileWriter_Write fh' sink_write (pt_fw p) b = (0, Some ErrWriteClosed, pt_fw p)"
    "fileWriter_Close V sink_write fh' (pt_fw p) = (Some ErrFileClosedTwice, fh', pt_fw p)"
  using assms by (simp_all add: part_closed_def fileWriter_Write_def fileWriter_Close_def)

lemma part_not_both: "part_open V codec fh fh' p \<Longrightarrow> \<not> fw_closed (pt_fw p)"
  by (auto simp: part_open_def dest: part.opened_not_closed)

lemma create_part_ok:
  assumes ok: "job_ok V codec j (hs ! j_hdr j)" and w: "j_writes j = []"
  obtains fw z where "create_part V j order w hs = (Inr fw, z,
      addDetachedHeader \<lparr>hd_fh = j_hdr j, hd_offset = 0, hd_order = order\<rparr> w, hs[j_hdr j := job_header (hs ! j_hdr j)])"
    "part_open V codec (hs ! j_hdr j) (job_header (hs ! j_hdr j)) \<lparr>pt_job = j, pt_order = order, pt_fw = fw\<rparr>"
proof -
  obtain fw z1 C where "(if j_raw j then newRawFileWriter V sink_write (j_rnd j) (hs ! j_hdr j) empty_sink
       else newFileWriter V sink_write (j_rnd j) (hs ! j_hdr j) empty_sink) = (Inr fw, job_header (hs ! j_hdr j), z1)"
    "sink_data z1 = part_base (hs ! j_hdr j)"
    "part.opened C (job_codes codec j (hs ! j_hdr j)) (j_raw j) (sink_data z1) (job_kind V j (hs ! j_hdr j))
       (job_header (hs ! j_hdr j)) fw []"
    using part.open_job [OF ok, of empty_sink] by (auto simp: part_base_def)
  with that w show ?thesis
    by (cases "j_raw j") (auto simp: create_part_def CreateRawFileParts_def CreateFileParts_def add_part_def
        part_open_def job_plain_def)
qed

text \<open>The client's parts: headers the writer can write, and that leave room for its extra fields.\<close>

definition parts_allowed ::
  "(sink, 'd) writer_env \<Rightarrow> (u16 \<Rightarrow> byte list \<Rightarrow> byte list \<Rightarrow> bool) \<Rightarrow> FileHeader list \<Rightarrow> (job \<Rightarrow> bool) \<Rightarrow> bool" where
  "parts_allowed V codec hs0 ok \<longleftrightarrow> (\<forall>j. ok j \<longrightarrow> job_ok V codec j (hs0 ! j_hdr j) \<and> header_plain (hs0 ! j_hdr j)
     \<and> j_hdr j < length hs0)"

lemma nth_distinct_hdr:
  assumes "distinct (map (j_hdr \<circ> pt_job) ps)" "i < length ps" "q \<in> set (ps[i := p'])" "j_hdr (pt_job p') = j_hdr (pt_job (ps ! i))"
    "j_hdr (pt_job q) = j_hdr (pt_job (ps ! i))"
  shows "q = p'"
proof -
  from assms(3) obtain k where k: "k < length ps" "q = ps[i := p'] ! k" by (auto simp: in_set_conv_nth)
  show ?thesis
  proof (cases "k = i")
    case False
    with k have "(map (j_hdr \<circ> pt_job) ps) ! k = (map (j_hdr \<circ> pt_job) ps) ! i" using assms(2,5) by simp
    with assms(1,2) k(1) False show ?thesis using nth_eq_iff_index_eq [OF assms(1), of k i] by simp
  qed (use k assms(2) in simp)
qed

lemma parts_inv_update:
  assumes "parts_inv V codec ok hs0 (w, hs, ps)" "i < length ps" "p = ps ! i"
    and "j_hdr (pt_job p') = j_hdr (pt_job p)" "(pt_job p')\<lparr>j_writes := []\<rparr> = (pt_job p)\<lparr>j_writes := []\<rparr>"
    and "pt_order p' = pt_order p" and h: "j_hdr (pt_job p) < length hs0"
    and new: "part_open V codec (hs0 ! j_hdr (pt_job p)) fh p' \<or> part_closed V codec (hs0 ! j_hdr (pt_job p)) fh p'"
  shows "parts_inv V codec ok hs0 (w, hs[j_hdr (pt_job p) := fh], ps[i := p'])"
proof (rule parts_invI)
  note D = parts_invD [OF assms(1)]
  have pin: "p \<in> set ps" using assms(2,3) by simp
  show "wr_detached w" "wr_centralDirectory w = None" by (fact D)+
  have "part_header p' = part_header p" using assms(4,6) by (simp add: part_header_def)
  then have "map part_header (ps[i := p']) = map part_header (ps[i := p])" by (simp add: map_update)
  then show "wr_dir w = map part_header (ps[i := p'])" using D(3) assms(3) by simp
  have hd: "map (j_hdr \<circ> pt_job) (ps[i := p']) = map (j_hdr \<circ> pt_job) ps"
    using assms(2-4) by (simp add: map_update list_update_same_conv)
  show "distinct (map (j_hdr \<circ> pt_job) (ps[i := p']))" using D(4) hd by metis
  show "length (hs[j_hdr (pt_job p) := fh]) = length hs0" using D(5) by simp
  show "ok ((pt_job q)\<lparr>j_writes := []\<rparr>)" if "q \<in> set (ps[i := p'])" for q
  proof (cases "q = p'")
    case True then show ?thesis using D(6) [OF pin] assms(5) by simp
  next
    case False
    then have "q \<in> set ps" using set_update_subset_insert [of ps i p'] that by blast
    then show ?thesis using D(6) by blast
  qed
  show "part_open V codec (hs0 ! j_hdr (pt_job q)) (hs[j_hdr (pt_job p) := fh] ! j_hdr (pt_job q)) q
      \<or> part_closed V codec (hs0 ! j_hdr (pt_job q)) (hs[j_hdr (pt_job p) := fh] ! j_hdr (pt_job q)) q"
    if q: "q \<in> set (ps[i := p'])" for q
  proof (cases "j_hdr (pt_job q) = j_hdr (pt_job p)")
    case True
    then have "q = p'" using nth_distinct_hdr [OF D(4) assms(2) q] assms(3,4) by simp
    then show ?thesis using new h D(5) assms(4) by simp
  next
    case False
    then have "q \<in> set ps" using set_update_subset_insert [of ps i p'] q assms(4) by auto
    then show ?thesis using D(7) False by simp
  qed
  show "hs[j_hdr (pt_job p) := fh] ! a = hs0 ! a" if "a \<notin> (j_hdr \<circ> pt_job) ` set (ps[i := p'])" for a
  proof -
    have "(j_hdr \<circ> pt_job) ` set (ps[i := p']) = (j_hdr \<circ> pt_job) ` set ps"
      using arg_cong [OF hd, of set] by (simp only: set_map)
    then have "a \<notin> (j_hdr \<circ> pt_job) ` set ps" "a \<noteq> j_hdr (pt_job p)" using that pin by auto
    then show ?thesis using D(8) by simp
  qed
qed

lemma parts_step_inv:
  assumes "part_step V ok s s'" "parts_inv V codec ok hs0 s" "parts_allowed V codec hs0 ok"
  shows "parts_inv V codec ok hs0 s'"
  using assms(1)
proof cases
  case (part_create j ps order w hs fw z w' hs')
  note D = parts_invD [OF assms(2) [unfolded part_create(1)]]
  have j: "job_ok V codec j (hs0 ! j_hdr j)" "j_hdr j < length hs0"
    using assms(3) part_create(3) by (auto simp: parts_allowed_def)
  have new: "j_hdr j \<notin> (j_hdr \<circ> pt_job) ` set ps" using part_create(5) by simp
  have hj: "hs ! j_hdr j = hs0 ! j_hdr j" using D(8) new by simp
  obtain fw' z' where c: "create_part V j order w hs = (Inr fw', z',
      addDetachedHeader \<lparr>hd_fh = j_hdr j, hd_offset = 0, hd_order = order\<rparr> w, hs[j_hdr j := job_header (hs0 ! j_hdr j)])"
    "part_open V codec (hs0 ! j_hdr j) (job_header (hs0 ! j_hdr j)) \<lparr>pt_job = j, pt_order = order, pt_fw = fw'\<rparr>"
    using create_part_ok [of V codec j hs order w] j(1) part_create(4) unfolding hj by blast
  with part_create(6) have w': "w' = addDetachedHeader \<lparr>hd_fh = j_hdr j, hd_offset = 0, hd_order = order\<rparr> w"
    "hs' = hs[j_hdr j := job_header (hs0 ! j_hdr j)]" "fw' = fw" by auto
  have "j\<lparr>j_writes := []\<rparr> = j" using part_create(4) by (cases j) simp
  then have okj: "ok (j\<lparr>j_writes := []\<rparr>)" using part_create(3) by simp
  let ?p = "\<lparr>pt_job = j, pt_order = order, pt_fw = fw\<rparr>" and ?w = "addDetachedHeader \<lparr>hd_fh = j_hdr j, hd_offset = 0, hd_order = order\<rparr> w"
    and ?hs = "hs[j_hdr j := job_header (hs0 ! j_hdr j)]"
  have "parts_inv V codec ok hs0 (?w, ?hs, ps @ [?p])"
  proof (rule parts_invI)
    show "wr_detached ?w" "wr_centralDirectory ?w = None" "wr_dir ?w = map part_header (ps @ [?p])"
      using D(1-3) by (simp_all add: addDetachedHeader_def part_header_def)
    show "distinct (map (j_hdr \<circ> pt_job) (ps @ [?p]))" "length ?hs = length hs0" using D(4,5) new by simp_all
    show "ok ((pt_job q)\<lparr>j_writes := []\<rparr>)" if "q \<in> set (ps @ [?p])" for q
      using that D(6) okj by auto
    show "part_open V codec (hs0 ! j_hdr (pt_job q)) (?hs ! j_hdr (pt_job q)) q
        \<or> part_closed V codec (hs0 ! j_hdr (pt_job q)) (?hs ! j_hdr (pt_job q)) q" if q: "q \<in> set (ps @ [?p])" for q
    proof (cases "q \<in> set ps")
      case True
      then have "j_hdr (pt_job q) \<noteq> j_hdr j" using new by (metis comp_apply image_eqI)
      then show ?thesis using D(7) [OF True] by simp
    next
      case False
      then show ?thesis using q c(2) w'(3) j(2) D(5) by simp
    qed
    show "?hs ! a = hs0 ! a" if "a \<notin> (j_hdr \<circ> pt_job) ` set (ps @ [?p])" for a
      using that D(8) by simp
  qed
  then show ?thesis unfolding part_create(2) w'(1,2) .
next
  case (part_write i ps p hs b n e fw w)
  note D = parts_invD [OF assms(2) [unfolded part_write(1)]]
  have p: "p \<in> set ps" using part_write(3,4) by auto
  have "j_hdr (pt_job p) < length hs0" using D(6) [OF p] assms(3) by (auto simp: parts_allowed_def)
  let ?p' = "p\<lparr>pt_fw := fw, pt_job := (if e = None then (pt_job p)\<lparr>j_writes := j_writes (pt_job p) @ [b]\<rparr> else pt_job p)\<rparr>"
  have "part_open V codec (hs0 ! j_hdr (pt_job p)) (hs ! j_hdr (pt_job p)) ?p'
      \<or> part_closed V codec (hs0 ! j_hdr (pt_job p)) (hs ! j_hdr (pt_job p)) ?p'"
    using D(7) [OF p]
  proof
    assume "part_open V codec (hs0 ! j_hdr (pt_job p)) (hs ! j_hdr (pt_job p)) p"
    from part_Write [OF this part_write(5)] show ?thesis by simp
  next
    assume c: "part_closed V codec (hs0 ! j_hdr (pt_job p)) (hs ! j_hdr (pt_job p)) p"
    with part_closed_refuses(1) [OF c] part_write(5) have "fw = pt_fw p" "e \<noteq> None" by auto
    with c show ?thesis by auto
  qed
  then have "parts_inv V codec ok hs0 (w, hs[j_hdr (pt_job p) := hs ! j_hdr (pt_job p)], ps[i := ?p'])"
    by (intro parts_inv_update [OF assms(2) [unfolded part_write(1)] part_write(3) part_write(4) [symmetric]])
       (use \<open>j_hdr (pt_job p) < length hs0\<close> in auto)
  then show ?thesis using part_write(2) by simp
next
  case (part_close i ps p hs e fh fw w)
  note D = parts_invD [OF assms(2) [unfolded part_close(1)]]
  have p: "p \<in> set ps" using part_close(3,4) by auto
  have h: "j_hdr (pt_job p) < length hs0" using D(6) [OF p] assms(3) by (auto simp: parts_allowed_def)
  have "part_open V codec (hs0 ! j_hdr (pt_job p)) fh (p\<lparr>pt_fw := fw\<rparr>)
      \<or> part_closed V codec (hs0 ! j_hdr (pt_job p)) fh (p\<lparr>pt_fw := fw\<rparr>)"
    using D(7) [OF p]
  proof
    assume "part_open V codec (hs0 ! j_hdr (pt_job p)) (hs ! j_hdr (pt_job p)) p"
    from part_Close [OF this part_close(5)] show ?thesis by simp
  next
    assume c: "part_closed V codec (hs0 ! j_hdr (pt_job p)) (hs ! j_hdr (pt_job p)) p"
    with part_closed_refuses(2) [OF c] part_close(5) have "fw = pt_fw p" "fh = hs ! j_hdr (pt_job p)" by auto
    with c show ?thesis by simp
  qed
  then show ?thesis unfolding part_close(2)
    by (intro parts_inv_update [OF assms(2) [unfolded part_close(1)] part_close(3) part_close(4) [symmetric]])
       (use h in auto)
qed

lemma parts_reachable_inv:
  assumes "(part_step V ok)\<^sup>*\<^sup>* (w, hs0, []) s" "NewWriter ([] :: 'w list) = Inr w" "parts_allowed V codec hs0 ok"
  shows "parts_inv V codec ok hs0 s"
  using assms(1)
proof (induction rule: rtranclp_induct)
  case base
  then show ?case using assms(2) by (auto simp: parts_inv_def NewWriter_def)
next
  case (step s s')
  then show ?case using parts_step_inv assms(3) by blast
qed

section \<open>The central directory of the parts\<close>

lemma map_cong_pairs:
  "map (\<lambda>h. f (hd_fh h) (hd_offset h)) xs = map (\<lambda>(a, b). f a b) (map (\<lambda>h. (hd_fh h, hd_offset h)) xs)"
  by simp

lemma ordered_dir_bytes:
  assumes "headers_at V hs0 (map snd ds) hs"
  shows "concat (map (\<lambda>h. directory_record (hs ! hd_fh h) (hd_offset h)) (ordered_dir V hs0 pos ds))
    = directory_bytes (entries_of V hs0 pos (map snd ds))"
proof -
  have "map (\<lambda>h. directory_record (hs ! hd_fh h) (hd_offset h)) (ordered_dir V hs0 pos ds)
      = map (\<lambda>h. directory_record (hs ! hd_fh h) (hd_offset h)) (dir_of V hs0 pos (map snd ds))"
    unfolding map_cong_pairs [of "\<lambda>a b. directory_record (hs ! a) b"] ordered_dir_records ..
  then show ?thesis using directory_of_entries [OF assms] by simp
qed

lemma ordered_dir_fits:
  assumes "\<forall>x \<in> set ds. header_plain (hs0 ! j_hdr (fst (snd x))) \<and> hs ! j_hdr (fst (snd x)) = final_of V hs0 (snd x)"
  shows "\<forall>h \<in> set (ordered_dir V hs0 pos ds). directory_fits (hs ! hd_fh h) (hd_offset h)"
  using assms
proof (induction ds arbitrary: pos)
  case (Cons x ds)
  then show ?case by (cases x) (auto intro: final_fits)
qed simp

text \<open>The directory \<open>generateCentralDirectory\<close> makes of complete parts.\<close>

lemma generateCentralDirectory_parts:
  assumes "wr_centralDirectory w = None" "sort_key hd_order (wr_dir w) =
      map (\<lambda>(n, d). \<lparr>hd_fh = j_hdr (fst d), hd_offset = 0, hd_order = n\<rparr>) xs"
    and h: "headers_at V hs0 (map snd xs) hs" and p: "\<forall>x \<in> set xs. header_plain (hs0 ! j_hdr (fst (snd x)))"
  shows "\<exists>w'. generateCentralDirectory w hs = (None, w') \<and> wr_detached w' = wr_detached w
    \<and> wr_centralDirectory w' = Some (directory_bytes (entries_of V hs0 0 (map snd xs))
        @ directory_end (of_nat (length xs)) (of_nat (length (directory_bytes (entries_of V hs0 0 (map snd xs)))))
            (of_nat (length (images V hs0 (map snd xs)))))"
proof -
  have f: "\<forall>x \<in> set xs. hs ! j_hdr (fst (snd x)) = final_of V hs0 (snd x)"
    using h by (auto simp: headers_at_def)
  have fits: "\<forall>h \<in> set (ordered_dir V hs0 0 xs). directory_fits (hs ! hd_fh h) (hd_offset h)"
    using f p by (intro ordered_dir_fits) simp
  have "sink_good empty_sink" by (simp add: sink_good_def empty_sink_def)
  from snk.writeDirectory_good [OF this fits] obtain z where z:
    "writeDirectory sink_write hs (ordered_dir V hs0 0 xs) empty_sink = (None, z)" "sink_good z"
    "sink_data z = directory_bytes (entries_of V hs0 0 (map snd xs))"
    by (auto simp: ordered_dir_bytes [OF h])
  obtain z' where "writeDirectoryEnd sink_write (of_nat (length xs)) (of_nat (length (sink_data z)))
      (of_nat (length (images V hs0 (map snd xs)))) z = (None, z')"
    "sink_data z' = sink_data z @ directory_end (of_nat (length xs)) (of_nat (length (sink_data z)))
      (of_nat (length (images V hs0 (map snd xs))))"
    by (rule snk.writeDirectoryEnd_good [OF z(2)])
  with z assms(1,2) assign_offsets_parts [OF f, of 0] show ?thesis
    by (simp add: generateCentralDirectory_def)
qed

text \<open>Once every part is closed, the headers and the sorted directory describe what was written.\<close>

lemma parts_complete:
  fixes V :: "(sink, 'd) writer_env"
  assumes inv: "parts_inv V codec ok hs0 (w, hs, ps)" and al: "parts_allowed V codec hs0 ok"
    and closed: "\<forall>p \<in> set ps. fw_closed (pt_fw p)" and qs: "qs = sort_key pt_order ps"
  obtains xs where "map fst (map snd xs) = map pt_job qs" "encoded codec hs0 (map snd xs)"
    "headers_at V hs0 (map snd xs) hs" "\<forall>x \<in> set xs. header_plain (hs0 ! j_hdr (fst (snd x)))"
    "sort_key hd_order (wr_dir w) = map (\<lambda>(n, d). \<lparr>hd_fh = j_hdr (fst d), hd_offset = 0, hd_order = n\<rparr>) xs"
    "concat (map part_data qs) = images V hs0 (map snd xs)"
proof -
  note D = parts_invD [OF inv]
  have "part_closed V codec (hs0 ! j_hdr (pt_job p)) (hs ! j_hdr (pt_job p)) p" if "p \<in> set ps" for p
    using D(7) [OF that] closed that part_not_both by blast
  then have "\<forall>p \<in> set ps. \<exists>enc. job_codes codec (pt_job p) (hs0 ! j_hdr (pt_job p)) enc (job_plain (pt_job p))
      \<and> part_data p = image_of V hs0 (pt_job p, enc) \<and> hs ! j_hdr (pt_job p) = final_of V hs0 (pt_job p, enc)"
    by (auto simp: part_closed_def image_of_def final_of_def)
  then obtain enc where e: "\<forall>p \<in> set ps. job_codes codec (pt_job p) (hs0 ! j_hdr (pt_job p)) (enc p) (job_plain (pt_job p))
      \<and> part_data p = image_of V hs0 (pt_job p, enc p) \<and> hs ! j_hdr (pt_job p) = final_of V hs0 (pt_job p, enc p)"
    by (auto dest!: bchoice)
  let ?xs = "map (\<lambda>p. (pt_order p, pt_job p, enc p)) qs"
  have st: "set qs = set ps" by (simp add: qs)
  have pl: "header_plain (hs0 ! j_hdr (pt_job p)) \<and> j_hdr (pt_job p) < length hs0" if "p \<in> set ps" for p
    using D(6) [OF that] al by (auto simp: parts_allowed_def)
  have "headers_at V hs0 (map snd ?xs) hs"
    unfolding headers_at_def
  proof (intro conjI ballI allI impI)
    show "length hs = length hs0" by (rule D(5))
    fix d assume "d \<in> set (map snd ?xs)"
    then obtain p where "p \<in> set ps" "d = (pt_job p, enc p)" using st by auto
    with e pl show "j_hdr (fst d) < length hs0" "hs ! j_hdr (fst d) = final_of V hs0 d" by auto
  next
    fix a assume "a < length hs0" "a \<notin> (j_hdr \<circ> fst) ` set (map snd ?xs)"
    then have "a \<notin> (j_hdr \<circ> pt_job) ` set ps" using st by (force simp: image_iff)
    then show "hs ! a = hs0 ! a" by (rule D(8))
  qed
  moreover have "sort_key hd_order (wr_dir w) = map (\<lambda>(n, d). \<lparr>hd_fh = j_hdr (fst d), hd_offset = 0, hd_order = n\<rparr>) ?xs"
    unfolding D(3) sort_key_map by (simp add: part_header_def [abs_def] qs o_def)
  moreover have "concat (map part_data qs) = images V hs0 (map snd ?xs)"
    unfolding images_def using e st by (intro arg_cong [where f = concat]) (simp add: o_def)
  moreover have "map fst (map snd ?xs) = map pt_job qs" by (simp add: o_def)
  moreover have "encoded codec hs0 (map snd ?xs)" using e st by (auto simp: encoded_def)
  moreover have "\<forall>x \<in> set ?xs. header_plain (hs0 ! j_hdr (fst (snd x)))" using pl st by auto
  ultimately show ?thesis using that [of ?xs] by blast
qed

lemma detached_written:
  fixes w0 :: "('w, 'c) Writer" and V :: "(sink, 'd) writer_env"
  assumes "NewWriter ([] :: 'w list) = Inr w0" and "parts_allowed V codec hs0 ok"
    and "(part_step V ok)\<^sup>*\<^sup>* (w0, hs0, []) (w, hs, ps)" and "\<forall>p \<in> set ps. fw_closed (pt_fw p)"
    and "GetCentralDirectoryBytes w hs = (r, w')"
  obtains ds where "map fst ds = map pt_job (sort_key pt_order ps)" "encoded codec hs0 ds"
    "concat (map part_data (sort_key pt_order ps)) = images V hs0 ds"
    "r = Inr (directory_bytes (entries_of V hs0 0 ds) @ directory_end (of_nat (length ds))
       (of_nat (length (directory_bytes (entries_of V hs0 0 ds)))) (of_nat (length (images V hs0 ds))))"
    "\<forall>d \<in> set ds. header_plain (hs0 ! j_hdr (fst d))"
proof -
  note inv = parts_reachable_inv [OF assms(3,1,2)]
  note D = parts_invD [OF inv]
  obtain xs where xs: "map fst (map snd xs) = map pt_job (sort_key pt_order ps)" "encoded codec hs0 (map snd xs)"
    "headers_at V hs0 (map snd xs) hs" "\<forall>x \<in> set xs. header_plain (hs0 ! j_hdr (fst (snd x)))"
    "sort_key hd_order (wr_dir w) = map (\<lambda>(n, d). \<lparr>hd_fh = j_hdr (fst d), hd_offset = 0, hd_order = n\<rparr>) xs"
    "concat (map part_data (sort_key pt_order ps)) = images V hs0 (map snd xs)"
    by (rule parts_complete [OF inv assms(2,4) refl])
  from generateCentralDirectory_parts [OF D(2) xs(5,3,4)] assms(5) D(1) that [OF xs(1,2,6)] xs(4)
  show ?thesis by (auto simp: GetCentralDirectoryBytes_def)
qed

text \<open>
  C7. Parts and directory fit together. However the creation, the writes and the closings of any
  number of parts are interleaved, once all are closed \<open>GetCentralDirectoryBytes\<close> succeeds, and the
  parts, put one after the other by their order (those of the same order as they were created),
  followed by these bytes are an archive in which \<open>NewReader\<close> finds every part at its place with its
  metadata, sizes and checksums.
\<close>

theorem detached_roundtrip:
  fixes w0 :: "('w, 'c) Writer" and V :: "(sink, 'd) writer_env"
  assumes "NewWriter ([] :: 'w list) = Inr w0" and "parts_allowed V codec hs0 ok"
    and "(part_step V ok)\<^sup>*\<^sup>* (w0, hs0, []) (w, hs, ps)" and "\<forall>p \<in> set ps. fw_closed (pt_fw p)"
    and "GetCentralDirectoryBytes w hs = (r, w')"
    and "A = concat (map part_data (sort_key pt_order ps)) @ projr r" and "length A < 2 ^ 63" and "locator_ok A"
  shows "\<exists>D ds. r = Inr D \<and> map fst ds = map pt_job (sort_key pt_order ps) \<and> encoded codec hs0 ds
    \<and> NewReader (file_at A) (int (length A)) = Some (Inr \<lparr>rdr_r = file_at A,
        rdr_File = map (read_entry (file_at A) (int (length A))) (entries_of V hs0 0 ds), rdr_Comment = []\<rparr>)"
proof -
  obtain ds where ds: "map fst ds = map pt_job (sort_key pt_order ps)" "encoded codec hs0 ds"
    "concat (map part_data (sort_key pt_order ps)) = images V hs0 ds"
    "r = Inr (directory_bytes (entries_of V hs0 0 ds) @ directory_end (of_nat (length ds))
       (of_nat (length (directory_bytes (entries_of V hs0 0 ds)))) (of_nat (length (images V hs0 ds))))"
    "\<forall>d \<in> set ds. header_plain (hs0 ! j_hdr (fst d))"
    by (rule detached_written [OF assms(1-5)])
  have A: "A = images V hs0 ds @ directory_bytes (entries_of V hs0 0 ds)
      @ directory_end (of_nat (length ds)) (of_nat (length (directory_bytes (entries_of V hs0 0 ds))))
          (of_nat (length (images V hs0 ds)))"
    using assms(6) ds(3,4) by simp
  note NewReader_images [OF A assms(7,8) ds(5)]
  with ds(1,2,4) show ?thesis by blast
qed

text \<open>Creating an allowed part always succeeds, and so does closing an open one.\<close>

lemma part_create_run:
  assumes "parts_inv V codec ok hs0 (w, hs, ps)" "parts_allowed V codec hs0 ok" "ok j" "j_writes j = []"
    and "j_hdr j \<notin> set (map (j_hdr \<circ> pt_job) ps)"
  obtains w' hs' fw where "part_step V ok (w, hs, ps) (w', hs', ps @ [\<lparr>pt_job = j, pt_order = order, pt_fw = fw\<rparr>])"
    "\<not> fw_closed fw"
proof -
  have hj: "hs ! j_hdr j = hs0 ! j_hdr j" using parts_invD(8) [OF assms(1)] assms(5) by simp
  have "job_ok V codec j (hs ! j_hdr j)" using assms(2,3) by (simp add: parts_allowed_def hj)
  then obtain fw z where c: "create_part V j order w hs = (Inr fw, z,
      addDetachedHeader \<lparr>hd_fh = j_hdr j, hd_offset = 0, hd_order = order\<rparr> w, hs[j_hdr j := job_header (hs ! j_hdr j)])"
    "part_open V codec (hs ! j_hdr j) (job_header (hs ! j_hdr j)) \<lparr>pt_job = j, pt_order = order, pt_fw = fw\<rparr>"
    by (rule create_part_ok [OF _ assms(4)])
  from part_not_both [OF c(2)] part_create [where ok = ok and ps = ps, OF assms(3-5) c(1)] that
  show ?thesis by simp
qed

lemma part_write_run:
  assumes "parts_inv V codec ok hs0 (w, hs, ps)" "k < length ps" "\<not> fw_closed (pt_fw (ps ! k))"
  obtains fw where "part_step V ok (w, hs, ps) (w, hs, ps[k := (ps ! k)\<lparr>pt_fw := fw,
       pt_job := (pt_job (ps ! k))\<lparr>j_writes := j_writes (pt_job (ps ! k)) @ [b]\<rparr>\<rparr>])"
proof -
  let ?p = "ps ! k"
  have "?p \<in> set ps" using assms(2) by simp
  from parts_invD(7) [OF assms(1) this] assms(3)
  have "part_open V codec (hs0 ! j_hdr (pt_job ?p)) (hs ! j_hdr (pt_job ?p)) ?p" by (auto simp: part_closed_def)
  moreover obtain n e fw where f: "fileWriter_Write (hs ! j_hdr (pt_job ?p)) sink_write (pt_fw ?p) b = (n, e, fw)"
    by (metis prod_cases3)
  ultimately have "e = None" using part_Write by blast
  with part_write [where V = V and ok = ok and w = w, OF assms(2) refl f] that show ?thesis by simp
qed

definition all_closed :: "'d part list \<Rightarrow> nat \<Rightarrow> bool" where
  "all_closed ps k \<longleftrightarrow> (\<forall>p \<in> set (take k ps). fw_closed (pt_fw p))"

lemma part_close_run:
  assumes "parts_inv V codec ok hs0 (w, hs, ps)" "k < length ps"
  obtains hs' p where "(part_step V ok)\<^sup>*\<^sup>* (w, hs, ps) (w, hs', ps[k := p])" "pt_job p = pt_job (ps ! k)"
    "pt_order p = pt_order (ps ! k)" "fw_closed (pt_fw p)"
proof (cases "fw_closed (pt_fw (ps ! k))")
  case True
  then show ?thesis using that [of hs "ps ! k"] by simp
next
  case False
  let ?p = "ps ! k"
  obtain e fh fw where c: "fileWriter_Close V sink_write (hs ! j_hdr (pt_job ?p)) (pt_fw ?p) = (e, fh, fw)"
    by (metis prod_cases3)
  have "?p \<in> set ps" using assms(2) by simp
  from parts_invD(7) [OF assms(1) this] False
  have "part_open V codec (hs0 ! j_hdr (pt_job ?p)) (hs ! j_hdr (pt_job ?p)) ?p" by (auto simp: part_closed_def)
  from part_Close [OF this c] have "fw_closed fw" by (simp add: part_closed_def)
  with part_close [OF assms(2) refl c] that [of _ "?p\<lparr>pt_fw := fw\<rparr>"] show ?thesis by auto
qed

text \<open>
  C30. A run never gets stuck: from every reachable state, whatever parts are open and whatever was
  written to them, the client can close all of them and obtain the directory.
\<close>

theorem detached_can_finish:
  fixes w0 :: "('w, 'c) Writer" and V :: "(sink, 'd) writer_env"
  assumes "NewWriter ([] :: 'w list) = Inr w0" and "parts_allowed V codec hs0 ok"
    and "(part_step V ok)\<^sup>*\<^sup>* (w0, hs0, []) (w, hs, ps)"
  shows "\<exists>hs' ps' D w'. (part_step V ok)\<^sup>*\<^sup>* (w, hs, ps) (w, hs', ps') \<and> map pt_job ps' = map pt_job ps
    \<and> (\<forall>p \<in> set ps'. fw_closed (pt_fw p)) \<and> GetCentralDirectoryBytes w hs' = (Inr D, w')"
proof -
  have "k \<le> length ps \<Longrightarrow> \<exists>hs' ps'. (part_step V ok)\<^sup>*\<^sup>* (w, hs, ps) (w, hs', ps') \<and> map pt_job ps' = map pt_job ps
      \<and> all_closed ps' k" for k
  proof (induction k)
    case (Suc k)
    then obtain hs' ps' where s: "(part_step V ok)\<^sup>*\<^sup>* (w, hs, ps) (w, hs', ps')" "map pt_job ps' = map pt_job ps"
      "all_closed ps' k" by auto
    have l: "k < length ps'" using Suc.prems arg_cong [OF s(2), of length] by simp
    have "parts_inv V codec ok hs0 (w, hs', ps')"
      using parts_reachable_inv [OF _ assms(1,2)] assms(3) s(1) by (meson rtranclp_trans)
    from part_close_run [OF this l] obtain hs2 p where
      p: "(part_step V ok)\<^sup>*\<^sup>* (w, hs', ps') (w, hs2, ps'[k := p])" "pt_job p = pt_job (ps' ! k)" "fw_closed (pt_fw p)"
      by blast
    have "map pt_job (ps'[k := p]) = map pt_job ps" using p(2) s(2) l
      by (metis (no_types, lifting) map_update list_update_id)
    moreover have "all_closed (ps'[k := p]) (Suc k)"
      using s(3) p(3) l by (auto simp: all_closed_def take_Suc_conv_app_nth)
    ultimately show ?case using s(1) p(1) by (meson rtranclp_trans)
  qed (auto simp: all_closed_def)
  from this [OF order_refl] obtain hs' ps' where s: "(part_step V ok)\<^sup>*\<^sup>* (w, hs, ps) (w, hs', ps')"
    "map pt_job ps' = map pt_job ps" "all_closed ps' (length ps)" by blast
  have "length ps' = length ps" using arg_cong [OF s(2), of length] by simp
  then have c: "\<forall>p \<in> set ps'. fw_closed (pt_fw p)" using s(3) by (simp add: all_closed_def)
  have inv: "parts_inv V codec ok hs0 (w, hs', ps')"
    using parts_reachable_inv [OF _ assms(1,2)] assms(3) s(1) by (meson rtranclp_trans)
  note D = parts_invD [OF inv]
  obtain xs where xs: "headers_at V hs0 (map snd xs) hs'" "\<forall>x \<in> set xs. header_plain (hs0 ! j_hdr (fst (snd x)))"
    "sort_key hd_order (wr_dir w) = map (\<lambda>(n, d). \<lparr>hd_fh = j_hdr (fst d), hd_offset = 0, hd_order = n\<rparr>) xs"
    using parts_complete [OF inv assms(2) c refl] by metis
  from generateCentralDirectory_parts [OF D(2) xs(3,1,2)] D(1)
  have "\<exists>D w'. GetCentralDirectoryBytes w hs' = (Inr D, w')" by (auto simp: GetCentralDirectoryBytes_def)
  with s(1,2) c show ?thesis by blast
qed

text \<open>Two parts for the examples, written one inside the other and put the other way round.\<close>

definition toy_parts :: "FileHeader list" where
  "toy_parts = [zeroFileHeader\<lparr>Name := [97], Comment := replicate 20 0\<rparr>,
     zeroFileHeader\<lparr>Name := [98], Comment := replicate 20 0\<rparr>]"

definition toy_part :: "nat \<Rightarrow> job" where
  "toy_part a = \<lparr>j_raw = True, j_rnd = toy_rand, j_hdr = a, j_writes = []\<rparr>"

definition toy_allowed :: "job \<Rightarrow> bool" where
  "toy_allowed j \<longleftrightarrow> j = toy_part 0 \<or> j = toy_part 1"

lemma toy_parts_simps [simp]:
  "length toy_parts = 2" "toy_parts ! 0 = zeroFileHeader\<lparr>Name := [97], Comment := replicate 20 0\<rparr>"
  "toy_parts ! Suc 0 = zeroFileHeader\<lparr>Name := [98], Comment := replicate 20 0\<rparr>"
  by (simp_all add: toy_parts_def)

lemma toy_parts_allowed: "parts_allowed (toy_env :: (sink, int) writer_env) (\<lambda>_. (=)) toy_parts toy_allowed"
proof -
  have "plain_fields []" by (simp add: plain_fields_def wfExtra_def)
  then show ?thesis
    by (auto simp: parts_allowed_def toy_allowed_def toy_part_def job_ok_def header_plain_def enc_ready_def
        streamed_header_def job_header_def enc_header_def header_fits_def writesAES_def zeroFileHeader_def
        intro!: exI [of _ "[]"])
qed

lemma toy_run:
  assumes "NewWriter ([] :: 'w list) = (Inr w0 :: ('w, int) Writer result)"
  obtains w hs ps where "(part_step (toy_env :: (sink, int) writer_env) toy_allowed)\<^sup>*\<^sup>* (w0, toy_parts, []) (w, hs, ps)"
    "\<forall>p \<in> set ps. fw_closed (pt_fw p)"
    "map pt_job ps = [(toy_part 0)\<lparr>j_writes := [[1, 2, 3]]\<rparr>, toy_part 1]" "map pt_order ps = [2, 1]"
proof -
  let ?V = "toy_env :: (sink, int) writer_env"
  let ?R = "part_step ?V toy_allowed"
  let ?inv = "parts_inv ?V (\<lambda>_. (=)) toy_allowed toy_parts"
  note step = parts_step_inv [OF _ _ toy_parts_allowed]
  have r0: "?inv (w0, toy_parts, [])"
    by (rule parts_reachable_inv [OF rtranclp.rtrancl_refl assms toy_parts_allowed])
  obtain w1 hs1 f1 where s1: "?R (w0, toy_parts, []) (w1, hs1, [] @ [\<lparr>pt_job = toy_part 0, pt_order = 2, pt_fw = f1\<rparr>])" "\<not> fw_closed f1"
    by (rule part_create_run [OF r0 toy_parts_allowed, of "toy_part 0" 2]) (auto simp: toy_allowed_def toy_part_def)
  note r1 = step [OF s1(1) r0]
  obtain f2 where s2: "?R (w1, hs1, [] @ [\<lparr>pt_job = toy_part 0, pt_order = 2, pt_fw = f1\<rparr>])
      (w1, hs1, [\<lparr>pt_job = (toy_part 0)\<lparr>j_writes := [[1, 2, 3]]\<rparr>, pt_order = 2, pt_fw = f2\<rparr>])"
    using part_write_run [OF r1, of 0 "[1, 2, 3]"] s1(2) by (auto simp: toy_part_def)
  note r2 = step [OF s2 r1]
  obtain w3 hs3 f3 where s3: "?R (w1, hs1, [\<lparr>pt_job = (toy_part 0)\<lparr>j_writes := [[1, 2, 3]]\<rparr>, pt_order = 2, pt_fw = f2\<rparr>])
      (w3, hs3, [\<lparr>pt_job = (toy_part 0)\<lparr>j_writes := [[1, 2, 3]]\<rparr>, pt_order = 2, pt_fw = f2\<rparr>]
        @ [\<lparr>pt_job = toy_part 1, pt_order = 1, pt_fw = f3\<rparr>])"
    by (rule part_create_run [OF r2 toy_parts_allowed, of "toy_part 1" 1]) (auto simp: toy_allowed_def toy_part_def)
  note r3 = step [OF s3 r2]
  obtain hs4 p4 where s4: "?R\<^sup>*\<^sup>* (w3, hs3, [\<lparr>pt_job = (toy_part 0)\<lparr>j_writes := [[1, 2, 3]]\<rparr>, pt_order = 2, pt_fw = f2\<rparr>]
        @ [\<lparr>pt_job = toy_part 1, pt_order = 1, pt_fw = f3\<rparr>])
      (w3, hs4, [p4, \<lparr>pt_job = toy_part 1, pt_order = 1, pt_fw = f3\<rparr>])"
    "pt_job p4 = (toy_part 0)\<lparr>j_writes := [[1, 2, 3]]\<rparr>" "pt_order p4 = 2" "fw_closed (pt_fw p4)"
    using part_close_run [OF r3, of 0] by auto
  have "?R\<^sup>*\<^sup>* (w0, toy_parts, []) (w3, hs4, [p4, \<lparr>pt_job = toy_part 1, pt_order = 1, pt_fw = f3\<rparr>])"
    using s1(1) s2 s3 s4(1) by (meson converse_rtranclp_into_rtranclp)
  note r4 = this parts_reachable_inv [OF this assms toy_parts_allowed]
  obtain hs5 p5 where r5: "?R\<^sup>*\<^sup>* (w3, hs4, [p4, \<lparr>pt_job = toy_part 1, pt_order = 1, pt_fw = f3\<rparr>]) (w3, hs5, [p4, p5])"
    "pt_job p5 = toy_part 1" "pt_order p5 = 1" "fw_closed (pt_fw p5)"
    using part_close_run [OF r4(2), of 1] by auto
  from rtranclp_trans [OF r4(1) r5(1)] r5(2-4) s4(2-4) that [of w3 hs5 "[p4, p5]"] show ?thesis by simp
qed

lemma toy_images:
  assumes "map fst ds = [toy_part 1, (toy_part 0)\<lparr>j_writes := [[1, 2, 3]]\<rparr>]" "encoded (\<lambda>_. (=)) toy_parts ds"
  shows "ds = [(toy_part 1, []), ((toy_part 0)\<lparr>j_writes := [[1, 2, 3]]\<rparr>, [1, 2, 3])]"
    "length (images (toy_env :: (sink, int) writer_env) toy_parts ds) < 1000"
proof -
  let ?V = "toy_env :: (sink, int) writer_env"
  show ds: "ds = [(toy_part 1, []), ((toy_part 0)\<lparr>j_writes := [[1, 2, 3]]\<rparr>, [1, 2, 3])]"
    using assms by (auto simp: encoded_def job_codes_def toy_part_def job_plain_def)
  have l: "length (descriptor a h) \<le> 24" for a h by (simp add: length_descriptor)
  have "length (image_of ?V toy_parts (j, enc)) \<le> 100 + length enc" if "j_hdr j = 0 \<or> j_hdr j = Suc 0" for j enc
    using that l [of False "job_final ?V j (toy_parts ! j_hdr j) enc"]
    by (auto simp: image_of_def job_image_def entry_image_def job_kind_def enc_kind_of_def streamed_header_def
        job_header_def enc_header_def writesAES_def zeroFileHeader_def kind_is_aes_def)
  from this [of "toy_part 1" "[]"] this [of "(toy_part 0)\<lparr>j_writes := [[1, 2, 3]]\<rparr>" "[1, 2, 3]"]
  show "length (images ?V toy_parts ds) < 1000" by (simp add: ds toy_part_def)
qed

lemma read_aes_Name [simp]: "Name (read_aes aes h) = Name h"
  by (simp add: read_aes_def split: option.splits)

lemma toy_detached_run:
  defines "V \<equiv> toy_env :: (sink, int) writer_env"
  obtains w0 w hs ps r w' where "NewWriter ([] :: sink list) = (Inr w0 :: (sink, int) Writer result)"
    "(part_step V toy_allowed)\<^sup>*\<^sup>* (w0, toy_parts, []) (w, hs, ps)" "\<forall>p \<in> set ps. fw_closed (pt_fw p)"
    "GetCentralDirectoryBytes w hs = (r, w')"
    "length (concat (map part_data (sort_key pt_order ps)) @ projr r) < 2 ^ 63"
    "locator_ok (concat (map part_data (sort_key pt_order ps)) @ projr r)"
    "length ps = 2" "map pt_job (sort_key pt_order ps) = [toy_part 1, (toy_part 0)\<lparr>j_writes := [[1, 2, 3]]\<rparr>]"
proof -
  obtain w0 where w0: "NewWriter ([] :: sink list) = (Inr w0 :: (sink, int) Writer result)" by (simp add: NewWriter_def)
  obtain w hs ps where run: "(part_step V toy_allowed)\<^sup>*\<^sup>* (w0, toy_parts, []) (w, hs, ps)"
    "\<forall>p \<in> set ps. fw_closed (pt_fw p)"
    and ps: "map pt_job ps = [(toy_part 0)\<lparr>j_writes := [[1, 2, 3]]\<rparr>, toy_part 1]" "map pt_order ps = [2, 1]"
    unfolding V_def by (rule toy_run [OF w0])
  obtain p q where pq: "ps = [p, q]" "pt_job p = (toy_part 0)\<lparr>j_writes := [[1, 2, 3]]\<rparr>" "pt_job q = toy_part 1"
    "pt_order p = 2" "pt_order q = 1" using ps by auto
  then have so: "map pt_job (sort_key pt_order ps) = [toy_part 1, (toy_part 0)\<lparr>j_writes := [[1, 2, 3]]\<rparr>]" by simp
  obtain r w' where g: "GetCentralDirectoryBytes w hs = (r, w')" by fastforce
  obtain ds where ds: "map fst ds = [toy_part 1, (toy_part 0)\<lparr>j_writes := [[1, 2, 3]]\<rparr>]"
    "encoded (\<lambda>_. (=)) toy_parts ds"
    "concat (map part_data (sort_key pt_order ps)) = images V toy_parts ds"
    "r = Inr (directory_bytes (entries_of V toy_parts 0 ds) @ directory_end (of_nat (length ds))
       (of_nat (length (directory_bytes (entries_of V toy_parts 0 ds)))) (of_nat (length (images V toy_parts ds))))"
    by (rule detached_written [OF w0 toy_parts_allowed [folded V_def] run g, unfolded so])
  note d = toy_images [OF ds(1,2), folded V_def]
  define A where "A = concat (map part_data (sort_key pt_order ps)) @ projr r"
  obtain Y where "directory_bytes (entries_of V toy_parts 0 ds) = Y @ replicate 20 0"
    by (simp add: d(1) toy_part_def directory_record_def)
  then have A: "A = (images V toy_parts ds @ Y @ replicate 20 0) @ directory_end (of_nat (length ds))
       (of_nat (length (Y @ replicate 20 0 :: byte list))) (of_nat (length (images V toy_parts ds)))"
    using ds(3,4) by (simp add: A_def)
  then have loc: "locator_ok A"
    using no_locator_zeros [of "images V toy_parts ds @ Y"] by (intro locator_ok_written) simp_all
  have x: "length (directory_extra (final_of V toy_parts d) off) \<le> 51" if "j_hdr (fst d) = 0 \<or> j_hdr (fst d) = 1" for d off
    using length_directory_extra [of "final_of V toy_parts d" off] length_aes_field [of "job_aes (toy_parts ! j_hdr (fst d))"] that
    by (auto simp: zeroFileHeader_def)
  have "length (directory_bytes (entries_of V toy_parts 0 ds)) \<le> 1000"
    using x [of "(toy_part 1, [])" 0] x [of "((toy_part 0)\<lparr>j_writes := [[1, 2, 3]]\<rparr>, [1, 2, 3])"
        "of_nat (length (image_of V toy_parts (toy_part 1, [])))"]
    by (simp add: d(1) toy_part_def length_directory_record zeroFileHeader_def)
  moreover have "length (directory_end (of_nat (length ds)) (of_nat (length (directory_bytes (entries_of V toy_parts 0 ds))))
         (of_nat (length (images V toy_parts ds)))) \<le> 98" by (simp add: directory_end_def)
  moreover have "length A = length (images V toy_parts ds) + length (directory_bytes (entries_of V toy_parts 0 ds))
      + length (directory_end (of_nat (length ds)) (of_nat (length (directory_bytes (entries_of V toy_parts 0 ds))))
         (of_nat (length (images V toy_parts ds))))"
    using ds(3,4) by (simp add: A_def)
  ultimately have "length A \<le> 3000" using d(2) by linarith
  then have len: "length A < 2 ^ 63" by simp
  show ?thesis by (rule that [OF w0 run g len [unfolded A_def] loc [unfolded A_def] _ so]) (simp add: pq(1))
qed

lemma detached_roundtrip_witness:
  "\<exists>w0 w hs ps D w' A r. NewWriter ([] :: sink list) = (Inr w0 :: (sink, int) Writer result)
    \<and> (part_step (toy_env :: (sink, int) writer_env) toy_allowed)\<^sup>*\<^sup>* (w0, toy_parts, []) (w, hs, ps)
    \<and> length ps = 2 \<and> GetCentralDirectoryBytes w hs = (Inr D, w')
    \<and> A = concat (map part_data (sort_key pt_order ps)) @ D
    \<and> NewReader (file_at A) (int (length A)) = Some (Inr r) \<and> map (Name \<circ> f_hdr) (rdr_File r) = [[98], [97]]"
proof -
  obtain w0 w hs ps r w' where T: "NewWriter ([] :: sink list) = (Inr w0 :: (sink, int) Writer result)"
    "(part_step (toy_env :: (sink, int) writer_env) toy_allowed)\<^sup>*\<^sup>* (w0, toy_parts, []) (w, hs, ps)"
    "\<forall>p \<in> set ps. fw_closed (pt_fw p)" "GetCentralDirectoryBytes w hs = (r, w')"
    "length (concat (map part_data (sort_key pt_order ps)) @ projr r) < 2 ^ 63"
    "locator_ok (concat (map part_data (sort_key pt_order ps)) @ projr r)"
    "length ps = 2" "map pt_job (sort_key pt_order ps) = [toy_part 1, (toy_part 0)\<lparr>j_writes := [[1, 2, 3]]\<rparr>]"
    by (rule toy_detached_run)
  let ?V = "toy_env :: (sink, int) writer_env"
  let ?A = "concat (map part_data (sort_key pt_order ps)) @ projr r"
  from detached_roundtrip [OF T(1) toy_parts_allowed T(2-4) refl T(5,6)] obtain D ds' where D: "r = Inr D"
     "map fst ds' = map pt_job (sort_key pt_order ps)" "encoded (\<lambda>_. (=)) toy_parts ds'"
     "NewReader (file_at ?A) (int (length ?A)) = Some (Inr \<lparr>rdr_r = file_at ?A,
        rdr_File = map (read_entry (file_at ?A) (int (length ?A))) (entries_of ?V toy_parts 0 ds'), rdr_Comment = []\<rparr>)"
    by blast
  note d' = toy_images(1) [OF D(2) [unfolded T(8)] D(3)]
  have "map (Name \<circ> f_hdr) (map (read_entry (file_at ?A) (int (length ?A))) (entries_of ?V toy_parts 0 ds')) = [[98], [97]]"
    by (simp add: d' toy_part_def read_entry_def read_header_def)
  then show ?thesis using T(1,2,7) T(4) [unfolded D(1)] D(4) D(1)
    by (intro exI conjI) (assumption | simp)+
qed

lemma detached_can_finish_witness:
  "\<exists>w0 w hs ps hs' ps' D w'. NewWriter ([] :: sink list) = (Inr w0 :: (sink, int) Writer result)
    \<and> (part_step (toy_env :: (sink, int) writer_env) toy_allowed)\<^sup>*\<^sup>* (w0, toy_parts, []) (w, hs, ps)
    \<and> map pt_job ps = [toy_part 0] \<and> \<not> fw_closed (pt_fw (hd ps))
    \<and> (part_step (toy_env :: (sink, int) writer_env) toy_allowed)\<^sup>*\<^sup>* (w, hs, ps) (w, hs', ps')
    \<and> map pt_job ps' = [toy_part 0] \<and> GetCentralDirectoryBytes w hs' = (Inr D, w')"
proof -
  let ?V = "toy_env :: (sink, int) writer_env"
  obtain w0 where w0: "NewWriter ([] :: sink list) = (Inr w0 :: (sink, int) Writer result)" by (simp add: NewWriter_def)
  have r0: "parts_inv ?V (\<lambda>_. (=)) toy_allowed toy_parts (w0, toy_parts, [])"
    by (rule parts_reachable_inv [OF rtranclp.rtrancl_refl w0 toy_parts_allowed])
  obtain w1 hs1 f1 where s1: "part_step ?V toy_allowed (w0, toy_parts, [])
      (w1, hs1, [] @ [\<lparr>pt_job = toy_part 0, pt_order = 2, pt_fw = f1\<rparr>])" "\<not> fw_closed f1"
    by (rule part_create_run [OF r0 toy_parts_allowed, of "toy_part 0" 2]) (auto simp: toy_allowed_def toy_part_def)
  have run: "(part_step ?V toy_allowed)\<^sup>*\<^sup>* (w0, toy_parts, []) (w1, hs1, [] @ [\<lparr>pt_job = toy_part 0, pt_order = 2, pt_fw = f1\<rparr>])"
    using s1(1) by blast
  from detached_can_finish [OF w0 toy_parts_allowed run] obtain hs' ps' D w' where
    "(part_step ?V toy_allowed)\<^sup>*\<^sup>* (w1, hs1, [] @ [\<lparr>pt_job = toy_part 0, pt_order = 2, pt_fw = f1\<rparr>]) (w1, hs', ps')"
    "map pt_job ps' = [toy_part 0]" "GetCentralDirectoryBytes w1 hs' = (Inr D, w')" by auto
  with w0 run s1(2) show ?thesis by (intro exI conjI) (assumption | simp)+
qed

section \<open>Explicit offsets\<close>

lemma assign_offsets_Cons:
  "fst (assign_offsets hs pos (x # ds)) = (if hd_offset x = 0 then x\<lparr>hd_offset := pos\<rparr> else x)
     # fst (assign_offsets hs ((if hd_offset x = 0 then pos else hd_offset x) + partLen (hs ! hd_fh x)) ds)"
  by (cases x) (auto simp: Let_def word_gt_0 split: prod.splits)

lemma assign_offsets_kept:
  "h \<in> set ds \<Longrightarrow> hd_offset h \<noteq> 0 \<Longrightarrow> h \<in> set (fst (assign_offsets hs pos ds))"
proof (induction ds arbitrary: pos)
  case (Cons x ds)
  then show ?case by (cases "h = x") (simp_all add: assign_offsets_Cons del: assign_offsets.simps)
qed simp

lemma generateCentralDirectory_dir:
  assumes "generateCentralDirectory w hs = (e, w')" "wr_centralDirectory w = None"
  shows "wr_dir w' = fst (assign_offsets hs 0 (sort_key hd_order (wr_dir w)))"
  using assms by (auto simp: generateCentralDirectory_def Let_def split: prod.splits option.splits)

text \<open>
  C33. An offset other than 0 given to \<open>AddFileWithOffset\<close> is the offset in the directory, whatever
  parts surround the file.
\<close>

theorem AddFileWithOffset_kept:
  assumes "wr_detached w" and "wr_centralDirectory w = None" and "offset \<noteq> 0"
    and "GetCentralDirectoryBytes (addDetachedHeader h (AddFileWithOffset a order offset w)) hs = (r, w')"
  shows "\<lparr>hd_fh = a, hd_offset = offset, hd_order = order\<rparr> \<in> set (wr_dir w')"
proof -
  let ?w = "addDetachedHeader h (AddFileWithOffset a order offset w)"
  obtain e w1 where g: "generateCentralDirectory ?w hs = (e, w1)" by fastforce
  have "wr_dir w1 = fst (assign_offsets hs 0 (sort_key hd_order (wr_dir ?w)))"
    by (rule generateCentralDirectory_dir [OF g]) (simp add: addDetachedHeader_def AddFileWithOffset_def assms(2))
  moreover have "w' = w1" using assms(1,4) g
    by (auto simp: GetCentralDirectoryBytes_def addDetachedHeader_def AddFileWithOffset_def split: option.splits)
  ultimately show ?thesis
    using assign_offsets_kept assms(3) by (simp add: addDetachedHeader_def AddFileWithOffset_def)
qed

text \<open>
  C34. The offset 0 is no offset: a file registered at offset 0 behind another part gets the length of
  that part instead of the offset it was given.
\<close>

theorem AddFileWithOffset_zero:
  assumes "wr_detached w" and "wr_centralDirectory w = None" and "wr_dir w = [h]" and "hd_offset h = 0"
    and "hd_order h \<le> order"
    and "GetCentralDirectoryBytes (AddFileWithOffset a order 0 w) hs = (r, w')"
  shows "map hd_offset (wr_dir w') = [0, partLen (hs ! hd_fh h)]"
proof -
  let ?w = "AddFileWithOffset a order 0 w"
  obtain e w1 where g: "generateCentralDirectory ?w hs = (e, w1)" by fastforce
  have "wr_dir w1 = fst (assign_offsets hs 0 (sort_key hd_order (wr_dir ?w)))"
    by (rule generateCentralDirectory_dir [OF g]) (simp add: addDetachedHeader_def AddFileWithOffset_def assms(2))
  moreover have "w' = w1" using assms(1,6) g
    by (auto simp: GetCentralDirectoryBytes_def addDetachedHeader_def AddFileWithOffset_def split: option.splits)
  moreover have "sort_key hd_order (wr_dir ?w) = [h, \<lparr>hd_fh = a, hd_offset = 0, hd_order = order\<rparr>]"
    using assms(3,5) by (simp add: addDetachedHeader_def AddFileWithOffset_def)
  ultimately show ?thesis using assms(4) by (auto simp: Let_def word_gt_0)
qed

text \<open>
  C35. The directory is made once. Asking again returns the same bytes, and a part added in between is
  not in it.
\<close>

theorem GetCentralDirectoryBytes_once:
  assumes "GetCentralDirectoryBytes w hs = (Inr D, w1)"
  shows "GetCentralDirectoryBytes (addDetachedHeader h w1) hs' = (Inr D, addDetachedHeader h w1)"
proof -
  have "wr_detached w1 \<and> wr_centralDirectory w1 = Some D"
    using assms by (auto simp: GetCentralDirectoryBytes_def generateCentralDirectory_def Let_def
        split: if_splits option.splits prod.splits)
  then show ?thesis
    by (simp add: GetCentralDirectoryBytes_def generateCentralDirectory_def addDetachedHeader_def)
qed

definition toy_detached :: "(sink, int) Writer" where
  "toy_detached = projr (NewWriter [])"

lemma toy_detached_simps [simp]:
  "wr_detached toy_detached" "wr_centralDirectory toy_detached = None" "wr_dir toy_detached = []"
  by (simp_all add: toy_detached_def NewWriter_def)

lemma AddFileWithOffset_kept_witness:
  "\<lparr>hd_fh = 0, hd_offset = 4096, hd_order = 5\<rparr> \<in> set (wr_dir (snd (GetCentralDirectoryBytes
     (addDetachedHeader \<lparr>hd_fh = 1, hd_offset = 0, hd_order = 1\<rparr> (AddFileWithOffset 0 5 4096 toy_detached)) toy_parts)))"
  by (rule AddFileWithOffset_kept [of toy_detached]) (simp_all add: prod_eq_iff)

lemma AddFileWithOffset_zero_witness:
  "map hd_offset (wr_dir (snd (GetCentralDirectoryBytes (AddFileWithOffset 1 2 0
     (AddFileWithOffset 0 1 0 toy_detached)) toy_parts))) = [0, 47]"
proof -
  have "map hd_offset (wr_dir (snd (GetCentralDirectoryBytes (AddFileWithOffset 1 2 0
     (AddFileWithOffset 0 1 0 toy_detached)) toy_parts))) = [0, partLen (toy_parts ! 0)]"
    using AddFileWithOffset_zero [of "AddFileWithOffset 0 1 0 toy_detached" "\<lparr>hd_fh = 0, hd_offset = 0, hd_order = 1\<rparr>" 2 1 toy_parts]
    by (simp add: AddFileWithOffset_def addDetachedHeader_def prod_eq_iff)
  then show ?thesis by (simp add: partLen_def zeroFileHeader_def isZip64_def writesAES_def)
qed

lemma GetCentralDirectoryBytes_once_witness:
  "\<exists>D w1. GetCentralDirectoryBytes toy_detached [] = (Inr D, w1)
    \<and> GetCentralDirectoryBytes (addDetachedHeader \<lparr>hd_fh = 0, hd_offset = 0, hd_order = 0\<rparr> w1) toy_parts
      = (Inr D, addDetachedHeader \<lparr>hd_fh = 0, hd_offset = 0, hd_order = 0\<rparr> w1)"
proof -
  obtain w1 where "generateCentralDirectory toy_detached [] = (None, w1)" "wr_centralDirectory w1 \<noteq> None"
    using generateCentralDirectory_parts [of toy_detached "[]" toy_env "[]" "[]"] by (auto simp: headers_at_def)
  then obtain D where "GetCentralDirectoryBytes toy_detached [] = (Inr D, w1)"
    by (simp add: GetCentralDirectoryBytes_def)
  with GetCentralDirectoryBytes_once [OF this] show ?thesis by blast
qed

end
