(* ===== verification/Zip_Contents.thy ===== *)
theory Zip_Contents
  imports Zip_Open Zip_Detached
begin

text \<open>
  The contents of an archive: an entry written by \<open>Create\<close>, \<open>CreateHeader\<close> or \<open>CreateRaw\<close> and found by
  \<open>NewReader\<close> is given back by \<open>Open\<close>. What the tests and the clients of the package rely on, and what
  goes wrong with a wrong password.
\<close>

section \<open>The header as it is read\<close>

text \<open>The client sets the password of an entry it found encrypted.\<close>

definition with_password :: "FileHeader \<Rightarrow> File \<Rightarrow> File" where
  "with_password fh f = (case password fh of Some pw \<Rightarrow> File_SetPassword pw f | None \<Rightarrow> f)"

text \<open>A header whose encryption bit says whether a password is set, as \<open>SetPassword\<close> leaves it.\<close>

definition password_agrees :: "FileHeader \<Rightarrow> bool" where
  "password_agrees fh \<longleftrightarrow> (IsEncrypted fh \<longleftrightarrow> password fh \<noteq> None)"

lemma flag_or_one: "(x :: u16) AND 1 = 1 \<Longrightarrow> x OR 1 = x"
  by (intro bit_word_eqI) (metis bit_and_iff bit_or_iff)

lemma flag_or_eight: "((x OR 8) AND 1 = 1) = ((x :: u16) AND 1 = 1)" "(x OR 8) AND 8 = (8 :: u16)"
proof -
  have "(x OR 8) AND 1 = x AND 1" by (rule bit_word_eqI) (auto simp: bit_simps)
  then show "((x OR 8) AND 1 = 1) = (x AND 1 = 1)" by simp
  show "(x OR 8) AND 8 = (8 :: u16)" by (rule bit_word_eqI) (auto simp: bit_simps)
qed

lemma SetPassword_frame [simp]:
  "ModifiedTime (SetPassword pw h) = ModifiedTime h" "CRC32 (SetPassword pw h) = CRC32 h"
  "CompressedSize64 (SetPassword pw h) = CompressedSize64 h" "UncompressedSize64 (SetPassword pw h) = UncompressedSize64 h"
  "Method (SetPassword pw h) = Method h" "ae (SetPassword pw h) = ae h" "aesStrength (SetPassword pw h) = aesStrength h"
  "DeferAuth (SetPassword pw h) = DeferAuth h" "XXH3 (SetPassword pw h) = XXH3 h"
  by (simp_all add: SetPassword_def setEncryptionBit_def Let_def)

lemma job_header_fields [simp]:
  "Flags (job_header fh) = Flags fh OR 8" "ModifiedTime (job_header fh) = ModifiedTime fh"
  "CRC32 (job_header fh) = CRC32 fh" "UncompressedSize64 (job_header fh) = UncompressedSize64 fh"
  "XXH3 (job_header fh) = XXH3 fh"
  "Method (job_header fh) = (if writesAES fh then winzipAesMethod else Method fh)"
  by (simp_all add: job_header_def enc_header_def streamed_header_def writesAES_def)

lemma final_fields:
  fixes V :: "('z, 'c) writer_env"
  assumes "h = job_final V j fh enc"
  shows "Flags h = Flags fh OR 8" "ModifiedTime h = ModifiedTime fh"
    "Method h = (if writesAES fh then winzipAesMethod else Method fh)"
    "CompressedSize64 h = of_nat (length (job_payload V j fh enc))"
    "UncompressedSize64 h = (if j_raw j then UncompressedSize64 fh else of_nat (length (job_plain j)))"
    "CRC32 h = (if writesAES fh then 0 else if j_raw j then CRC32 fh else crc32 (job_plain j))"
    "XXH3 h = (if j_raw j then XXH3 fh else env_xxh3 V (job_plain j))"
  by (simp_all add: assms job_final_def closed_header_def Let_def)

lemma read_header_fields:
  "Flags (read_header h off aes) = Flags h" "ModifiedTime (read_header h off aes) = ModifiedTime h"
  "CRC32 (read_header h off aes) = CRC32 h" "CompressedSize64 (read_header h off aes) = CompressedSize64 h"
  "UncompressedSize64 (read_header h off aes) = UncompressedSize64 h" "XXH3 (read_header h off aes) = XXH3 h"
  "password (read_header h off aes) = None" "DeferAuth (read_header h off aes) = False"
  "Method (read_header h off aes) = (case aes of None \<Rightarrow> Method h | Some (s, m) \<Rightarrow> m)"
  "ae (read_header h off aes) = (case aes of None \<Rightarrow> 0 | Some (s, m) \<Rightarrow> 2)"
  "aesStrength (read_header h off aes) = (case aes of None \<Rightarrow> 0 | Some (s, m) \<Rightarrow> s)"
  by (simp_all add: read_header_def read_aes_def zeroFileHeader_def split: option.splits)

text \<open>The entry as \<open>NewReader\<close> found it, with its password.\<close>

definition found_entry :: "('z, 'c) writer_env \<Rightarrow> job \<Rightarrow> FileHeader \<Rightarrow> byte list \<Rightarrow> read_at \<Rightarrow> int \<Rightarrow> u64 \<Rightarrow> File" where
  "found_entry V j fh enc r sz off = with_password fh (read_entry r sz (job_final V j fh enc, off, job_aes fh))"

lemma found_entry_fields:
  fixes V :: "('z, 'c) writer_env"
  assumes "password_agrees fh" and h_def: "h = f_hdr f" and f_def: "f = found_entry V j fh enc r sz off"
  shows "zipr f = r" "headerOffset f = int64_of off"
    "Flags h = Flags fh OR 8" "ModifiedTime h = ModifiedTime fh" "password h = password fh" "DeferAuth h = False"
    "Method h = Method fh" "IsEncrypted h = (password fh \<noteq> None)"
    "ae h = (if writesAES fh then 2 else 0)" "writesAES fh \<Longrightarrow> aesStrength h = aesStrength fh"
    "CompressedSize64 h = of_nat (length (job_payload V j fh enc))"
    "UncompressedSize64 h = (if j_raw j then UncompressedSize64 fh else of_nat (length (job_plain j)))"
    "CRC32 h = (if writesAES fh then 0 else if j_raw j then CRC32 fh else crc32 (job_plain j))"
    "XXH3 h = (if j_raw j then XXH3 fh else env_xxh3 V (job_plain j))"
proof -
  have fl: "Flags fh AND 1 = 1 \<Longrightarrow> Flags fh OR 9 = Flags fh OR 8"
  proof -
    assume "Flags fh AND 1 = 1"
    then have "(Flags fh OR 1) OR 8 = Flags fh OR 8" by (simp only: flag_or_one)
    then show ?thesis by (simp add: or.assoc)
  qed
  note d = h_def f_def found_entry_def with_password_def read_entry_def File_SetPassword_def
  show fl: "Flags h = Flags fh OR 8"
    using assms(1) fl by (auto simp: d read_header_fields final_fields [OF refl] password_agrees_def IsEncrypted_def or.assoc
        split: option.splits)
  show "IsEncrypted h = (password fh \<noteq> None)"
    using assms(1) fl flag_or_eight(1) by (simp add: IsEncrypted_def password_agrees_def)
  show "zipr f = r" "headerOffset f = int64_of off"
    "ModifiedTime h = ModifiedTime fh" "password h = password fh" "DeferAuth h = False"
    "Method h = Method fh" 
    "ae h = (if writesAES fh then 2 else 0)" "writesAES fh \<Longrightarrow> aesStrength h = aesStrength fh"
    "CompressedSize64 h = of_nat (length (job_payload V j fh enc))"
    "UncompressedSize64 h = (if j_raw j then UncompressedSize64 fh else of_nat (length (job_plain j)))"
    "CRC32 h = (if writesAES fh then 0 else if j_raw j then CRC32 fh else crc32 (job_plain j))"
    "XXH3 h = (if j_raw j then XXH3 fh else env_xxh3 V (job_plain j))"
    by (auto simp: d read_header_fields final_fields [OF refl] job_aes_def split: option.splits)
qed

text \<open>What the entry decompresses to: for a raw entry the caller gave the sizes and the checksum.\<close>

definition contents :: "(u16 \<Rightarrow> byte list \<Rightarrow> byte list \<Rightarrow> bool) \<Rightarrow> job \<Rightarrow> FileHeader \<Rightarrow> byte list \<Rightarrow> bool" where
  "contents codec j fh plain \<longleftrightarrow>
     (if j_raw j then codec (Method fh) (job_plain j) plain
        \<and> (writesAES fh \<or> UncompressedSize64 fh = of_nat (length plain) \<and> CRC32 fh = crc32 plain)
      else plain = job_plain j)"

definition decomps_ok :: "'d reader_env \<Rightarrow> (u16 \<Rightarrow> byte list \<Rightarrow> byte list \<Rightarrow> bool) \<Rightarrow> u16 \<Rightarrow> bool" where
  "decomps_ok R codec mtd \<longleftrightarrow>
     (\<exists>D. decompressor (renv_flate R) (renv_decomps R) mtd = Some D \<and> decomp_ok D (codec mtd))"

lemma can_decrypt_job:
  fixes V :: "('z, 'c) writer_env"
  assumes "password_agrees fh" "enc_ready (env_suite V) (j_rnd j) (streamed_header fh)"
  shows "can_decrypt (env_suite V) (job_kind V j fh) (f_hdr (found_entry V j fh enc r sz off))"
proof (cases "password fh")
  case None
  then show ?thesis using found_entry_fields [OF assms(1) refl refl]
    by (simp add: job_kind_def enc_kind_of_def streamed_header_def)
next
  case (Some pw)
  note F = found_entry_fields [OF assms(1) refl refl, of V j enc r sz off]
  show ?thesis
  proof (cases "encryption fh = StandardEncryption")
    case True
    then obtain b where b: "j_rnd j 10 = Inr b" "length b = 10"
      using assms(2) Some by (auto simp: enc_ready_def streamed_header_def)
    have K: "job_kind V j fh = KZip pw b (zcw_checkBytes (Some (streamed_header fh)))"
      using Some True b by (simp add: job_kind_def enc_kind_of_def streamed_header_def)
    have "\<not> writesAES fh" using True by (simp add: writesAES_def)
    then show ?thesis using F b(2) Some flag_or_eight(2) [of "Flags fh"]
      by (simp add: K zcw_checkBytes_def zipCryptoCheckBytes_def streamed_header_def)
  next
    case False
    let ?kl = "aesKeyLen (aesStrength fh)"
    from False obtain salt where s: "suite_ok (env_suite V)" "?kl \<noteq> 0" "j_rnd j (?kl div 2) = Inr salt" "length salt = ?kl div 2"
      using assms(2) Some by (auto simp: enc_ready_def streamed_header_def)
    obtain ek ak pwv where k: "generateKeys (env_suite V) pw salt ?kl = (ek, ak, pwv)" using prod_cases3 by blast
    have K: "job_kind V j fh = KAes (aes_Encrypt (env_suite V) ek) ak salt pwv"
      using Some False s k by (simp add: job_kind_def enc_kind_of_def streamed_header_def)
    have "writesAES fh" using False Some by (simp add: writesAES_def)
    then show ?thesis using F Some s k by (simp add: K)
  qed
qed

section \<open>Opening what was written\<close>

lemma open_found:
  fixes V :: "('z, 'c) writer_env" and R :: "'d reader_env"
  assumes A: "A = pre @ job_image V j fh enc @ post" "length A < 2 ^ 63" and off: "off = of_nat (length pre)"
    and j: "job_ok V codec j fh" "job_codes codec j fh enc (job_plain j)" "contents codec j fh plain"
    and fh: "password_agrees fh"
    and R: "renv_suite R = env_suite V" "decomps_ok R codec (Method fh)"
  shows "\<exists>x. File_Open R (found_entry V j fh enc (file_at A) sz off) = Some (Inr x)
    \<and> delivers (openFile_Read R) x plain ErrEOF"
proof -
  note F = found_entry_fields [OF fh refl refl, of V j enc "file_at A" sz off]
  have ready: "enc_ready (env_suite V) (j_rnd j) (streamed_header fh)" "header_fits (job_header fh)"
    using j(1) by (simp_all add: job_ok_def)
  have o: "headerOffset (found_entry V j fh enc (file_at A) sz off) = int (length pre)"
    using int64_of_length [OF off] A F(2) by simp
  obtain D where D: "decompressor (renv_flate R) (renv_decomps R) (Method fh) = Some D" "decomp_ok D (codec (Method fh))"
    using R(2) by (auto simp: decomps_ok_def)
  have codes: "codec (Method fh) enc plain" using j(2,3) by (auto simp: job_codes_def contents_def split: if_splits)
  have chk: "\<not> writesAES fh \<Longrightarrow> (if j_raw j then UncompressedSize64 fh else of_nat (length (job_plain j))) = of_nat (length plain)
     \<and> (if j_raw j then CRC32 fh else crc32 (job_plain j)) = crc32 plain"
    using j(3) by (auto simp: contents_def split: if_splits)
  show ?thesis
    by (rule Open_image [where K = "job_kind V j fh" and fh = "job_header fh" and D = D and codes = "codec (Method fh)"
          and enc = enc and pre = pre and post = post,
          OF A [unfolded job_image_def, folded R(1)] ready(2) F(1) o refl])
       (use F can_decrypt_job [OF fh ready(1)] D codes chk
         in \<open>auto simp: R(1) job_payload_def isAE2_def kind_is_aes_job final_fields [OF refl]\<close>)
qed

lemma entries_of_nth:
  "i < length ds \<Longrightarrow> entries_of V hs pos ds ! i = (final_of V hs (ds ! i),
     pos + of_nat (length (images V hs (take i ds))), job_aes (hs ! j_hdr (fst (ds ! i))))"
  by (induction ds arbitrary: pos i) (auto simp: nth_Cons split: nat.splits)

lemma images_split:
  "i < length ds \<Longrightarrow> images V hs ds = images V hs (take i ds) @ image_of V hs (ds ! i) @ images V hs (drop (Suc i) ds)"
  using id_take_nth_drop [of i ds] by (metis images_simps(2,3))

text \<open>Reading an open entry with \<open>io.Copy\<close>, through a buffer of any size, gives exactly \<open>plain\<close>.\<close>

definition opens_to :: "'d reader_env \<Rightarrow> File \<Rightarrow> byte list \<Rightarrow> bool" where
  "opens_to R f plain \<longleftrightarrow> (\<exists>x. File_Open R f = Some (Inr x) \<and>
     (\<forall>k>0. \<exists>n w x'. io_Copy sink_write (openFile_Read R) k 0 empty_sink x = Some (n, None, w, x')
        \<and> sink_data w = plain))"

lemma opens_toI: "File_Open R f = Some (Inr x) \<Longrightarrow> delivers (openFile_Read R) x plain ErrEOF \<Longrightarrow> opens_to R f plain"
  unfolding opens_to_def using delivers_Copy [of "openFile_Read R" x plain ErrEOF] by auto

text \<open>A client that can read the entry: it has the password and the decompressor.\<close>

definition can_read :: "'d reader_env \<Rightarrow> ('z, 'c) writer_env \<Rightarrow> (u16 \<Rightarrow> byte list \<Rightarrow> byte list \<Rightarrow> bool) \<Rightarrow> FileHeader \<Rightarrow> bool" where
  "can_read R V codec fh \<longleftrightarrow> renv_suite R = env_suite V \<and> password_agrees fh \<and> decomps_ok R codec (Method fh)"

lemma archive_opens:
  fixes V :: "('z, 'c) writer_env"
  assumes A: "A = images V hs ds @ directory_bytes (entries_of V hs 0 ds)
      @ directory_end (of_nat (length ds)) (of_nat (length (directory_bytes (entries_of V hs 0 ds))))
          (of_nat (length (images V hs ds)))"
    and "length A < 2 ^ 63" "locator_ok A" and ds: "encoded codec hs ds"
    and ok: "\<forall>d \<in> set ds. job_ok V codec (fst d) (hs ! j_hdr (fst d)) \<and> header_plain (hs ! j_hdr (fst d))
      \<and> can_read R V codec (hs ! j_hdr (fst d))"
  shows "\<exists>rd. NewReader (file_at A) (int (length A)) = Some (Inr rd) \<and> length (rdr_File rd) = length ds
    \<and> (\<forall>i<length ds. \<forall>plain. contents codec (fst (ds ! i)) (hs ! j_hdr (fst (ds ! i))) plain \<longrightarrow>
         opens_to R (with_password (hs ! j_hdr (fst (ds ! i))) (rdr_File rd ! i)) plain)"
proof -
  let ?es = "entries_of V hs 0 ds"
  have "\<forall>d \<in> set ds. header_plain (hs ! j_hdr (fst d))" using ok by simp
  note n = NewReader_images [OF A assms(2,3) this]
  have "opens_to R (with_password (hs ! j_hdr (fst (ds ! i))) (read_entry (file_at A) (int (length A)) (?es ! i))) plain"
    if i: "i < length ds" and c: "contents codec (fst (ds ! i)) (hs ! j_hdr (fst (ds ! i))) plain" for i plain
  proof -
    obtain j enc where d: "ds ! i = (j, enc)" by (cases "ds ! i")
    have m: "(j, enc) \<in> set ds" using nth_mem [OF i] d by simp
    let ?fh = "hs ! j_hdr j" and ?pre = "images V hs (take i ds)"
    obtain post where p: "A = ?pre @ job_image V j ?fh enc @ post"
      using A images_split [OF i, of V hs] d by (simp add: image_of_def)
    have k: "job_ok V codec j ?fh" "can_read R V codec ?fh" using ok m by auto
    have e: "job_codes codec j ?fh enc (job_plain j)" using ds m by (auto simp: encoded_def)
    from open_found [OF p assms(2) refl k(1) e, of plain R "int (length A)"] k(2) c d
    obtain x where "File_Open R (found_entry V j ?fh enc (file_at A) (int (length A)) (of_nat (length ?pre))) = Some (Inr x)"
      "delivers (openFile_Read R) x plain ErrEOF" by (auto simp: can_read_def)
    then have "opens_to R (found_entry V j ?fh enc (file_at A) (int (length A)) (of_nat (length ?pre))) plain"
      by (rule opens_toI)
    then show ?thesis using entries_of_nth [OF i, of V hs 0] by (simp add: found_entry_def final_of_def d)
  qed
  with n show ?thesis by simp
qed

text \<open>
  C1. The contents of an archive are a round trip. Whatever entries a client creates one after the
  other, stored or compressed, raw, plain or encrypted with either scheme, and however it cuts their
  contents, \<open>NewReader\<close> on the closed archive finds them in order, and opening an entry (with its
  password, where it has one) and reading it through a buffer of any size gives exactly its contents
  and no error: the checks of size, checksum, data descriptor, password and authentication code pass.
\<close>

theorem archive_contents_roundtrip:
  fixes V :: "(sink archive_writer, 'c) writer_env"
  assumes "NewWriter [empty_sink] = Inr w"
    and "\<forall>j \<in> set js. job_ok V codec j (hs ! j_hdr j) \<and> header_plain (hs ! j_hdr j) \<and> j_hdr j < length hs"
    and "distinct (map j_hdr js)"
    and "write_jobs V sink_write js w hs = (e1, w1, hs1)"
    and "Writer_Close V sink_write w1 hs1 = (e2, w2, hs2)"
    and "A = archive_data w2" and "length A < 2 ^ 63" and "locator_ok A"
    and "\<forall>j \<in> set js. can_read R V codec (hs ! j_hdr j)"
  shows "\<exists>rd. NewReader (file_at A) (int (length A)) = Some (Inr rd) \<and> length (rdr_File rd) = length js
    \<and> (\<forall>i<length js. \<forall>plain. contents codec (js ! i) (hs ! j_hdr (js ! i)) plain \<longrightarrow>
         opens_to R (with_password (hs ! j_hdr (js ! i)) (rdr_File rd ! i)) plain)"
proof -
  obtain ds where ds: "map fst ds = js" "encoded codec hs ds"
    "A = images V hs ds @ directory_bytes (entries_of V hs 0 ds)
      @ directory_end (of_nat (length ds)) (of_nat (length (directory_bytes (entries_of V hs 0 ds))))
          (of_nat (length (images V hs ds)))"
    unfolding assms(6) by (rule archive_written [OF assms(1-5)])
  have "\<forall>j \<in> set (map fst ds). job_ok V codec j (hs ! j_hdr j) \<and> header_plain (hs ! j_hdr j) \<and> can_read R V codec (hs ! j_hdr j)"
    using assms(2,9) ds(1) by simp
  then have ok: "\<forall>d \<in> set ds. job_ok V codec (fst d) (hs ! j_hdr (fst d)) \<and> header_plain (hs ! j_hdr (fst d))
      \<and> can_read R V codec (hs ! j_hdr (fst d))" by simp
  have "length ds = length js" "\<And>i. i < length js \<Longrightarrow> fst (ds ! i) = js ! i"
    using ds(1) by auto
  with archive_opens [OF ds(3) assms(7,8) ds(2) ok] show ?thesis by simp
qed

text \<open>
  C2. So are the contents of parts. When the parts, put one after the other by their order, are
  followed by the bytes of \<open>GetCentralDirectoryBytes\<close>, every part opens to its contents, however the
  parts were interleaved.
\<close>

theorem detached_contents_roundtrip:
  fixes w0 :: "('w, 'c) Writer" and V :: "(sink, 'e) writer_env"
  assumes "NewWriter ([] :: 'w list) = Inr w0" and "parts_allowed V codec hs0 ok"
    and "(part_step V ok)\<^sup>*\<^sup>* (w0, hs0, []) (w, hs, ps)" and "\<forall>p \<in> set ps. fw_closed (pt_fw p)"
    and "GetCentralDirectoryBytes w hs = (r, w')"
    and "A = concat (map part_data (sort_key pt_order ps)) @ projr r" and "length A < 2 ^ 63" and "locator_ok A"
    and "\<forall>j. ok j \<longrightarrow> can_read R V codec (hs0 ! j_hdr j)"
  shows "\<exists>rd. NewReader (file_at A) (int (length A)) = Some (Inr rd) \<and> length (rdr_File rd) = length ps
    \<and> (\<forall>i<length ps. \<forall>plain. let p = sort_key pt_order ps ! i; fh = hs0 ! j_hdr (pt_job p) in
         contents codec (pt_job p) fh plain \<longrightarrow> opens_to R (with_password fh (rdr_File rd ! i)) plain)"
proof -
  obtain ds where ds: "map fst ds = map pt_job (sort_key pt_order ps)" "encoded codec hs0 ds"
    "concat (map part_data (sort_key pt_order ps)) = images V hs0 ds"
    "r = Inr (directory_bytes (entries_of V hs0 0 ds) @ directory_end (of_nat (length ds))
       (of_nat (length (directory_bytes (entries_of V hs0 0 ds)))) (of_nat (length (images V hs0 ds))))"
    by (rule detached_written [OF assms(1-5)])
  have A: "A = images V hs0 ds @ directory_bytes (entries_of V hs0 0 ds)
      @ directory_end (of_nat (length ds)) (of_nat (length (directory_bytes (entries_of V hs0 0 ds))))
          (of_nat (length (images V hs0 ds)))"
    using assms(6) ds(3,4) by simp
  note D = parts_invD [OF parts_reachable_inv [OF assms(3,1,2)]]
  have "job_ok V codec (pt_job p) (hs0 ! j_hdr (pt_job p)) \<and> header_plain (hs0 ! j_hdr (pt_job p))
      \<and> can_read R V codec (hs0 ! j_hdr (pt_job p))" if "p \<in> set ps" for p
    using D(6) [OF that] assms(2,9) by (fastforce simp: parts_allowed_def)
  then have "\<forall>j \<in> set (map fst ds). job_ok V codec j (hs0 ! j_hdr j) \<and> header_plain (hs0 ! j_hdr j) \<and> can_read R V codec (hs0 ! j_hdr j)"
    using ds(1) by simp
  then have ok: "\<forall>d \<in> set ds. job_ok V codec (fst d) (hs0 ! j_hdr (fst d)) \<and> header_plain (hs0 ! j_hdr (fst d))
      \<and> can_read R V codec (hs0 ! j_hdr (fst d))" by simp
  have len: "length ds = length ps" using arg_cong [OF ds(1), of length] by simp
  moreover have "fst (ds ! i) = pt_job (sort_key pt_order ps ! i)" if "i < length ps" for i
    using arg_cong [OF ds(1), of "\<lambda>xs. xs ! i"] that len by simp
  ultimately show ?thesis using archive_opens [OF A assms(7,8) ds(2) ok] by (simp add: Let_def)
qed

section \<open>Examples\<close>

definition toy_reader :: "unit comp_reader reader_env" where
  "toy_reader = \<lparr>renv_suite = toy_suite, renv_flate = nop_decompressor, renv_decomps = Map.empty,
     renv_xxh3 = (\<lambda>p. of_nat (length p))\<rparr>"

lemma toy_decomps: "decomps_ok toy_reader (\<lambda>_. (=)) Store" "decomps_ok toy_reader (\<lambda>_. (=)) Deflate"
  using nop_decompressor_ok custom_decompressor_ok [OF nop_decompressor_ok]
  by (simp_all add: decomps_ok_def decompressor_def toy_reader_def Store_def Deflate_def)

lemma toy_entry_reads:
  defines "V \<equiv> toy_env :: (sink archive_writer, int) writer_env"
  shows "password_agrees toy_entry" "password toy_entry = Some [112, 119]"
    "decomps_ok toy_reader (\<lambda>_. (=)) (Method toy_entry)" "renv_suite toy_reader = env_suite V"
    "can_read toy_reader V (\<lambda>_. (=)) toy_entry" "contents (\<lambda>_. (=)) toy_job toy_entry [1, 2, 3]"
proof -
  have "IsEncrypted toy_entry"
    by (simp add: toy_entry_def toy_header_def IsEncrypted_def SetEncryptionMethod_def SetPassword_def setEncryptionBit_def
        zeroFileHeader_def Let_def)
  then show a: "password_agrees toy_entry" "password toy_entry = Some [112, 119]"
    by (simp_all add: password_agrees_def) (simp_all add: toy_entry_def)
  show d: "decomps_ok toy_reader (\<lambda>_. (=)) (Method toy_entry)" "renv_suite toy_reader = env_suite V"
    using toy_decomps by (simp_all add: toy_entry_def) (simp add: toy_reader_def toy_env_def V_def)
  show "can_read toy_reader V (\<lambda>_. (=)) toy_entry" by (simp add: can_read_def a d)
  show "contents (\<lambda>_. (=)) toy_job toy_entry [1, 2, 3]" by (simp add: contents_def toy_job_def job_plain_def)
qed

lemma archive_contents_roundtrip_witness:
  "\<exists>w e1 w1 hs1 e2 w2 hs2 A rd.
     NewWriter [empty_sink] = Inr w
   \<and> write_jobs (toy_env :: (sink archive_writer, int) writer_env) sink_write [toy_job] w [toy_entry] = (e1, w1, hs1)
   \<and> Writer_Close toy_env sink_write w1 hs1 = (e2, w2, hs2) \<and> A = archive_data w2
   \<and> NewReader (file_at A) (int (length A)) = Some (Inr rd) \<and> length (rdr_File rd) = 1
   \<and> opens_to toy_reader (File_SetPassword [112, 119] (rdr_File rd ! 0)) [1, 2, 3]"
proof -
  let ?V = "toy_env :: (sink archive_writer, int) writer_env"
  obtain w :: "(sink, int) Writer" and e1 w1 hs1 e2 w2 hs2 where T: "NewWriter [empty_sink] = Inr w"
    "\<forall>j' \<in> set [toy_job]. job_ok ?V (\<lambda>_. (=)) j' ([toy_entry] ! j_hdr j') \<and> header_plain ([toy_entry] ! j_hdr j')
      \<and> j_hdr j' < length [toy_entry]"
    "distinct (map j_hdr [toy_job])"
    "write_jobs ?V sink_write [toy_job] w [toy_entry] = (e1, w1, hs1)"
    "Writer_Close ?V sink_write w1 hs1 = (e2, w2, hs2)"
    "length (archive_data w2) < 2 ^ 63" "locator_ok (archive_data w2)"
    by (rule toy_archive)
  have j: "j_hdr toy_job = 0" by (simp add: toy_job_def)
  have r: "\<forall>j \<in> set [toy_job]. can_read toy_reader ?V (\<lambda>_. (=)) ([toy_entry] ! j_hdr j)"
    using toy_entry_reads(5) by (simp add: j)
  from archive_contents_roundtrip [OF T(1-5) refl T(6,7) r] j toy_entry_reads(2,6) T(1,4,5) show ?thesis
    by (simp add: with_password_def) blast
qed

lemma detached_contents_roundtrip_witness:
  "\<exists>w0 w hs ps D w' A rd. NewWriter ([] :: sink list) = (Inr w0 :: (sink, int) Writer result)
    \<and> (part_step (toy_env :: (sink, int) writer_env) toy_allowed)\<^sup>*\<^sup>* (w0, toy_parts, []) (w, hs, ps)
    \<and> GetCentralDirectoryBytes w hs = (D, w')
    \<and> A = concat (map part_data (sort_key pt_order ps)) @ projr D
    \<and> NewReader (file_at A) (int (length A)) = Some (Inr rd) \<and> length (rdr_File rd) = 2
    \<and> opens_to toy_reader (rdr_File rd ! 0) []"
proof -
  let ?V = "toy_env :: (sink, int) writer_env"
  obtain w0 w hs ps r w' where T: "NewWriter ([] :: sink list) = (Inr w0 :: (sink, int) Writer result)"
    "(part_step ?V toy_allowed)\<^sup>*\<^sup>* (w0, toy_parts, []) (w, hs, ps)"
    "\<forall>p \<in> set ps. fw_closed (pt_fw p)" "GetCentralDirectoryBytes w hs = (r, w')"
    "length (concat (map part_data (sort_key pt_order ps)) @ projr r) < 2 ^ 63"
    "locator_ok (concat (map part_data (sort_key pt_order ps)) @ projr r)"
    "length ps = 2" "map pt_job (sort_key pt_order ps) = [toy_part 1, (toy_part 0)\<lparr>j_writes := [[1, 2, 3]]\<rparr>]"
    by (rule toy_detached_run)
  have r: "\<forall>j. toy_allowed j \<longrightarrow> can_read toy_reader ?V (\<lambda>_. (=)) (toy_parts ! j_hdr j)"
    using toy_decomps
    by (auto simp: toy_allowed_def toy_part_def can_read_def password_agrees_def zeroFileHeader_def IsEncrypted_def Store_def)
       (simp_all add: toy_reader_def toy_env_def)
  let ?A = "concat (map part_data (sort_key pt_order ps)) @ projr r" and ?ps = "sort_key pt_order ps"
  obtain rd where rd: "NewReader (file_at ?A) (int (length ?A)) = Some (Inr rd)" "length (rdr_File rd) = 2"
    "\<And>i plain. i < 2 \<Longrightarrow> contents (\<lambda>_. (=)) (pt_job (?ps ! i)) (toy_parts ! j_hdr (pt_job (?ps ! i))) plain \<Longrightarrow>
       opens_to toy_reader (with_password (toy_parts ! j_hdr (pt_job (?ps ! i))) (rdr_File rd ! i)) plain"
    using detached_contents_roundtrip [OF T(1) toy_parts_allowed T(2-4) refl T(5,6) r] T(7) by (auto simp: Let_def)
  have j: "pt_job (?ps ! 0) = toy_part 1"
    using arg_cong [OF T(8), of "\<lambda>xs. xs ! 0"] T(7) by simp
  have "contents (\<lambda>_. (=)) (toy_part 1) (toy_parts ! 1) []"
    by (simp add: contents_def toy_part_def job_plain_def zeroFileHeader_def crc32_def)
  moreover have "with_password (toy_parts ! 1) f = f" for f by (simp add: with_password_def zeroFileHeader_def)
  ultimately have "opens_to toy_reader (rdr_File rd ! 0) []"
    using rd(3) [of 0 "[]"] by (simp add: j) (simp add: toy_part_def)
  with rd(1,2) T(1,2,4) show ?thesis by blast
qed

lemma toy_image_length:
  "length (job_image (toy_env :: (sink archive_writer, int) writer_env) toy_job toy_entry [1, 2, 3]) < 2 ^ 63"
proof -
  let ?V = "toy_env :: (sink archive_writer, int) writer_env"
  have b: "length (descriptor a h) \<le> 24" for a h by (simp add: length_descriptor)
  have "length (job_image ?V toy_job toy_entry [1, 2, 3]) \<le> 1000"
    using b [of "kind_is_aes (job_kind ?V toy_job toy_entry)" "job_final ?V toy_job toy_entry [1, 2, 3]"]
      length_aes_field [of "job_aes toy_entry"]
    by (simp add: job_image_def entry_image_def toy_entry_payload) (simp add: toy_entry_def)
  then show ?thesis by simp
qed

section \<open>Checks\<close>

text \<open>
  C10. Without its password, or with one the stored verification value tells from the right one, an
  encrypted entry cannot be opened: \<open>Open\<close> fails with \<open>ErrPassword\<close> before any of its contents is read,
  for both encryption schemes.
\<close>

theorem Open_wrong_password_entry:
  fixes V :: "('z, 'c) writer_env"
  assumes "A = pre @ job_image V j fh enc @ post" and "length A < 2 ^ 63" and "off = of_nat (length pre)"
    and "job_ok V codec j fh" and "IsEncrypted fh" and "renv_suite R = env_suite V"
    and "f = read_entry (file_at A) sz (job_final V j fh enc, off, job_aes fh)"
  shows "File_Open R f = Some (Inl ErrPassword)
    \<and> (detects_password (env_suite V) (job_kind V j fh) (f_hdr (File_SetPassword pw f))
         \<longrightarrow> File_Open R (File_SetPassword pw f) = Some (Inl ErrPassword))"
proof (intro conjI impI)
  let ?P = "encrypted (job_kind V j fh) enc @ authcode (env_suite V) (job_kind V j fh) enc"
  have fits: "header_fits (job_header fh)" using assms(4) by (simp add: job_ok_def)
  have o: "headerOffset f = int (length pre)" "zipr f = file_at A"
    using int64_of_length [OF assms(3)] assms(1,2,7) by (simp_all add: read_entry_def)
  have h: "CompressedSize64 (f_hdr f) = of_nat (length ?P)" "password (f_hdr f) = None"
    "Flags (f_hdr f) = Flags fh OR 8"
    by (simp_all add: assms(7) read_entry_def read_header_fields final_fields [OF refl] job_payload_def)
  have enc: "IsEncrypted (f_hdr f)" using assms(5) flag_or_eight(1) by (simp add: IsEncrypted_def h(3))
  note A = assms(1) [unfolded job_image_def]
  show "File_Open R f = Some (Inl ErrPassword)"
    by (rule Open_no_password [OF entry_image_at [OF A assms(2) fits o(2,1) h(1)] enc h(2)])
  assume d: "detects_password (env_suite V) (job_kind V j fh) (f_hdr (File_SetPassword pw f))"
  show "File_Open R (File_SetPassword pw f) = Some (Inl ErrPassword)"
    by (rule Open_wrong_password [OF A [folded assms(6)] assms(2) fits _ _ refl])
       (use o h(1) d in \<open>simp_all add: File_SetPassword_def assms(6)\<close>)
qed

lemma Open_wrong_password_entry_witness:
  "\<exists>A f. A = job_image (toy_env :: (sink archive_writer, int) writer_env) toy_job toy_entry [1, 2, 3]
     \<and> f = read_entry (file_at A) 0 (job_final (toy_env :: (sink archive_writer, int) writer_env) toy_job toy_entry [1, 2, 3],
         0, job_aes toy_entry)
     \<and> File_Open toy_reader f = Some (Inl ErrPassword)
     \<and> File_Open toy_reader (File_SetPassword [1] f) = Some (Inl ErrPassword)"
proof -
  let ?V = "toy_env :: (sink archive_writer, int) writer_env"
  define A where "A = [] @ job_image ?V toy_job toy_entry [1, 2, 3] @ []"
  define f where "f = read_entry (file_at A) 0 (job_final ?V toy_job toy_entry [1, 2, 3], 0, job_aes toy_entry)"
  have len: "length A < 2 ^ 63" using toy_image_length by (simp add: A_def)
  have j: "job_ok ?V (\<lambda>_. (=)) toy_job toy_entry" using toy_entry_job by simp
  have e: "IsEncrypted toy_entry" using toy_entry_reads(1,2) by (simp add: password_agrees_def)
  have w: "writesAES toy_entry" "aesStrength toy_entry = 3"
    by (simp_all add: toy_entry_def writesAES_def)
  have h: "IsEncrypted (f_hdr (File_SetPassword [1] f))" "ae (f_hdr (File_SetPassword [1] f)) = 2"
    "aesStrength (f_hdr (File_SetPassword [1] f)) = 3" "password (f_hdr (File_SetPassword [1] f)) = Some [1]"
    by (simp_all add: f_def File_SetPassword_def read_entry_def read_header_fields job_aes_def w)
  have K: "job_kind ?V toy_job toy_entry = KAes (\<lambda>b. b) (replicate 32 2) (replicate 16 5) (replicate 2 2)"
    using w toy_entry_reads(2) by (simp add: job_kind_def enc_kind_of_def streamed_header_def writesAES_def toy_job_def
        toy_rand_def aesKeyLen_def generateKeys_def toy_env_def toy_suite_def)
  have d: "detects_password (env_suite ?V) (job_kind ?V toy_job toy_entry) (f_hdr (File_SetPassword [1] f))"
    using h toy_suite_ok
    by (simp add: K aesKeyLen_def) (simp add: generateKeys_def toy_env_def toy_suite_def Let_def)
  have "0 = (of_nat (length ([] :: byte list)) :: u64)" by simp
  from Open_wrong_password_entry [OF A_def len this j e toy_entry_reads(4) f_def, of "[1]"] d
  show ?thesis by (simp add: A_def f_def) 
qed

lemma decrypted_zip_fails:
  assumes "IsEncrypted h" "ae h = 0" "password h = Some pw"
    and A: "A = pre @ P @ post" "length A < 2 ^ 63"
    and rr: "rr = NewSectionReader (file_at A) (int (length pre)) (int (length P))"
    and bad: "12 \<le> length P \<Longrightarrow> fst (zc_decrypt (NewZipCrypto pw) (take 12 P)) ! 11
      \<noteq> snd (zipCryptoCheckBytes (Flags h) (ModifiedTime h) (CRC32 h))"
  shows "decrypted S rr h = Some (Inl (if length P < 12 then ErrUnexpectedEOF else ErrPassword))"
proof -
  note s = payload_section [OF A rr]
  let ?c = "snd (zipCryptoCheckBytes (Flags h) (ModifiedTime h) (CRC32 h))"
  let ?e = "if length P < 12 then ErrUnexpectedEOF else ErrPassword"
  have v: "zd_view (section_bytes A rr) ErrEOF (newZipCryptoDecryptReader rr pw ?c True) = ([], ?e)"
    using bad s(1) by (simp add: zd_view_def newZipCryptoDecryptReader_def zipCryptoHeaderLen_def split_beta)
  obtain zd where "zipCryptoDecryptReader_readHeader section_Read (newZipCryptoDecryptReader rr pw ?c True) = Some (Some ?e, zd)"
    by (rule fil.delivers_zip [OF s(2,3) v]) (auto split: if_splits)
  with assms(1-3) show ?thesis by (simp add: decrypted_def split_beta)
qed

text \<open>
  C11. \<open>Reader.SetPassword\<close> sets the encryption bit of every entry. An entry that was written without
  a password, and can be read, cannot be opened any more: its contents are taken for ciphertext, and
  \<open>Open\<close> fails with \<open>io.ErrUnexpectedEOF\<close> when they are shorter than 12 bytes and with \<open>ErrPassword\<close>
  unless they happen to decrypt to the check byte.
\<close>

theorem Reader_SetPassword_plain_entry:
  fixes V :: "('z, 'c) writer_env"
  assumes "A = pre @ job_image V j fh enc @ post" and "length A < 2 ^ 63" and "off = of_nat (length pre)"
    and "job_ok V codec j fh" and "\<not> IsEncrypted fh" and "password fh = None"
    and "i < length (rdr_File r)"
    and "rdr_File r ! i = read_entry (file_at A) sz (job_final V j fh enc, off, job_aes fh)"
    and "12 \<le> length enc \<Longrightarrow> fst (zc_decrypt (NewZipCrypto pw) (take 12 enc)) ! 11 \<noteq> ucast (drop_bit 8 (ModifiedTime fh))"
  shows "File_Open R (rdr_File (Reader_SetPassword pw r) ! i)
    = Some (Inl (if length enc < 12 then ErrUnexpectedEOF else ErrPassword))"
proof -
  let ?f = "rdr_File (Reader_SetPassword pw r) ! i"
  have f: "?f = File_SetPassword pw (read_entry (file_at A) sz (job_final V j fh enc, off, job_aes fh))"
    using assms(7,8) by (simp add: Reader_SetPassword_def)
  have w: "\<not> writesAES fh" "job_aes fh = None" "job_kind V j fh = KPlain"
    using assms(6) by (simp_all add: writesAES_def job_aes_def job_kind_def enc_kind_of_def streamed_header_def)
  have P: "job_payload V j fh enc = enc" by (simp add: job_payload_def w(3))
  have h: "CompressedSize64 (f_hdr ?f) = of_nat (length enc)" "password (f_hdr ?f) = Some pw"
    "Flags (f_hdr ?f) = (Flags fh OR 8) OR 1" "ModifiedTime (f_hdr ?f) = ModifiedTime fh" "ae (f_hdr ?f) = 0"
    "IsEncrypted (f_hdr ?f)" "zipr ?f = file_at A" "headerOffset ?f = int64_of off"
    unfolding f by (simp_all add: File_SetPassword_def read_entry_def read_header_fields final_fields [OF refl] P w(2))
  have "((Flags fh OR 8) OR 1) AND 8 = (8 :: u16)" by (rule bit_word_eqI) (auto simp: bit_simps)
  then have c: "snd (zipCryptoCheckBytes (Flags (f_hdr ?f)) (ModifiedTime (f_hdr ?f)) (CRC32 (f_hdr ?f)))
      = ucast (drop_bit 8 (ModifiedTime fh))"
    by (simp add: h(3,4) zipCryptoCheckBytes_def)
  have fits: "header_fits (job_header fh)" using assms(4) by (simp add: job_ok_def)
  have A: "A = pre @ entry_image (env_suite V) KPlain (job_header fh) enc (job_final V j fh enc) @ post"
    using assms(1) by (simp add: job_image_def w(3))
  have o: "headerOffset ?f = int (length pre)" using int64_of_length [OF assms(3)] assms(1,2) h(8) by simp
  have sz: "CompressedSize64 (f_hdr ?f) = of_nat (length (encrypted KPlain enc @ authcode (env_suite V) KPlain enc))"
    using h(1) by simp
  note E = entry_image_at [OF A assms(2) fits h(7) o sz]
  note s = entry_section_payload [OF E]
  have "decrypted (renv_suite R) (entry_section A pre (job_header fh) (encrypted KPlain enc @ authcode (env_suite V) KPlain enc)) (f_hdr ?f)
    = Some (Inl (if length (encrypted KPlain enc @ authcode (env_suite V) KPlain enc) < 12 then ErrUnexpectedEOF else ErrPassword))"
    by (rule decrypted_zip_fails [OF h(6,5,2) s(1,2) entry_section_def]) (use c assms(9) in simp)
  then show ?thesis using File_Open_steps [OF E, of R] by simp
qed

text \<open>
  C9. The checked reader. Whatever the decompressor delivers, the reader \<open>Open\<close> returns hands out the
  same bytes, and a client that reads it to the end without error has bytes of the recorded size and,
  where a checksum is recorded, with the recorded CRC-32; if the entry has a data descriptor, the bytes
  behind the contents are one, with or without the signature, that repeats this checksum. Otherwise the
  client gets an error: the one of the decompressor, \<open>io.ErrUnexpectedEOF\<close> for a wrong size or a
  descriptor that is cut off, \<open>ErrChecksum\<close> for a wrong checksum.
\<close>

theorem checksumReader_sound:
  assumes "delivers rd (ck_rc c) bs e" and "random_access ra D"
    and "ck_hash c = crc32 []" and "ck_nread c = 0" and "ck_err c = None"
    and "\<And>d. ck_desr c = Some d \<Longrightarrow> sec_r d = ra \<and> 0 \<le> sec_off d" and "0 < k"
  shows "\<exists>n err w c'. io_Copy sink_write (checksumReader_Read rd) k 0 empty_sink c = Some (n, err, w, c')
    \<and> sink_data w = bs
    \<and> (err = None \<longleftrightarrow> e = ErrEOF \<and> of_nat (length bs) = UncompressedSize64 (ck_f c)
         \<and> (case ck_desr c of
              None \<Rightarrow> CRC32 (ck_f c) = 0 \<or> crc32 bs = CRC32 (ck_f c)
            | Some d \<Rightarrow> crc32 bs = CRC32 (ck_f c) \<and> \<not> descriptor_truncated (section_bytes D d)
                \<and> descriptor_repeats (CRC32 (ck_f c)) (section_bytes D d)))
    \<and> (err \<noteq> None \<longrightarrow> err = Some
         (if e \<noteq> ErrEOF then e
          else if of_nat (length bs) \<noteq> UncompressedSize64 (ck_f c)
            \<or> (\<exists>d. ck_desr c = Some d \<and> descriptor_truncated (section_bytes D d)) then ErrUnexpectedEOF
          else ErrChecksum))"
proof -
  let ?v = "if e \<noteq> ErrEOF then e else checked_verdict (map_option (section_bytes D) (ck_desr c)) (ck_f c)
       (crc32_Write (ck_hash c) bs) (ck_nread c + of_nat (length bs))"
  have "delivers (checksumReader_Read rd) c bs ?v"
    by (rule delivers_checked [OF assms(1,2) refl assms(5,6)])
  from delivers_Copy [OF this assms(7)] obtain n w c' where
    c: "io_Copy sink_write (checksumReader_Read rd) k 0 empty_sink c = Some (n, if ?v = ErrEOF then None else Some ?v, w, c')"
    "sink_data w = bs" by blast
  have crc: "crc32_Write (ck_hash c) bs = crc32 bs" using assms(3) by (simp add: crc32_def)
  show ?thesis
    by (intro exI conjI, rule c(1), rule c(2))
      (auto simp: checked_verdict_def descriptor_verdict_wire crc assms(4) split: option.splits)
qed

text \<open>
  C14. \<open>VerifyXXH3\<close> on an entry that opens to \<open>plain\<close>: it succeeds if no hash is recorded or the
  recorded one is that of \<open>plain\<close>, and fails with \<open>ErrXXH3\<close> otherwise.
\<close>

theorem VerifyXXH3_spec:
  assumes "opens_to R f plain"
  shows "VerifyXXH3 R f = Some (if XXH3 (f_hdr f) = 0 \<or> renv_xxh3 R plain = XXH3 (f_hdr f) then None else Some ErrXXH3)"
proof -
  obtain x where x: "File_Open R f = Some (Inr x)"
    "\<And>k. 0 < k \<Longrightarrow> \<exists>n w x'. io_Copy sink_write (openFile_Read R) k 0 empty_sink x = Some (n, None, w, x')
        \<and> sink_data w = plain"
    using assms unfolding opens_to_def by blast
  obtain n w x' where "io_Copy sink_write (openFile_Read R) (32 * 1024) 0 empty_sink x = Some (n, None, w, x')"
    "sink_data w = plain" using x(2) [of "32 * 1024"] by auto
  with x(1) show ?thesis by (simp add: VerifyXXH3_def del: mult_numeral_left_semiring_numeral numeral_times_numeral)
qed


text \<open>Three bytes and a descriptor with a signature and the checksum \<open>v\<close>: right for one \<open>v\<close> only.\<close>

definition toy_described :: "u32 \<Rightarrow> byte list" where
  "toy_described v = [1, 2, 3] @ put32 dataDescriptorSignature @ put32 v @ put32 3 @ put32 3"

definition toy_checked :: "u32 \<Rightarrow> section_reader checksumReader" where
  "toy_checked v = \<lparr>ck_rc = NewSectionReader (file_at (toy_described v)) 0 3, ck_hash = crc32 [], ck_nread = 0,
     ck_f = zeroFileHeader\<lparr>CRC32 := crc32 [1, 2, 3], UncompressedSize64 := 3\<rparr>,
     ck_desr = Some (NewSectionReader (file_at (toy_described v)) 3 16), ck_err = None\<rparr>"

lemma checksumReader_sound_witness:
  "\<forall>v. \<exists>n w c'. io_Copy sink_write (checksumReader_Read section_Read) 2 0 empty_sink (toy_checked v)
       = Some (n, if v = crc32 [1, 2, 3] then None else Some ErrChecksum, w, c')
     \<and> sink_data w = [1, 2, 3]"
proof
  fix v
  let ?D = "toy_described v" and ?c = "toy_checked v"
  let ?s = "NewSectionReader (file_at ?D) 0 3" and ?d = "NewSectionReader (file_at ?D) 3 16"
  have s: "section_bytes ?D ?s = [1, 2, 3]" "sec_r ?s = file_at ?D" "0 \<le> sec_off ?s"
    using section_bytes_fresh(1) [of 0 3 ?D "file_at ?D"] section_bytes_fresh(2,3) [of 0 3 "file_at ?D"]
    by (simp_all add: maxint64_def toy_described_def)
  have d: "section_bytes ?D ?d = put32 dataDescriptorSignature @ put32 v @ put32 3 @ put32 3"
    "sec_r ?d = file_at ?D" "0 \<le> sec_off ?d"
    using section_bytes_fresh(1) [of 3 16 ?D "file_at ?D"] section_bytes_fresh(2,3) [of 3 16 "file_at ?D"]
    by (simp_all add: maxint64_def toy_described_def)
  have r: "\<not> descriptor_truncated (section_bytes ?D ?d)"
    "descriptor_repeats w (section_bytes ?D ?d) \<longleftrightarrow> v = w" for w
    unfolding d(1) by (simp_all add: descriptor_truncated_def) (auto simp: descriptor_repeats_def)
  have c: "ck_rc ?c = ?s" "ck_hash ?c = crc32 []" "ck_nread ?c = 0" "ck_err ?c = None" "ck_desr ?c = Some ?d"
    "CRC32 (ck_f ?c) = crc32 [1, 2, 3]" "UncompressedSize64 (ck_f ?c) = 3" by (simp_all add: toy_checked_def)
  have "delivers section_Read (ck_rc ?c) [1, 2, 3] ErrEOF"
    using fil.delivers_section [OF s(2,3)] s(1) c(1) by simp
  note this fil.random_access_axioms c(2,3,4)
  moreover have "sec_r x = file_at ?D \<and> 0 \<le> sec_off x" if "ck_desr ?c = Some x" for x
    using that d(2,3) c(5) by simp
  ultimately show "\<exists>n w c'. io_Copy sink_write (checksumReader_Read section_Read) 2 0 empty_sink ?c
       = Some (n, if v = crc32 [1, 2, 3] then None else Some ErrChecksum, w, c') \<and> sink_data w = [1, 2, 3]"
    using checksumReader_sound [of section_Read ?c "[1, 2, 3]" ErrEOF "file_at ?D" ?D 2] by (auto simp: c r)
qed

lemma VerifyXXH3_spec_witness:
  "\<exists>f. XXH3 (f_hdr f) = 3 \<and> VerifyXXH3 toy_reader f = Some None"
proof -
  let ?V = "toy_env :: (sink archive_writer, int) writer_env"
  define A where "A = [] @ job_image ?V toy_job toy_entry [1, 2, 3] @ []"
  let ?f = "found_entry ?V toy_job toy_entry [1, 2, 3] (file_at A) 0 0"
  have len: "length A < 2 ^ 63" using toy_image_length by (simp add: A_def)
  have j: "job_ok ?V (\<lambda>_. (=)) toy_job toy_entry" "job_codes (\<lambda>_. (=)) toy_job toy_entry [1, 2, 3] (job_plain toy_job)"
    using toy_entry_job by (simp_all add: job_codes_def toy_job_def job_plain_def)
  have "0 = (of_nat (length ([] :: byte list)) :: u64)" by simp
  from open_found [OF A_def len this j toy_entry_reads(6,1,4,3)] obtain x where
    "File_Open toy_reader ?f = Some (Inr x)" "delivers (openFile_Read toy_reader) x [1, 2, 3] ErrEOF" by blast
  then have "opens_to toy_reader ?f [1, 2, 3]" by (rule opens_toI)
  moreover have "XXH3 (f_hdr ?f) = (if j_raw toy_job then XXH3 toy_entry else env_xxh3 ?V (job_plain toy_job))"
    by (rule found_entry_fields(14) [OF toy_entry_reads(1) refl refl])
  then have "XXH3 (f_hdr ?f) = 3" by simp (simp add: toy_job_def toy_env_def job_plain_def)
  moreover have "renv_xxh3 toy_reader [1, 2, 3] = 3" by (simp add: toy_reader_def)
  ultimately show ?thesis using VerifyXXH3_spec [of toy_reader ?f "[1, 2, 3]"] by auto
qed

text \<open>A plain entry of three bytes, which opens before and not after.\<close>

definition plain_entry :: FileHeader where
  "plain_entry = zeroFileHeader\<lparr>Name := [97]\<rparr>"

lemma plain_entry_facts:
  defines "V \<equiv> toy_env :: (sink archive_writer, int) writer_env"
  shows "job_ok V (\<lambda>_. (=)) toy_job plain_entry" "\<not> IsEncrypted plain_entry" "password plain_entry = None"
    "password_agrees plain_entry" "Method plain_entry = Store" "contents (\<lambda>_. (=)) toy_job plain_entry [1, 2, 3]"
    "length (job_image V toy_job plain_entry [1, 2, 3]) < 2 ^ 63"
proof -
  show p: "\<not> IsEncrypted plain_entry" "password plain_entry = None" "Method plain_entry = Store"
    by (simp_all add: plain_entry_def zeroFileHeader_def IsEncrypted_def Store_def)
  then show "password_agrees plain_entry" by (simp add: password_agrees_def)
  have h: "header_fits (job_header plain_entry)"
    by (simp add: header_fits_def job_header_def enc_header_def streamed_header_def writesAES_def p)
       (simp add: plain_entry_def zeroFileHeader_def)
  have "compressor (env_flate V) (env_comps V) Store l = Some nop_compressor" for l by (simp add: compressor_def)
  with nop_compressor_ok h p show "job_ok V (\<lambda>_. (=)) toy_job plain_entry"
    by (auto simp: job_ok_def enc_ready_def streamed_header_def)
  show "contents (\<lambda>_. (=)) toy_job plain_entry [1, 2, 3]" by (simp add: contents_def toy_job_def job_plain_def)
  have "length (descriptor a h) \<le> 24" for a h by (simp add: length_descriptor)
  note d = this [of False "job_final V toy_job plain_entry [1, 2, 3]"]
  have k: "job_kind V toy_job plain_entry = KPlain" "Name plain_entry = [97]" "Extra plain_entry = []"
    by (simp_all add: job_kind_def enc_kind_of_def streamed_header_def p) (simp_all add: plain_entry_def zeroFileHeader_def)
  have "length (job_image V toy_job plain_entry [1, 2, 3]) \<le> 1000"
    using d by (simp add: job_image_def entry_image_def job_aes_def writesAES_def p aes_field_def k kind_is_aes_def)
  then show "length (job_image V toy_job plain_entry [1, 2, 3]) < 2 ^ 63" by simp
qed

lemma Reader_SetPassword_plain_entry_witness:
  "\<exists>r. opens_to toy_reader (rdr_File r ! 0) [1, 2, 3]
     \<and> File_Open toy_reader (rdr_File (Reader_SetPassword [112, 119] r) ! 0) = Some (Inl ErrUnexpectedEOF)"
proof -
  let ?V = "toy_env :: (sink archive_writer, int) writer_env"
  note p = plain_entry_facts
  define A where "A = [] @ job_image ?V toy_job plain_entry [1, 2, 3] @ []"
  let ?f = "read_entry (file_at A) 0 (job_final ?V toy_job plain_entry [1, 2, 3], 0, job_aes plain_entry)"
  let ?r = "\<lparr>rdr_r = file_at A, rdr_File = [?f], rdr_Comment = []\<rparr>"
  have len: "length A < 2 ^ 63" using p(7) by (simp add: A_def)
  have z: "0 = (of_nat (length ([] :: byte list)) :: u64)" by simp
  have j: "job_codes (\<lambda>_. (=)) toy_job plain_entry [1, 2, 3] (job_plain toy_job)"
    by (simp add: job_codes_def toy_job_def job_plain_def)
  have d: "decomps_ok toy_reader (\<lambda>_. (=)) (Method plain_entry)" using toy_decomps(1) p(5) by simp
  from open_found [OF A_def len z p(1) j p(6,4) toy_entry_reads(4) d] obtain x where
    "File_Open toy_reader (found_entry ?V toy_job plain_entry [1, 2, 3] (file_at A) 0 0) = Some (Inr x)"
    "delivers (openFile_Read toy_reader) x [1, 2, 3] ErrEOF" by blast
  then have "opens_to toy_reader (found_entry ?V toy_job plain_entry [1, 2, 3] (file_at A) 0 0) [1, 2, 3]" by (rule opens_toI)
  then have "opens_to toy_reader (rdr_File ?r ! 0) [1, 2, 3]" by (simp add: found_entry_def with_password_def p(3))
  moreover have "File_Open toy_reader (rdr_File (Reader_SetPassword [112, 119] ?r) ! 0) = Some (Inl ErrUnexpectedEOF)"
    using Reader_SetPassword_plain_entry [OF A_def len z p(1-3), of 0 ?r 0] by simp
  ultimately show ?thesis by blast
qed

end
