(* ===== verification/Zip_Strip.thy ===== *)
theory Zip_Strip
  imports Zip_Contents
begin

text \<open>
  raw_reader.go: the local header of a part read on its own, and the reader that cuts the data
  descriptor off the end of a part of unknown length. The stripper is equal to cutting it off the
  whole byte string.
\<close>

section \<open>The local header\<close>

text \<open>The fixed part: the header, and the lengths of the name and the extra field.\<close>

definition lfh_fixed :: "byte list \<Rightarrow> (FileHeader \<times> nat \<times> nat) result" where
  "lfh_fixed buf =
     bindR (or_panic (rb_uint32 buf)) (\<lambda>(sig, rb).
       if sig \<noteq> fileHeaderSignature then Inl ErrFormat
       else or_panic (do {
         (readerVersion, rb) \<leftarrow> rb_uint16 rb;
         (flags, rb) \<leftarrow> rb_uint16 rb;
         (mtd, rb) \<leftarrow> rb_uint16 rb;
         (modTime', rb) \<leftarrow> rb_uint16 rb;
         (modDate, rb) \<leftarrow> rb_uint16 rb;
         (crc32Val, rb) \<leftarrow> rb_uint32 rb;
         (compressedSizeVal, rb) \<leftarrow> rb_uint32 rb;
         (uncompressedSizeVal, rb) \<leftarrow> rb_uint32 rb;
         (nameLen, rb) \<leftarrow> rb_uint16 rb;
         (extraLen, rb) \<leftarrow> rb_uint16 rb;
         Some (zeroFileHeader\<lparr>ReaderVersion := readerVersion, Flags := flags, Method := mtd,
             ModifiedTime := modTime', ModifiedDate := modDate, CRC32 := crc32Val,
             CompressedSize := compressedSizeVal, UncompressedSize := uncompressedSizeVal,
             CompressedSize64 := ucast compressedSizeVal, UncompressedSize64 := ucast uncompressedSizeVal\<rparr>,
           unat nameLen, unat extraLen) }))"

text \<open>\<open>parseLFHZip64Extra\<close>: the block \<open>eb\<close> of the zip64 field, and the loop that looks for it.\<close>

definition lfh_zip64 :: "byte list \<Rightarrow> FileHeader \<Rightarrow> FileHeader" where
  "lfh_zip64 eb fh =
     (let (fh, eb) = (if UncompressedSize fh = uint32max \<and> 8 \<le> length eb
                      then (fh\<lparr>UncompressedSize64 := get64 eb\<rparr>, drop 8 eb) else (fh, eb))
      in if CompressedSize fh = uint32max \<and> 8 \<le> length eb then fh\<lparr>CompressedSize64 := get64 eb\<rparr> else fh)"

function parseLFHZip64_loop :: "byte list \<Rightarrow> FileHeader \<Rightarrow> FileHeader" where
  "parseLFHZip64_loop b fh =
     (if 4 \<le> length b then
        let tag = get16 b; n = unat (get16 (drop 2 b)); b = drop 4 b
        in if length b < n then fh
           else if tag = zip64ExtraId then lfh_zip64 (take n b) fh
           else parseLFHZip64_loop (drop n b) fh
      else fh)"
  by pat_completeness auto
termination
  by (relation "measure (\<lambda>(b, fh). length b)") auto

declare parseLFHZip64_loop.simps [simp del]

definition parseLFHZip64Extra :: "FileHeader \<Rightarrow> FileHeader" where
  "parseLFHZip64Extra fh = (if Extra fh = [] then fh else parseLFHZip64_loop (Extra fh) fh)"

definition ReadLocalFileHeader :: "'s read_fn \<Rightarrow> 's \<Rightarrow> (FileHeader result \<times> 's) option" where
  "ReadLocalFileHeader rd r = do {
     (buf, err, r) \<leftarrow> io_ReadFull rd fileHeaderLen r;
     (case err of Some e \<Rightarrow> Some (Inl e, r) | None \<Rightarrow>
       (case lfh_fixed buf of Inl e \<Rightarrow> Some (Inl e, r) | Inr (fh, nameLen, extraLen) \<Rightarrow> do {
          (nameBytes, err, r) \<leftarrow> io_ReadFull rd nameLen r;
          (case err of Some e \<Rightarrow> Some (Inl e, r) | None \<Rightarrow> do {
            (extraBytes, err, r) \<leftarrow> io_ReadFull rd extraLen r;
            (case err of Some e \<Rightarrow> Some (Inl e, r) | None \<Rightarrow>
               Some (Inr (parseLFHZip64Extra (fh\<lparr>Name := nameBytes, Extra := extraBytes\<rparr>)), r)) }) })) }"

section \<open>The descriptor stripper\<close>

record DataDescriptor =
  dd_CRC32 :: u32
  dd_CompressedSize64 :: u64
  dd_UncompressedSize64 :: u64

text \<open>
  \<open>ds_buf\<close> holds the pending bytes \<open>buf[start:end]\<close>. They stand at the front of the buffer whenever
  the source is read, which then has the rest of the 64 KiB.
\<close>

record 's descriptorStripper =
  ds_r :: 's
  ds_hasDescriptor :: bool
  ds_buf :: "byte list"
  ds_emitted :: int
  ds_eof :: bool
  ds_err :: "zip_error option"
  ds_desc :: "DataDescriptor option"

definition descriptorStripperBufSize :: nat where "descriptorStripperBufSize = 65536"

definition newDescriptorStripper :: "'s \<Rightarrow> bool \<Rightarrow> 's descriptorStripper" where
  "newDescriptorStripper r hasDescriptor = \<lparr>ds_r = r, ds_hasDescriptor = hasDescriptor, ds_buf = [],
     ds_emitted = 0, ds_eof = False, ds_err = None, ds_desc = None\<rparr>"

definition holdBack :: "'s descriptorStripper \<Rightarrow> nat" where
  "holdBack ds = (if ds_hasDescriptor ds \<and> \<not> ds_eof ds then dataDescriptor64Len else 0)"

text \<open>The variants of a descriptor (size, signature, zip64), and the loop over them.\<close>

definition descriptor_variants :: "(nat \<times> bool \<times> bool) list" where
  "descriptor_variants = [(dataDescriptor64Len, True, True), (dataDescriptorLen, True, False),
     (dataDescriptor64Len - 4, False, True), (dataDescriptorLen - 4, False, False)]"

definition variant_desc :: "bool \<Rightarrow> byte list \<Rightarrow> DataDescriptor" where
  "variant_desc zip64 d =
     (if zip64 then \<lparr>dd_CRC32 = get32 d, dd_CompressedSize64 = get64 (drop 4 d), dd_UncompressedSize64 = get64 (drop 12 d)\<rparr>
      else \<lparr>dd_CRC32 = get32 d, dd_CompressedSize64 = ucast (get32 (drop 4 d)),
         dd_UncompressedSize64 = ucast (get32 (drop 8 d))\<rparr>)"

fun parse_variants ::
  "int \<Rightarrow> byte list \<Rightarrow> (nat \<times> bool \<times> bool) list \<Rightarrow> (nat \<times> DataDescriptor) option" where
  "parse_variants len tail [] = None"
| "parse_variants len tail ((n, sig, zip64) # vs) =
     (if length tail < n then parse_variants len tail vs
      else let d = drop (length tail - n) tail
           in if sig \<and> get32 d \<noteq> dataDescriptorSignature then parse_variants len tail vs
              else let desc = variant_desc zip64 (if sig then drop 4 d else d)
                   in if dd_CompressedSize64 desc \<noteq> uint64_of len - of_nat n then parse_variants len tail vs
                      else Some (n, desc))"

definition parseDescriptor :: "'s descriptorStripper \<Rightarrow> 's descriptorStripper" where
  "parseDescriptor ds =
     (if \<not> ds_hasDescriptor ds then ds
      else case parse_variants (add64 (ds_emitted ds) (int (length (ds_buf ds)))) (ds_buf ds) descriptor_variants of
             None \<Rightarrow> ds
           | Some (n, desc) \<Rightarrow> ds\<lparr>ds_desc := Some desc, ds_buf := take (length (ds_buf ds) - n) (ds_buf ds)\<rparr>)"

text \<open>The loop of \<open>Read\<close>; it need not end if the source never does.\<close>

partial_function (option) descriptorStripper_loop ::
  "'s read_fn \<Rightarrow> 's descriptorStripper \<Rightarrow> nat \<Rightarrow> (byte list \<times> zip_error option \<times> 's descriptorStripper) option" where
  "descriptorStripper_loop rd ds n =
     (let avail = length (ds_buf ds) - holdBack ds in
      if 0 < avail then
        let m = min n avail in
        Some (take m (ds_buf ds), None,
          ds\<lparr>ds_buf := drop m (ds_buf ds), ds_emitted := add64 (ds_emitted ds) (int m)\<rparr>)
      else if ds_eof ds then Some ([], Some ErrEOF, ds)
      else case ds_err ds of
        Some e \<Rightarrow> Some ([], Some e, ds)
      | None \<Rightarrow> do {
          (d, err, r) \<leftarrow> rd (ds_r ds) (descriptorStripperBufSize - length (ds_buf ds));
          (let ds = ds\<lparr>ds_r := r, ds_buf := ds_buf ds @ d\<rparr>
           in descriptorStripper_loop rd
                (case err of
                   None \<Rightarrow> ds
                 | Some e \<Rightarrow> if e = ErrEOF then parseDescriptor (ds\<lparr>ds_eof := True\<rparr>) else ds\<lparr>ds_err := Some e\<rparr>) n) })"

definition descriptorStripper_Read :: "'s read_fn \<Rightarrow> 's descriptorStripper read_fn" where
  "descriptorStripper_Read rd ds n = (if n = 0 then Some ([], None, ds) else descriptorStripper_loop rd ds n)"

section \<open>Reading a local header\<close>

text \<open>What the 32-bit sizes do not announce, the zip64 field does not change.\<close>

lemma lfh_zip64_none:
  "CompressedSize fh \<noteq> uint32max \<Longrightarrow> UncompressedSize fh \<noteq> uint32max \<Longrightarrow> lfh_zip64 eb fh = fh"
  by (simp add: lfh_zip64_def)

lemma parseLFHZip64_none:
  "CompressedSize fh \<noteq> uint32max \<Longrightarrow> UncompressedSize fh \<noteq> uint32max \<Longrightarrow> parseLFHZip64Extra fh = fh"
proof -
  assume a: "CompressedSize fh \<noteq> uint32max" "UncompressedSize fh \<noteq> uint32max"
  have "parseLFHZip64_loop b fh = fh" for b
    using a
  proof (induction b fh rule: parseLFHZip64_loop.induct)
    case (1 b fh)
    then show ?case by (subst parseLFHZip64_loop.simps) (simp add: Let_def lfh_zip64_none del: go_limits)
  qed
  then show ?thesis by (simp add: parseLFHZip64Extra_def)
qed

text \<open>The header \<open>ReadLocalFileHeader\<close> makes of a local header the package wrote for \<open>h\<close>.\<close>

definition local_of :: "FileHeader \<Rightarrow> FileHeader" where
  "local_of h = zeroFileHeader\<lparr>ReaderVersion := ReaderVersion h, Flags := Flags h, Method := Method h,
     ModifiedTime := ModifiedTime h, ModifiedDate := ModifiedDate h, Name := Name h, Extra := Extra h\<rparr>"

lemma lfh_fixed_wire:
  assumes "header_fits h"
  shows "lfh_fixed (fileHeader_wire h) = Inr ((local_of h)\<lparr>Name := [], Extra := []\<rparr>, length (Name h), length (Extra h))"
  using assms by (simp add: lfh_fixed_def fileHeader_wire_def header_fits_def local_of_def zeroFileHeader_def)

lemma ReadLocalFileHeader_written:
  assumes "delivers rd s (fileHeader_wire h @ Name h @ Extra h @ rest) e" "header_fits h"
  shows "\<exists>s'. ReadLocalFileHeader rd s = Some (Inr (local_of h), s') \<and> delivers rd s' rest e"
proof -
  obtain I stream fin rank where src: "io_reader rd I stream fin rank" and
    s: "I s" "stream s = fileHeader_wire h @ Name h @ Extra h @ rest" "fin s = e"
    using assms(1) by (rule deliversE)
  note R = io_reader.ReadFull_spec [OF src]
  have l: "length (fileHeader_wire h) = 30" by simp
  obtain s1 where s1: "io_ReadFull rd 30 s = Some (fileHeader_wire h, None, s1)"
    "I s1" "stream s1 = Name h @ Extra h @ rest" "fin s1 = e"
    using R [OF s(1), of 30] s l by (auto simp: readFull_err_def)
  obtain s2 where s2: "io_ReadFull rd (length (Name h)) s1 = Some (Name h, None, s2)"
    "I s2" "stream s2 = Extra h @ rest" "fin s2 = e"
    using R [OF s1(2), of "length (Name h)"] s1 by (auto simp: readFull_err_def)
  obtain s3 where s3: "io_ReadFull rd (length (Extra h)) s2 = Some (Extra h, None, s3)"
    "I s3" "stream s3 = rest" "fin s3 = e"
    using R [OF s2(2), of "length (Extra h)"] s2 by (auto simp: readFull_err_def)
  have "(local_of h)\<lparr>Name := Name h, Extra := Extra h\<rparr> = local_of h" by (simp add: local_of_def)
  moreover have "parseLFHZip64Extra (local_of h) = local_of h"
    by (rule parseLFHZip64_none) (simp_all add: local_of_def zeroFileHeader_def)
  ultimately have "ReadLocalFileHeader rd s = Some (Inr (local_of h), s3)"
    by (simp add: ReadLocalFileHeader_def s1(1) lfh_fixed_wire [OF assms(2)] s2(1) s3(1))
  moreover have "delivers rd s3 rest e" by (rule deliversI [OF src s3(2-4)])
  ultimately show ?thesis by blast
qed

section \<open>Cutting off the descriptor\<close>

text \<open>
  The reference: the payload and the descriptor of a part whose bytes behind the local header are
  \<open>bs\<close>, of which \<open>len\<close> counts the bytes together with those already handed out.
\<close>

definition strip :: "int \<Rightarrow> byte list \<Rightarrow> byte list \<times> DataDescriptor option" where
  "strip len bs = (case parse_variants len bs descriptor_variants of
     None \<Rightarrow> (bs, None) | Some (n, d) \<Rightarrow> (take (length bs - n) bs, Some d))"

definition stripped :: "byte list \<Rightarrow> byte list \<times> DataDescriptor option" where
  "stripped bs = strip (int (length bs)) bs"

lemma variants_short: "\<forall>v \<in> set descriptor_variants. fst v \<le> 24"
  by (auto simp: descriptor_variants_def dataDescriptor64Len_def dataDescriptorLen_def)

lemma parse_variants_size:
  assumes "parse_variants len bs vs = Some (n, d)" "\<forall>v \<in> set vs. fst v \<le> 24"
  shows "n \<le> length bs \<and> n \<le> 24"
  using assms by (induction len bs vs rule: parse_variants.induct) (fastforce simp: Let_def split: if_splits)+

lemma parse_variants_tail:
  assumes "\<forall>v \<in> set vs. fst v \<le> 24" "24 \<le> length tail" "uint64_of len = uint64_of len'"
  shows "parse_variants len (c @ tail) vs = parse_variants len' tail vs"
  using assms
proof (induction len' tail vs rule: parse_variants.induct)
  case (2 len' tail n sig zip64 vs)
  have n: "n \<le> 24" using "2.prems"(1) by simp
  have "drop (length (c @ tail) - n) (c @ tail) = drop (length tail - n) tail"
    using n "2.prems"(2) by (simp add: drop_append)
  moreover have "\<not> length (c @ tail) < n" "\<not> length tail < n" using n "2.prems"(2) by auto
  ultimately show ?case using "2.IH"(2-) "2.prems" by (simp only: parse_variants.simps if_False Let_def) auto
qed simp

lemma strip_drop:
  assumes "m + 24 \<le> length bs" "uint64_of len = uint64_of len'"
  shows "strip len bs = (take m bs @ fst (strip len' (drop m bs)), snd (strip len' (drop m bs)))"
proof -
  have "24 \<le> length (drop m bs)" using assms(1) by simp
  from parse_variants_tail [OF variants_short this assms(2), of "take m bs"]
  have p: "parse_variants len bs descriptor_variants = parse_variants len' (drop m bs) descriptor_variants" by simp
  show ?thesis
  proof (cases "parse_variants len bs descriptor_variants")
    case (Some v)
    obtain n d where v: "v = (n, d)" by (cases v)
    from parse_variants_size [OF Some [unfolded v]] variants_short have "n \<le> 24" by blast
    then have "take (length bs - n) bs = take m bs @ take (length bs - m - n) (drop m bs)"
      using assms(1) take_add [of m "length bs - m - n" bs] by simp
    then show ?thesis using Some p v by (simp add: strip_def)
  qed (use p in \<open>simp add: strip_def\<close>)
qed

locale stripped_source = io_reader rd inv stream fin rank
  for rd :: "'s read_fn" and inv :: "'s \<Rightarrow> bool" and stream :: "'s \<Rightarrow> byte list"
    and fin :: "'s \<Rightarrow> zip_error" and rank :: "'s \<Rightarrow> nat"
begin

text \<open>What a stripper has still to deliver: the payload, the descriptor it will find, the error at the end.\<close>

definition ds_view :: "'s descriptorStripper \<Rightarrow> (byte list \<times> DataDescriptor option) \<times> zip_error" where
  "ds_view ds =
     (if ds_eof ds then ((ds_buf ds, ds_desc ds), ErrEOF)
      else case ds_err ds of
        Some e \<Rightarrow> ((take (length (ds_buf ds) - 24) (ds_buf ds), None), e)
      | None \<Rightarrow>
          let bs = ds_buf ds @ stream (ds_r ds) in
          if fin (ds_r ds) = ErrEOF then (strip (ds_emitted ds + int (length bs)) bs, ErrEOF)
          else ((take (length bs - 24) bs, None), fin (ds_r ds)))"

definition ds_inv :: "'s descriptorStripper \<Rightarrow> bool" where
  "ds_inv ds \<longleftrightarrow> ds_hasDescriptor ds \<and> inv (ds_r ds) \<and> ds_err ds \<noteq> Some ErrEOF
     \<and> (\<not> ds_eof ds \<longrightarrow> ds_desc ds = None)"

definition ds_rank :: "'s descriptorStripper \<Rightarrow> nat" where
  "ds_rank ds = length (stream (ds_r ds)) + length (ds_buf ds) + rank (ds_r ds)"

text \<open>Handing out pending bytes.\<close>

lemma ds_view_emit:
  assumes "ds_inv ds" "m + holdBack ds \<le> length (ds_buf ds)"
    and ds'_def: "ds' = ds\<lparr>ds_buf := drop m (ds_buf ds), ds_emitted := add64 (ds_emitted ds) (int m)\<rparr>"
  shows "ds_inv ds'" "fst (fst (ds_view ds)) = take m (ds_buf ds) @ fst (fst (ds_view ds'))"
    "snd (fst (ds_view ds')) = snd (fst (ds_view ds))" "snd (ds_view ds') = snd (ds_view ds)"
proof -
  show "ds_inv ds'" using assms(1) by (simp add: ds_inv_def ds'_def)
  have cut: "take (length (ds_buf ds) + l - 24) (ds_buf ds @ S)
      = take m (ds_buf ds) @ take (length (ds_buf ds) + l - (m + 24)) (drop m (ds_buf ds) @ S)"
    if "m + 24 \<le> length (ds_buf ds)" for l S
    using that take_add [of m "length (ds_buf ds) + l - (m + 24)" "ds_buf ds @ S"] by simp
  have "fst (fst (ds_view ds)) = take m (ds_buf ds) @ fst (fst (ds_view ds'))
      \<and> snd (fst (ds_view ds')) = snd (fst (ds_view ds)) \<and> snd (ds_view ds') = snd (ds_view ds)"
  proof (cases "ds_eof ds")
    case False
    then have h: "m + 24 \<le> length (ds_buf ds)"
      using assms(1,2) by (simp add: holdBack_def ds_inv_def dataDescriptor64Len_def)
    show ?thesis
    proof (cases "ds_err ds")
      case (Some e)
      with False cut [OF h, of 0 "[]"] show ?thesis by (simp add: ds_view_def ds'_def)
    next
      case None
      let ?bs = "ds_buf ds @ stream (ds_r ds)"
      have b: "drop m ?bs = drop m (ds_buf ds) @ stream (ds_r ds)" "m + 24 \<le> length ?bs"
        "take m ?bs = take m (ds_buf ds)" using h by simp_all
      have "uint64_of (ds_emitted ds + int (length ?bs))
          = uint64_of (add64 (ds_emitted ds) (int m) + int (length (drop m ?bs)))"
        using h by (simp add: uint64_of_def add64_def int64_of_def of_nat_diff)
      note s = strip_drop [OF b(2) this]
      from cut [OF h, of "length (stream (ds_r ds))" "stream (ds_r ds)"] False None s b h show ?thesis
        by (simp add: ds_view_def ds'_def Let_def)
    qed
  qed (simp add: ds_view_def ds'_def)
  then show "fst (fst (ds_view ds)) = take m (ds_buf ds) @ fst (fst (ds_view ds'))"
    "snd (fst (ds_view ds')) = snd (fst (ds_view ds))" "snd (ds_view ds') = snd (ds_view ds)" by auto
qed

text \<open>Taking what a read of the source returned.\<close>

definition ds_taken :: "'s descriptorStripper \<Rightarrow> byte list \<Rightarrow> zip_error option \<Rightarrow> 's \<Rightarrow> 's descriptorStripper" where
  "ds_taken ds d err r = (let ds = ds\<lparr>ds_r := r, ds_buf := ds_buf ds @ d\<rparr> in
     case err of
       None \<Rightarrow> ds
     | Some e \<Rightarrow> if e = ErrEOF then parseDescriptor (ds\<lparr>ds_eof := True\<rparr>) else ds\<lparr>ds_err := Some e\<rparr>)"

lemma ds_view_taken:
  assumes "ds_inv ds" "\<not> ds_eof ds" "ds_err ds = None" "0 < k" "rd (ds_r ds) k = Some (d, err, r)"
  shows "ds_inv (ds_taken ds d err r)" "ds_view (ds_taken ds d err r) = ds_view ds"
    "ds_rank (ds_taken ds d err r) \<le> ds_rank ds"
    "err = None \<Longrightarrow> \<not> ds_eof (ds_taken ds d err r) \<and> ds_err (ds_taken ds d err r) = None
        \<and> rank (ds_r (ds_taken ds d err r)) < rank (ds_r ds)"
    "err \<noteq> None \<Longrightarrow> ds_eof (ds_taken ds d err r) \<or> ds_err (ds_taken ds d err r) \<noteq> None"
proof -
  have i: "inv (ds_r ds)" "ds_hasDescriptor ds" "ds_desc ds = None" using assms(1,2) by (simp_all add: ds_inv_def)
  note l = read_law [OF i(1) assms(4,5)]
  have "uint64_of (add64 (ds_emitted ds) (int (length (ds_buf ds @ d)))) = uint64_of (ds_emitted ds + int (length (ds_buf ds @ d)))"
    by (simp add: uint64_of_def add64_def int64_of_def)
  then have p: "parse_variants (add64 (ds_emitted ds) (int (length (ds_buf ds @ d)))) (ds_buf ds @ d) vs
      = parse_variants (ds_emitted ds + int (length (ds_buf ds @ d))) (ds_buf ds @ d) vs" for vs
    by (induction vs) (auto simp: Let_def)
  have *: "ds_inv (ds_taken ds d err r) \<and> ds_view (ds_taken ds d err r) = ds_view ds
      \<and> ds_rank (ds_taken ds d err r) \<le> ds_rank ds"
  proof (cases err)
    case None
    with l i assms(2,3) show ?thesis by (simp add: ds_taken_def ds_inv_def ds_view_def ds_rank_def Let_def add.assoc)
  next
    case (Some e)
    with read_end [OF i(1) assms(4), of d e r] assms(5) have e: "e = fin (ds_r ds)" "stream r = []" by simp_all
    with l have d: "stream (ds_r ds) = d" by simp
    show ?thesis
    proof (cases "e = ErrEOF")
      case True
      with Some e d l i assms(2,3) p show ?thesis
        by (auto simp: ds_taken_def parseDescriptor_def ds_inv_def ds_view_def ds_rank_def strip_def Let_def split: option.splits)
    next
      case False
      with Some e d l i assms(2,3) show ?thesis
        by (simp add: ds_taken_def ds_inv_def ds_view_def ds_rank_def Let_def)
    qed
  qed
  then show "ds_inv (ds_taken ds d err r)" "ds_view (ds_taken ds d err r) = ds_view ds"
    "ds_rank (ds_taken ds d err r) \<le> ds_rank ds" by auto
  show "err = None \<Longrightarrow> \<not> ds_eof (ds_taken ds d err r) \<and> ds_err (ds_taken ds d err r) = None
        \<and> rank (ds_r (ds_taken ds d err r)) < rank (ds_r ds)"
    using assms(2,3,5) read_more [OF i(1) assms(4)] by (simp add: ds_taken_def)
  show "err \<noteq> None \<Longrightarrow> ds_eof (ds_taken ds d err r) \<or> ds_err (ds_taken ds d err r) \<noteq> None"
    by (auto simp: ds_taken_def parseDescriptor_def Let_def split: option.splits)
qed

end

context stripped_source
begin

lemma descriptorStripper_loop_spec:
  "ds_inv ds \<Longrightarrow> 0 < n \<Longrightarrow>
     \<exists>d e ds'. descriptorStripper_loop rd ds n = Some (d, e, ds') \<and> ds_inv ds' \<and> length d \<le> n
       \<and> fst (fst (ds_view ds)) = d @ fst (fst (ds_view ds')) \<and> snd (fst (ds_view ds')) = snd (fst (ds_view ds))
       \<and> snd (ds_view ds') = snd (ds_view ds) \<and> ds_rank ds' \<le> ds_rank ds
       \<and> (e = None \<longrightarrow> ds_rank ds' < ds_rank ds)
       \<and> (\<forall>er. e = Some er \<longrightarrow> er = snd (ds_view ds) \<and> fst (fst (ds_view ds')) = [] \<and> (er = ErrEOF \<longrightarrow> ds_eof ds'))"
proof (induction "if ds_eof ds \<or> ds_err ds \<noteq> None then 0 else Suc (rank (ds_r ds))" arbitrary: ds rule: less_induct)
  case less
  let ?avail = "length (ds_buf ds) - holdBack ds"
  show ?case
  proof (cases "0 < ?avail")
    case True
    define m where "m = min n ?avail"
    define ds' where "ds' = ds\<lparr>ds_buf := drop m (ds_buf ds), ds_emitted := add64 (ds_emitted ds) (int m)\<rparr>"
    have m: "m + holdBack ds \<le> length (ds_buf ds)" "0 < m" "m \<le> n" using True less.prems(2) by (auto simp: m_def)
    have "descriptorStripper_loop rd ds n = Some (take m (ds_buf ds), None, ds')"
      using True by (subst descriptorStripper_loop.simps) (simp add: ds'_def m_def Let_def)
    moreover have "ds_rank ds' < ds_rank ds" using m True by (simp add: ds_rank_def ds'_def)
    moreover have "length (take m (ds_buf ds)) \<le> n" using m(3) by simp
    ultimately show ?thesis using ds_view_emit [OF less.prems(1) m(1) ds'_def] by auto
  next
    case False
    show ?thesis
    proof (cases "ds_eof ds \<or> ds_err ds \<noteq> None")
      case True
      have d: "ds_err ds \<noteq> Some ErrEOF" "ds_hasDescriptor ds" using less.prems(1) by (simp_all add: ds_inv_def)
      have "descriptorStripper_loop rd ds n = Some ([], Some (snd (ds_view ds)), ds)"
        using True False by (subst descriptorStripper_loop.simps) (auto simp: ds_view_def)
      moreover have "fst (fst (ds_view ds)) = []"
        using True False d by (auto simp: ds_view_def holdBack_def dataDescriptor64Len_def split: if_splits)
      moreover have "snd (ds_view ds) = ErrEOF \<Longrightarrow> ds_eof ds"
        using True d by (auto simp: ds_view_def split: if_splits)
      ultimately show ?thesis using less.prems by auto
    next
      case live: False
      let ?k = "descriptorStripperBufSize - length (ds_buf ds)"
      have "length (ds_buf ds) \<le> 24" using False less.prems(1) live
        by (simp add: holdBack_def ds_inv_def dataDescriptor64Len_def)
      then have k: "0 < ?k" by (simp add: descriptorStripperBufSize_def)
      have i: "inv (ds_r ds)" using less.prems(1) by (simp add: ds_inv_def)
      obtain d err r where r: "rd (ds_r ds) ?k = Some (d, err, r)" using read_returns [OF i k] by blast
      have l: "descriptorStripper_loop rd ds n = descriptorStripper_loop rd (ds_taken ds d err r) n"
        using False live r by (subst descriptorStripper_loop.simps) (simp add: ds_taken_def Let_def)
      have n: "\<not> ds_eof ds" "ds_err ds = None" using live by auto
      note t = ds_view_taken [OF less.prems(1) n k r]
      have "(if ds_eof (ds_taken ds d err r) \<or> ds_err (ds_taken ds d err r) \<noteq> None then 0
          else Suc (rank (ds_r (ds_taken ds d err r)))) < (if ds_eof ds \<or> ds_err ds \<noteq> None then 0 else Suc (rank (ds_r ds)))"
        using t(4,5) n by (cases err) auto
      from less.hyps [OF this t(1) less.prems(2)] obtain p e ds' where p:
        "descriptorStripper_loop rd (ds_taken ds d err r) n = Some (p, e, ds')" "ds_inv ds'" "length p \<le> n"
        "fst (fst (ds_view ds)) = p @ fst (fst (ds_view ds'))" "snd (fst (ds_view ds')) = snd (fst (ds_view ds))"
        "snd (ds_view ds') = snd (ds_view ds)" "ds_rank ds' \<le> ds_rank (ds_taken ds d err r)"
        "e = None \<longrightarrow> ds_rank ds' < ds_rank (ds_taken ds d err r)"
        "\<forall>er. e = Some er \<longrightarrow> er = snd (ds_view ds) \<and> fst (fst (ds_view ds')) = [] \<and> (er = ErrEOF \<longrightarrow> ds_eof ds')"
        unfolding t(2) by blast
      with t(3) l show ?thesis by (intro exI [of _ p] exI [of _ e] exI [of _ ds']) auto
    qed
  qed
qed

lemma descriptorStripper_Read_spec:
  assumes "ds_inv ds" "0 < n"
  obtains d e ds' where "descriptorStripper_Read rd ds n = Some (d, e, ds')" "ds_inv ds'" "length d \<le> n"
    "fst (fst (ds_view ds)) = d @ fst (fst (ds_view ds'))" "snd (fst (ds_view ds')) = snd (fst (ds_view ds))"
    "snd (ds_view ds') = snd (ds_view ds)" "ds_rank ds' \<le> ds_rank ds" "e = None \<Longrightarrow> ds_rank ds' < ds_rank ds"
    "\<And>er. e = Some er \<Longrightarrow> er = snd (ds_view ds) \<and> fst (fst (ds_view ds')) = [] \<and> (er = ErrEOF \<longrightarrow> ds_eof ds')"
  using descriptorStripper_loop_spec [OF assms] assms(2) by (auto simp: descriptorStripper_Read_def)

end

sublocale stripped_source \<subseteq> ds: io_reader "descriptorStripper_Read rd" ds_inv
  "\<lambda>ds. fst (fst (ds_view ds))" "\<lambda>ds. snd (ds_view ds)" ds_rank
proof (unfold_locales, goal_cases)
  case (1 s n)
  from 1 show ?case by (rule descriptorStripper_Read_spec) blast
next
  case (2 s n d e s')
  from 2(1,2) show ?case by (rule descriptorStripper_Read_spec) (use 2(3) in auto)
next
  case (3 s n d err s')
  from 3(1,2) show ?case by (rule descriptorStripper_Read_spec) (use 3(3) in auto)
next
  case (4 s n d s')
  from 4(1,2) show ?case by (rule descriptorStripper_Read_spec) (use 4(3) in auto)
qed

context stripped_source
begin

text \<open>A new stripper delivers the payload; when it says so, it has the descriptor.\<close>

lemma ds_view_new:
  assumes "inv s" "fin s = ErrEOF"
  shows "ds_inv (newDescriptorStripper s True)"
    "ds_view (newDescriptorStripper s True) = (stripped (stream s), ErrEOF)"
  using assms by (simp_all add: newDescriptorStripper_def ds_inv_def ds_view_def stripped_def Let_def)

lemma ds_end:
  assumes "ds_inv ds" "0 < n" "descriptorStripper_Read rd ds n = Some (d, Some ErrEOF, ds')"
  shows "ds_desc ds' = snd (fst (ds_view ds))"
  by (rule descriptorStripper_Read_spec [OF assms(1,2)]) (use assms(3) in \<open>auto simp: ds_view_def\<close>)

end

interpretation dcr: stripped_source creader_Read "\<lambda>_. True" creader_stream cr_end creader_rank
  by unfold_locales

text \<open>Copying to a writer that takes whatever it is given, with the state the source ends in.\<close>

lemma Copy_accepted:
  assumes rd: "io_reader rd I stream fin rank"
    and wr: "\<And>w acc p. R w acc \<Longrightarrow> \<exists>w'. wr w p = (length p, None, w') \<and> R w' (acc @ p)" and k: "0 < k"
  shows "I s \<Longrightarrow> fin s = ErrEOF \<Longrightarrow> R w acc \<Longrightarrow> \<exists>n w' s' s0 d. io_Copy wr rd k m w s = Some (n, None, w', s')
    \<and> R w' (acc @ stream s) \<and> I s0 \<and> rd s0 k = Some (d, Some ErrEOF, s')"
proof (induction "rank s" arbitrary: s m w acc rule: less_induct)
  case less
  obtain d er s1 where r: "rd s k = Some (d, er, s1)" using io_reader.read_returns [OF rd less.prems(1) k] by blast
  note l = io_reader.read_law [OF rd less.prems(1) k r]
  obtain w1 where w: "(if d = [] then (0, None, w) else wr w d) = (length d, None, w1)" "R w1 (acc @ d)"
    using wr [OF less.prems(3), of d] less.prems(3) by (cases "d = []") auto
  show ?case
  proof (cases er)
    case None
    then have "rank s1 < rank s" using io_reader.read_more [OF rd less.prems(1) k] r by blast
    moreover have i: "I s1" "fin s1 = ErrEOF" using l less.prems(2) by auto
    ultimately have "\<exists>n w' s' s0 c. io_Copy wr rd k (m + length d) w1 s1 = Some (n, None, w', s')
        \<and> R w' ((acc @ d) @ stream s1) \<and> I s0 \<and> rd s0 k = Some (c, Some ErrEOF, s')"
      using less.hyps i w(2) by blast
    then obtain n w' s' s0 c where
      "io_Copy wr rd k (m + length d) w1 s1 = Some (n, None, w', s')" "R w' ((acc @ d) @ stream s1)" "I s0"
      "rd s0 k = Some (c, Some ErrEOF, s')" by blast
    moreover from None r w(1) have "io_Copy wr rd k m w s = io_Copy wr rd k (m + length d) w1 s1"
      by (subst io_Copy.simps) simp
    ultimately show ?thesis using l by auto
  next
    case (Some e)
    with io_reader.read_end [OF rd less.prems(1) k] r less.prems(2) have e: "e = ErrEOF" "stream s1 = []" by auto
    have "io_Copy wr rd k m w s = Some (m + length d, None, w1, s1)"
      using Some e(1) r w(1) by (subst io_Copy.simps) simp
    moreover have "R w1 (acc @ stream s)" using l e(2) w(2) by simp
    ultimately show ?thesis using less.prems(1) r Some e(1) by blast
  qed
qed

context stripped_source
begin

lemma ds_reader: "io_reader (descriptorStripper_Read rd) ds_inv (\<lambda>ds. fst (fst (ds_view ds))) (\<lambda>ds. snd (ds_view ds)) ds_rank"
  by (rule ds.io_reader_axioms)

end

context zc_source
begin

lemma zd_reader: "io_reader (zipCryptoDecryptReader_Read rd) zd_inv
    (\<lambda>zd. fst (zd_view (stream (zd_r zd)) (fin (zd_r zd)) zd))
    (\<lambda>zd. snd (zd_view (stream (zd_r zd)) (fin (zd_r zd)) zd)) (\<lambda>zd. rank (zd_r zd))"
  by (rule zd.io_reader_axioms)

end

section \<open>Readers and how they end\<close>

text \<open>
  \<open>yields\<close>: the reader delivers \<open>bs\<close>, then \<open>io.EOF\<close>, and with it is in a state where \<open>Q\<close> holds.
\<close>

definition yields :: "'s read_fn \<Rightarrow> 's \<Rightarrow> byte list \<Rightarrow> ('s \<Rightarrow> bool) \<Rightarrow> bool" where
  "yields rd s bs Q \<longleftrightarrow> (\<exists>I stream fin rank. io_reader rd I stream fin rank \<and> I s \<and> stream s = bs \<and> fin s = ErrEOF
     \<and> (\<forall>s0 k d s'. I s0 \<longrightarrow> 0 < k \<longrightarrow> rd s0 k = Some (d, Some ErrEOF, s') \<longrightarrow> Q s'))"

lemma yieldsI:
  "io_reader rd I stream fin rank \<Longrightarrow> I s \<Longrightarrow> stream s = bs \<Longrightarrow> fin s = ErrEOF \<Longrightarrow>
     (\<And>s0 k d s'. I s0 \<Longrightarrow> 0 < k \<Longrightarrow> rd s0 k = Some (d, Some ErrEOF, s') \<Longrightarrow> Q s') \<Longrightarrow> yields rd s bs Q"
  unfolding yields_def by blast

lemma yieldsE:
  assumes "yields rd s bs Q"
  obtains I stream fin rank where "io_reader rd I stream fin rank" "I s" "stream s = bs" "fin s = ErrEOF"
    "\<forall>s0 k d s'. I s0 \<longrightarrow> 0 < k \<longrightarrow> rd s0 k = Some (d, Some ErrEOF, s') \<longrightarrow> Q s'"
  using assms unfolding yields_def by blast

lemma yields_Copy:
  assumes "yields rd s bs Q" and "\<And>w acc p. R w acc \<Longrightarrow> \<exists>w'. wr w p = (length p, None, w') \<and> R w' (acc @ p)"
    and "R w acc" "0 < k"
  obtains n w' s' where "io_Copy wr rd k m w s = Some (n, None, w', s')" "R w' (acc @ bs)" "Q s'"
proof -
  obtain I stream fin rank where y: "io_reader rd I stream fin rank" "I s" "stream s = bs" "fin s = ErrEOF"
    "\<forall>s0 k d s'. I s0 \<longrightarrow> 0 < k \<longrightarrow> rd s0 k = Some (d, Some ErrEOF, s') \<longrightarrow> Q s'"
    using assms(1) by (rule yieldsE)
  obtain n w' s' s0 d where c: "io_Copy wr rd k m w s = Some (n, None, w', s')" "R w' (acc @ bs)"
    "I s0" "rd s0 k = Some (d, Some ErrEOF, s')"
    using Copy_accepted [where R = R and m = m and wr = wr, OF y(1) assms(2) assms(4) y(2,4) assms(3)] y(3) by blast
  then have "Q s'" using y(5) assms(4) by blast
  with c(1,2) that show ?thesis by blast
qed

lemma yields_map:
  assumes "yields rd s bs Q" and g: "\<And>s n. rd' (g s) n = map_option (\<lambda>(b, e, s). (b, e, g s)) (rd s n)"
    and f: "\<And>s. f (g s) = s"
  shows "yields rd' (g s) bs (\<lambda>t. Q (f t) \<and> t = g (f t))"
proof -
  obtain I stream fin rank where y: "io_reader rd I stream fin rank" "I s" "stream s = bs" "fin s = ErrEOF"
    "\<forall>s0 k d s'. I s0 \<longrightarrow> 0 < k \<longrightarrow> rd s0 k = Some (d, Some ErrEOF, s') \<longrightarrow> Q s'"
    using assms(1) by (rule yieldsE)
  have "io_reader rd' (\<lambda>t. \<exists>s. t = g s \<and> I s) (\<lambda>t. stream (f t)) (\<lambda>t. fin (f t)) (\<lambda>t. rank (f t))"
    by (rule io_reader_map [OF y(1)]) (use f g in \<open>auto, metis\<close>)
  then show ?thesis
  proof (rule yieldsI)
    fix s0 k d s'
    assume "\<exists>s. s0 = g s \<and> I s" "0 < k" "rd' s0 k = Some (d, Some ErrEOF, s')"
    then obtain t t' where t: "I t" "rd t k = Some (d, Some ErrEOF, t')" "s' = g t'" by (auto simp: g)
    then have "Q t'" using y(5) \<open>0 < k\<close> by blast
    with t(3) show "Q (f s') \<and> s' = g (f s')" by (simp add: f)
  qed (use y f in auto)
qed

lemma yields_strip:
  assumes "delivers rd s bs ErrEOF"
  shows "yields (descriptorStripper_Read rd) (newDescriptorStripper s True) (fst (stripped bs))
    (\<lambda>ds. ds_desc ds = snd (stripped bs))"
proof -
  obtain I stream fin rank where r: "io_reader rd I stream fin rank" "I s" "stream s = bs" "fin s = ErrEOF"
    using assms by (rule deliversE)
  note S = stripped_source.intro [OF r(1)]
  note D = stripped_source.ds_view_new [OF S r(2,4), unfolded r(3)]
  have "io_reader (descriptorStripper_Read rd)
      (\<lambda>ds. stripped_source.ds_inv I ds \<and> snd (fst (stripped_source.ds_view stream fin ds)) = snd (stripped bs))
      (\<lambda>ds. fst (fst (stripped_source.ds_view stream fin ds))) (\<lambda>ds. snd (stripped_source.ds_view stream fin ds))
      (stripped_source.ds_rank stream rank)"
  proof (rule io_reader_restrict [OF stripped_source.ds_reader [OF S]])
    fix ds n d e ds'
    assume a: "stripped_source.ds_inv I ds" "0 < n" "snd (fst (stripped_source.ds_view stream fin ds)) = snd (stripped bs)"
      "descriptorStripper_Read rd ds n = Some (d, e, ds')"
    show "snd (fst (stripped_source.ds_view stream fin ds')) = snd (stripped bs)"
      by (rule stripped_source.descriptorStripper_Read_spec [OF S a(1,2)]) (use a(3,4) in auto)
  qed
  then show ?thesis
    by (rule yieldsI) (use D stripped_source.ds_end [OF S] in auto)
qed

lemma yields_zip:
  assumes "yields rd s bs Q" and v: "zd_view bs ErrEOF (newZipCryptoDecryptReader s pw check True) = (ps, e)"
  obtains zd where "zipCryptoDecryptReader_readHeader rd (newZipCryptoDecryptReader s pw check True) =
      Some (if e = ErrEOF then None else Some e, zd)"
    "e = ErrEOF \<Longrightarrow> yields (zipCryptoDecryptReader_Read rd) zd ps (\<lambda>z. Q (zd_r z))"
proof -
  obtain I stream fin rank where y: "io_reader rd I stream fin rank" "I s" "stream s = bs" "fin s = ErrEOF"
    "\<forall>s0 k d s'. I s0 \<longrightarrow> 0 < k \<longrightarrow> rd s0 k = Some (d, Some ErrEOF, s') \<longrightarrow> Q s'"
    using assms(1) by (rule yieldsE)
  have "io_reader rd (\<lambda>s. I s \<and> fin s = ErrEOF) stream fin rank"
    by (rule io_reader_restrict [OF y(1)]) (auto dest: io_reader.read_law [OF y(1)])
  note Z = zc_source.intro [OF this]
  let ?z = "newZipCryptoDecryptReader s pw check True"
  have i: "zc_source.zd_inv (\<lambda>s. I s \<and> fin s = ErrEOF) ?z" "zd_r ?z = s"
    using y(2,4) by (simp_all add: zc_source.zd_inv_def [OF Z] newZipCryptoDecryptReader_def)
  obtain err zd where h: "zipCryptoDecryptReader_readHeader rd ?z = Some (err, zd)" and
    zd: "zc_source.zd_inv (\<lambda>s. I s \<and> fin s = ErrEOF) zd" "zd_headerDone zd" "err = zd_err zd"
      "zd_view (stream (zd_r zd)) (fin (zd_r zd)) zd = (ps, e)"
    by (rule zc_source.readHeader_spec [OF Z i(1)]) (simp only: i(2) y(3,4) v)
  have err: "err = (if e = ErrEOF then None else Some e)"
    using zd readHeader_not_EOF [OF h] by (auto simp: zc_source.zd_inv_def [OF Z] zd_view_def split: option.splits)
  have "yields (zipCryptoDecryptReader_Read rd) zd ps (\<lambda>z. Q (zd_r z))" if "e = ErrEOF"
  proof -
    have n: "zd_err zd = None" using err that zd(3) by simp
    have "io_reader (zipCryptoDecryptReader_Read rd)
        (\<lambda>zd. zc_source.zd_inv (\<lambda>s. I s \<and> fin s = ErrEOF) zd \<and> zd_headerDone zd \<and> zd_err zd = None)
        (\<lambda>zd. fst (zd_view (stream (zd_r zd)) (fin (zd_r zd)) zd))
        (\<lambda>zd. snd (zd_view (stream (zd_r zd)) (fin (zd_r zd)) zd)) (\<lambda>zd. rank (zd_r zd))"
      by (rule io_reader_restrict [OF zc_source.zd_reader [OF Z]])
        (auto simp: zipCryptoDecryptReader_Read_def zipCryptoDecryptReader_readHeader_def bind_eq_Some_conv split_beta split: option.splits)
    then show ?thesis
    proof (rule yieldsI)
      fix z0 k d z'
      assume z: "zc_source.zd_inv (\<lambda>s. I s \<and> fin s = ErrEOF) z0 \<and> zd_headerDone z0 \<and> zd_err z0 = None" "0 < k"
        "zipCryptoDecryptReader_Read rd z0 k = Some (d, Some ErrEOF, z')"
      then have "I (zd_r z0)" by (simp add: zc_source.zd_inv_def [OF Z])
      with z y(5) show "Q (zd_r z')"
        by (auto simp: zipCryptoDecryptReader_Read_def zipCryptoDecryptReader_readHeader_def bind_eq_Some_conv split_beta split: option.splits)
    qed (use zd that n in simp_all)
  qed
  with h err that show ?thesis by simp
qed

text \<open>
  The descriptor of 24 bytes is looked for first, and a shorter one could be taken for its end: when
  the four bytes before its last eight of payload are the signature and the numbers agree. They cannot
  for a payload of less than 128 MiB.
\<close>

definition descriptor_clear :: "byte list \<Rightarrow> FileHeader \<Rightarrow> bool" where
  "descriptor_clear P h \<longleftrightarrow> isZip64 h
     \<or> get64 (put32 dataDescriptorSignature @ put32 (CRC32 h)) \<noteq> of_nat (length P) - 8"

lemma stripped_descriptor:
  assumes "CompressedSize64 h = of_nat (length P)" "sizes_agree h" "descriptor_clear P h"
  shows "stripped (P @ descriptor False h) = (P, Some \<lparr>dd_CRC32 = CRC32 h,
    dd_CompressedSize64 = CompressedSize64 h, dd_UncompressedSize64 = UncompressedSize64 h\<rparr>)"
proof (cases "isZip64 h")
  case True
  then show ?thesis using assms(1)
    by (simp add: stripped_def strip_def descriptor_variants_def dataDescriptor64Len_def descriptor_def variant_desc_def
        uint64_of_def)
next
  case False
  then have u: "CompressedSize64 h < 0xFFFFFFFF" "UncompressedSize64 h < 0xFFFFFFFF" by (auto simp: isZip64_def)
  let ?D = "descriptor False h" and ?bs = "P @ descriptor False h"
  have D: "?D = put32 dataDescriptorSignature @ put32 (CRC32 h) @ put32 (CompressedSize h) @ put32 (UncompressedSize h)"
    using False by (simp add: descriptor_def)
  have c: "ucast (CompressedSize h) = CompressedSize64 h" "ucast (UncompressedSize h) = UncompressedSize64 h"
    using assms(2) u False by (simp_all add: sizes_agree_def ucast_u32)
  have g: "get64 (?D) = get64 (put32 dataDescriptorSignature @ put32 (CRC32 h))"
    by (simp add: D get64_le)
  have n: "get64 ?D \<noteq> of_nat (length P) - 8" using assms(3) False g by (simp add: descriptor_clear_def)
  have t: "uint64_of (int (length ?bs)) = of_nat (length P) + 16" by (simp add: uint64_of_def D)
  have "parse_variants (int (length ?bs)) ?bs descriptor_variants
      = parse_variants (int (length ?bs)) ?bs (tl descriptor_variants)"
  proof (cases "length ?bs < 24")
    case False
    then have L: "8 \<le> length P" by (simp add: D)
    then have e: "drop (length ?bs - 24) ?bs = drop (length P - 8) P @ ?D" by (simp add: D)
    have "drop 4 (drop 4 (drop (length ?bs - 24) ?bs)) = drop 8 (drop (length P - 8) P @ ?D)"
      unfolding e drop_drop by simp
    moreover have "drop 8 (drop (length P - 8) P @ ?D) = ?D" using L by simp
    ultimately have "get64 (drop 4 (drop 4 (drop (length ?bs - 24) ?bs))) \<noteq> uint64_of (int (length ?bs)) - of_nat 24"
      using n unfolding t by simp
    with False show ?thesis
      by (simp add: descriptor_variants_def dataDescriptor64Len_def dataDescriptorLen_def variant_desc_def Let_def
          del: length_append drop_append)
  qed (simp add: descriptor_variants_def dataDescriptor64Len_def)
  moreover have "parse_variants (int (length ?bs)) ?bs (tl descriptor_variants) = Some (16, \<lparr>dd_CRC32 = CRC32 h,
      dd_CompressedSize64 = CompressedSize64 h, dd_UncompressedSize64 = UncompressedSize64 h\<rparr>)"
    using assms(1) c unfolding descriptor_variants_def dataDescriptorLen_def
    by (simp add: D variant_desc_def uint64_of_def)
  ultimately show ?thesis by (simp add: stripped_def strip_def D)
qed

lemma descriptor_clear_small:
  assumes "length P < 2 ^ 27"
  shows "descriptor_clear P h"
proof -
  let ?X = "get64 (put32 dataDescriptorSignature @ put32 (CRC32 h))"
  have "ucast (get64 b) = (get32 b :: u32)" for b
    unfolding get64_def get32_def by (rule bit_word_eqI) (auto simp: bit_simps)
  then have x: "(ucast ?X :: u32) = dataDescriptorSignature" by simp
  have "?X \<noteq> of_nat (length P) - 8"
  proof
    assume e: "?X = of_nat (length P) - 8"
    show False
    proof (cases "length P < 8")
      case True
      then have "length P = 0 \<or> length P = 1 \<or> length P = 2 \<or> length P = 3 \<or> length P = 4 \<or> length P = 5
        \<or> length P = 6 \<or> length P = 7" by linarith
      then have "?X = - 8 \<or> ?X = - 7 \<or> ?X = - 6 \<or> ?X = - 5 \<or> ?X = - 4 \<or> ?X = - 3 \<or> ?X = - 2 \<or> ?X = - 1"
        by (elim disjE) (simp_all add: e)
      moreover have "(ucast (- 1 :: u64) :: u32) = - 1" by (rule bit_word_eqI) (auto simp: bit_simps)
      ultimately show False using x by (elim disjE) (simp_all add: zip_signatures)
    next
      case False
      then have "?X = of_nat (length P - 8)" by (simp add: e of_nat_diff)
      moreover have "take_bit 64 (length P - 8) = length P - 8" using assms by (simp add: take_bit_nat_eq_self)
      ultimately have "(of_nat (length P - 8) :: u32) = dataDescriptorSignature" using x by (simp add: unsigned_of_nat)
      then have "unat (of_nat (length P - 8) :: u32) = unat dataDescriptorSignature" by simp
      moreover have "unat (of_nat (length P - 8) :: u32) = length P - 8"
        using assms by (simp add: unat_of_nat take_bit_nat_eq_self)
      ultimately show False using assms by (simp add: zip_signatures)
    qed
  qed
  then show ?thesis by (simp add: descriptor_clear_def)
qed
lemma yields_weaken: "yields rd s bs Q \<Longrightarrow> (\<And>t. Q t \<Longrightarrow> Q' t) \<Longrightarrow> yields rd s bs Q'"
  unfolding yields_def by blast

text \<open>
  C12. The stripper works on a stream of any length in a buffer of 64 KiB, holding back 24 bytes; what it
  delivers, whatever the chunks of its source and the buffer of its client, is what cutting the
  descriptor off the whole byte string gives, and at the end it has that descriptor.
\<close>

theorem descriptorStripper_streams:
  assumes "delivers rd s bs ErrEOF" and "0 < k"
  shows "\<exists>n w ds. io_Copy sink_write (descriptorStripper_Read rd) k 0 empty_sink (newDescriptorStripper s True)
      = Some (n, None, w, ds) \<and> (sink_data w, ds_desc ds) = stripped bs"
proof -
  let ?R = "\<lambda>w acc. sink_good w \<and> sink_data w = acc"
  have "\<exists>w'. sink_write w p = (length p, None, w') \<and> ?R w' (acc @ p)" if "?R w acc" for w acc p
  proof -
    from that have "sink_good w" by simp
    then obtain n w' where w': "sink_write w p = (n, None, w')" "sink_good w'" using snk.write_good by blast
    with snk.write_ok [OF w'(1)] that show ?thesis by auto
  qed
  moreover have "?R empty_sink []" by simp
  ultimately obtain n w ds where
    "io_Copy sink_write (descriptorStripper_Read rd) k 0 empty_sink (newDescriptorStripper s True) = Some (n, None, w, ds)"
    "?R w ([] @ fst (stripped bs))" "ds_desc ds = snd (stripped bs)"
    by (rule yields_Copy [OF yields_strip [OF assms(1)], where R = ?R, OF _ _ assms(2)])
  then show ?thesis by auto
qed

lemma descriptorStripper_streams_witness:
  "\<exists>n w ds. io_Copy sink_write (descriptorStripper_Read creader_Read) 2 0 empty_sink
       (newDescriptorStripper (byte_creader ([1, 2, 3] @ put32 dataDescriptorSignature @ put32 7 @ put32 3 @ put32 9)) True)
     = Some (n, None, w, ds) \<and> sink_data w = [1, 2, 3]
     \<and> ds_desc ds = Some \<lparr>dd_CRC32 = 7, dd_CompressedSize64 = 3, dd_UncompressedSize64 = 9\<rparr>"
proof -
  let ?h = "zeroFileHeader\<lparr>CRC32 := 7, CompressedSize := 3, UncompressedSize := 9, CompressedSize64 := 3, UncompressedSize64 := 9\<rparr>"
  have d: "descriptor False ?h = put32 dataDescriptorSignature @ put32 7 @ put32 3 @ put32 9"
    by (simp add: descriptor_def isZip64_def)
  have "CompressedSize64 ?h = of_nat (length ([1, 2, 3] :: byte list))" "sizes_agree ?h" by (simp_all add: sizes_agree_def)
  from stripped_descriptor [OF this descriptor_clear_small]
  have "stripped ([1, 2, 3] @ descriptor False ?h)
      = ([1, 2, 3], Some \<lparr>dd_CRC32 = 7, dd_CompressedSize64 = 3, dd_UncompressedSize64 = 9\<rparr>)" by simp
  with descriptorStripper_streams [OF delivers_byte_creader, of 2 "[1, 2, 3] @ descriptor False ?h"]
  show ?thesis unfolding d by simp
qed

end
