(* ===== verification/Zip_Filter.thy ===== *)
theory Zip_Filter
  imports Zip_Contents Zip_Extra
begin

text \<open>
  filter.go: \<open>FilterZipStream\<close> copies the selected entries of an archive, read once from a stream, to
  a writer and makes a directory for them. What it makes of an archive of the package is the archive
  of the selected entries.
\<close>

section \<open>\<open>io.CopyN\<close>\<close>

text \<open>
  \<open>io.CopyN\<close> is \<open>io.Copy\<close> from an \<open>io.LimitedReader\<close>; \<open>k\<close> is the size of the buffer, which \<open>io.Copy\<close> makes
  no larger than the limit, and of 8 KiB when the destination is \<open>io.Discard\<close>.
\<close>

definition copy_buffer :: "int \<Rightarrow> nat" where
  "copy_buffer n = nat (max 1 (min n (32 * 1024)))"

definition io_CopyN ::
  "'w write_fn \<Rightarrow> 's read_fn \<Rightarrow> nat \<Rightarrow> int \<Rightarrow> 'w \<Rightarrow> 's
     \<Rightarrow> (nat \<times> zip_error option \<times> 'w \<times> 's) option" where
  "io_CopyN wr rd k n w s = do {
     (m, err, w, l) \<leftarrow> io_Copy wr (limited_Read rd) k 0 w \<lparr>lim_R = s, lim_N = n\<rparr>;
     Some (m, (if int m = n then None else if int m < n \<and> err = None then Some ErrEOF else err), w, lim_R l) }"

definition discard_Write :: "unit write_fn" where
  "discard_Write w p = (length p, None, w)"

section \<open>\<open>FilterZipStream\<close>\<close>

record ('s, 'w) filter_state =
  fs_stream :: 's
  fs_w :: 'w
  fs_streamOffset :: int
  fs_outOffset :: int

text \<open>
  A piece of the body: it runs on the locals, the stream and the writer, and either goes on with a
  value or returns an error; \<open>bindF\<close> is \<open>if err != nil { return err }\<close> after a piece.
\<close>

type_synonym ('s, 'w, 'a) filter_op =
  "('s, 'w) filter_state \<Rightarrow> ('a result \<times> ('s, 'w) filter_state) option"

definition returnF :: "'a \<Rightarrow> ('s, 'w, 'a) filter_op" where
  "returnF x st = Some (Inr x, st)"

definition bindF :: "('s, 'w, 'a) filter_op \<Rightarrow> ('a \<Rightarrow> ('s, 'w, 'b) filter_op) \<Rightarrow> ('s, 'w, 'b) filter_op" where
  "bindF m f st = do {
     (r, st) \<leftarrow> m st;
     (case r of Inl e \<Rightarrow> Some (Inl e, st) | Inr x \<Rightarrow> f x st) }"

definition err_op :: "zip_error option \<Rightarrow> unit result" where
  "err_op err = (case err of Some e \<Rightarrow> Inl e | None \<Rightarrow> Inr ())"

definition filter_read :: "'s read_fn \<Rightarrow> nat \<Rightarrow> ('s, 'w, byte list) filter_op" where
  "filter_read rd n st = do {
     (d, err, s) \<leftarrow> io_ReadFull rd n (fs_stream st);
     Some (case err of Some e \<Rightarrow> Inl e | None \<Rightarrow> Inr d, st\<lparr>fs_stream := s\<rparr>) }"

definition filter_write :: "'w write_fn \<Rightarrow> byte list \<Rightarrow> ('s, 'w, unit) filter_op" where
  "filter_write wr p st = (case wr (fs_w st) p of (_, err, w) \<Rightarrow> Some (err_op err, st\<lparr>fs_w := w\<rparr>))"

definition filter_copy :: "'s read_fn \<Rightarrow> 'w write_fn \<Rightarrow> int \<Rightarrow> ('s, 'w, unit) filter_op" where
  "filter_copy rd wr n st = do {
     (m, err, w, s) \<leftarrow> io_CopyN wr rd (copy_buffer n) n (fs_w st) (fs_stream st);
     Some (err_op err, st\<lparr>fs_stream := s, fs_w := w, fs_streamOffset := add64 (fs_streamOffset st) (int m),
        fs_outOffset := add64 (fs_outOffset st) (int m)\<rparr>) }"

text \<open>\<open>streamOffset += n\<close> and \<open>outOffset += n\<close>.\<close>

definition read_more :: "int \<Rightarrow> ('s, 'w, unit) filter_op" where
  "read_more n st = Some (Inr (), st\<lparr>fs_streamOffset := add64 (fs_streamOffset st) n\<rparr>)"

definition written_more :: "int \<Rightarrow> ('s, 'w, unit) filter_op" where
  "written_more n st = Some (Inr (), st\<lparr>fs_outOffset := add64 (fs_outOffset st) n\<rparr>)"

text \<open>Fast-forward the stream to the local header.\<close>

definition filter_seek :: "'s read_fn \<Rightarrow> File \<Rightarrow> ('s, 'w, unit) filter_op" where
  "filter_seek rd f st =
     (if fs_streamOffset st < headerOffset f then do {
        (skipped, err, _, s) \<leftarrow> io_CopyN discard_Write rd 8192 (headerOffset f - fs_streamOffset st) () (fs_stream st);
        Some (err_op err, st\<lparr>fs_stream := s, fs_streamOffset := add64 (fs_streamOffset st) (int skipped)\<rparr>) }
      else Some (if headerOffset f < fs_streamOffset st then Inl ErrBackwards else Inr (), st))"

text \<open>The local header with its name and extra field; the result is \<open>localZip64\<close>.\<close>

definition filter_local :: "'s read_fn \<Rightarrow> 'w write_fn \<Rightarrow> ('s, 'w, bool) filter_op" where
  "filter_local rd wr =
     bindF (filter_read rd fileHeaderLen) (\<lambda>lHead.
       if get32 lHead \<noteq> fileHeaderSignature then (\<lambda>st. Some (Inl ErrFormat, st))
       else let nameLen = unat (get16 (drop 26 lHead)); extraLen = unat (get16 (drop 28 lHead)) in
         bindF (filter_read rd (nameLen + extraLen)) (\<lambda>nameExtra.
           let n = int (length lHead + length nameExtra);
               localZip64 = (length (removeExtraField (drop nameLen nameExtra) zip64ExtraId) \<noteq> extraLen)
           in bindF (read_more n) (\<lambda>_.
             bindF (filter_write wr lHead) (\<lambda>_.
               bindF (filter_write wr nameExtra) (\<lambda>_.
                 bindF (written_more n) (\<lambda>_. returnF localZip64))))))"

definition filter_descriptor :: "'s read_fn \<Rightarrow> 'w write_fn \<Rightarrow> bool \<Rightarrow> File \<Rightarrow> ('s, 'w, unit) filter_op" where
  "filter_descriptor rd wr localZip64 f =
     bindF (filter_read rd 4) (\<lambda>sig.
       bindF (filter_write wr sig) (\<lambda>_.
         bindF (read_more 4) (\<lambda>_.
           bindF (written_more 4) (\<lambda>_.
             let remaining = (if localZip64 \<or> isZip64 (f_hdr f) then 16 else 8);
                 remaining = (if get32 sig = dataDescriptorSignature then remaining + 4 else remaining)
             in filter_copy rd wr remaining))))"

text \<open>The body of the loop: the result is \<open>newOffsets[i]\<close>.\<close>

definition filter_entry :: "'s read_fn \<Rightarrow> 'w write_fn \<Rightarrow> File \<Rightarrow> ('s, 'w, int) filter_op" where
  "filter_entry rd wr f =
     bindF (filter_seek rd f) (\<lambda>_ st.
       (let newOffset = fs_outOffset st in
        bindF (filter_local rd wr) (\<lambda>localZip64.
          bindF (filter_copy rd wr (int64_of (CompressedSize64 (f_hdr f)))) (\<lambda>_.
            bindF (if hasDataDescriptor (f_hdr f) then filter_descriptor rd wr localZip64 f else returnF ())
              (\<lambda>_. returnF newOffset)))) st)"

fun filter_loop :: "'s read_fn \<Rightarrow> 'w write_fn \<Rightarrow> File list \<Rightarrow> int list \<Rightarrow> ('s, 'w, int list) filter_op" where
  "filter_loop rd wr [] newOffsets = returnF newOffsets"
| "filter_loop rd wr (f # fs) newOffsets =
     bindF (filter_entry rd wr f) (\<lambda>newOffset. filter_loop rd wr fs (newOffsets @ [newOffset]))"

text \<open>The header of an entry in the new directory.\<close>

definition filtered_header :: "File \<Rightarrow> FileHeader" where
  "filtered_header f =
     (let fh = f_hdr f;
          fh = fh\<lparr>Extra := removeExtraField (removeExtraField (Extra fh) zip64ExtraId) xxh3ExtraId\<rparr>;
          fh = fh\<lparr>CompressedSize := ucast (min (CompressedSize64 fh) uint32max),
                  UncompressedSize := ucast (min (UncompressedSize64 fh) uint32max)\<rparr>
      in if ae fh \<noteq> 0 then fh\<lparr>Method := winzipAesMethod\<rparr> else fh)"

fun filter_headers :: "File list \<Rightarrow> int list \<Rightarrow> sink \<Rightarrow> zip_error option \<times> sink" where
  "filter_headers (f # fs) (off # offs) buf =
     (case writeDirectoryHeader sink_write (filtered_header f) (uint64_of off) buf of
        (Some e, buf) \<Rightarrow> (Some e, buf)
      | (None, buf) \<Rightarrow> filter_headers fs offs buf)"
| "filter_headers _ _ buf = (None, buf)"

text \<open>\<open>buf\<close> is a \<open>bytes.Buffer\<close>; \<open>sort.SliceStable\<close> is a stable sort.\<close>

definition FilterZipStream ::
  "'s read_fn \<Rightarrow> 'w write_fn \<Rightarrow> (File \<Rightarrow> bool) \<Rightarrow> Reader \<Rightarrow> 's \<Rightarrow> 'w \<Rightarrow> (zip_error option \<times> 's \<times> 'w) option" where
  "FilterZipStream rd wr fil r stream w = do {
     let matchedFiles = sort_key headerOffset (filter fil (rdr_File r));
     (res, st) \<leftarrow> filter_loop rd wr matchedFiles []
       \<lparr>fs_stream = stream, fs_w = w, fs_streamOffset = 0, fs_outOffset = 0\<rparr>;
     Some (case res of
       Inl e \<Rightarrow> (Some e, fs_stream st, fs_w st)
     | Inr newOffsets \<Rightarrow>
         (case filter_headers matchedFiles newOffsets empty_sink of
            (Some e, buf) \<Rightarrow> (Some e, fs_stream st, fs_w st)
          | (None, buf) \<Rightarrow>
              (case writeDirectoryEnd sink_write (of_nat (length matchedFiles)) (of_nat (length (sink_data buf)))
                      (uint64_of (fs_outOffset st)) buf of
                 (Some e, buf) \<Rightarrow> (Some e, fs_stream st, fs_w st)
               | (None, buf) \<Rightarrow>
                   (case wr (fs_w st) (sink_data buf) of (_, err, w) \<Rightarrow> (err, fs_stream st, w))))) }"

section \<open>What \<open>CopyN\<close> does\<close>

lemma Copy_discard:
  assumes "io_reader rd I stream fin rank"
  shows "I s \<Longrightarrow> 0 < k \<Longrightarrow> \<exists>s'. io_Copy discard_Write rd k m () s =
      Some (m + length (stream s), if fin s = ErrEOF then None else Some (fin s), (), s') \<and> I s' \<and> stream s' = []"
proof (induction "rank s" arbitrary: s m rule: less_induct)
  case less
  obtain d er s' where r: "rd s k = Some (d, er, s')"
    using io_reader.read_returns [OF assms less.prems] by blast
  note l = io_reader.read_law [OF assms less.prems r]
  have w: "(if d = [] then (0, None, ()) else discard_Write () d) = (length d, None, ())"
    by (simp add: discard_Write_def)
  show ?case
  proof (cases er)
    case (Some e)
    with io_reader.read_end [OF assms less.prems, of d e s'] r l w show ?thesis
      by (subst io_Copy.simps) simp
  next
    case None
    then have "rank s' < rank s" using io_reader.read_more [OF assms less.prems, of d s'] r by simp
    from less.hyps [OF this _ less.prems(2), of "m + length d"] l obtain s2 where
      "io_Copy discard_Write rd k (m + length d) () s' =
        Some (m + length d + length (stream s'), if fin s' = ErrEOF then None else Some (fin s'), (), s2)"
      "I s2" "stream s2 = []" by auto
    with r l w None show ?thesis by (subst io_Copy.simps) (simp add: add.assoc)
  qed
qed

text \<open>What a limited reader has left determines what the source behind it has.\<close>

definition lim_at :: "('s \<Rightarrow> bool) \<Rightarrow> ('s \<Rightarrow> byte list) \<Rightarrow> byte list \<Rightarrow> nat \<Rightarrow> 's limited \<Rightarrow> bool" where
  "lim_at I stream bs n l \<longleftrightarrow> I (lim_R l) \<and> 0 \<le> lim_N l
     \<and> (\<exists>c. bs = c @ stream (lim_R l) \<and> length c + nat (lim_N l) = n)"

context limited_source
begin

lemma lim_source:
  "io_reader (limited_Read rd) (\<lambda>l. (inv (lim_R l) \<and> fin (lim_R l) = ErrEOF)
      \<and> lim_at inv stream bs n l)
    (\<lambda>l. take (nat (lim_N l)) (stream (lim_R l))) (\<lambda>_. ErrEOF) (\<lambda>l. rank (lim_R l))"
proof (rule io_reader_restrict [OF lim.io_reader_axioms])
  fix l k d e l'
  assume a: "inv (lim_R l) \<and> fin (lim_R l) = ErrEOF" "0 < k" "lim_at inv stream bs n l"
    "limited_Read rd l k = Some (d, e, l')"
  show "lim_at inv stream bs n l'"
  proof (cases "lim_N l \<le> 0")
    case True
    with a show ?thesis by (auto simp: limited_Read_def)
  next
    case False
    with a(4) obtain r where r: "rd (lim_R l) (min k (nat (lim_N l))) = Some (d, e, r)"
      and l': "l' = l\<lparr>lim_R := r, lim_N := lim_N l - int (length d)\<rparr>"
      by (auto simp: limited_Read_def bind_eq_Some_conv split: prod.splits)
    from False a have *: "inv r \<and> length d \<le> min k (nat (lim_N l)) \<and> stream (lim_R l) = d @ stream r
        \<and> fin r = fin (lim_R l) \<and> rank r \<le> rank (lim_R l)"
      by (intro read_law [OF _ _ r]) auto
    obtain c where c: "bs = c @ stream (lim_R l)" "length c + nat (lim_N l) = n"
      using a(3) by (auto simp: lim_at_def)
    have "bs = (c @ d) @ stream r" using c * by simp
    moreover have "length (c @ d) + nat (lim_N l - int (length d)) = n" using c * False by auto
    moreover have "0 \<le> lim_N l - int (length d)" using * False by auto
    ultimately show ?thesis using * unfolding l' lim_at_def by auto
  qed
qed

lemma lim_done:
  assumes "lim_at inv stream bs n l" "take (nat (lim_N l)) (stream (lim_R l)) = []"
  shows "stream (lim_R l) = drop n bs"
  using assms by (auto simp: lim_at_def)

lemma CopyN_discard:
  assumes "inv s" "fin s = ErrEOF" "0 < k" "n \<le> length (stream s)"
  obtains s' where "io_CopyN discard_Write rd k (int n) () s = Some (n, None, (), s')"
    "inv s'" "fin s' = ErrEOF" "stream s' = drop n (stream s)"
proof -
  let ?l = "\<lparr>lim_R = s, lim_N = int n\<rparr>"
  have "(inv (lim_R ?l) \<and> fin (lim_R ?l) = ErrEOF) \<and> lim_at inv stream (stream s) n ?l"
    using assms by (simp add: lim_at_def)
  from Copy_discard [OF lim_source this assms(3), of 0] assms(4) obtain l where
    l: "io_Copy discard_Write (limited_Read rd) k 0 () ?l = Some (n, None, (), l)"
    "inv (lim_R l)" "fin (lim_R l) = ErrEOF" "lim_at inv stream (stream s) n l"
    "take (nat (lim_N l)) (stream (lim_R l)) = []" by (auto simp: min_def)
  from l(1) have "io_CopyN discard_Write rd k (int n) () s = Some (n, None, (), lim_R l)"
    by (simp add: io_CopyN_def)
  with that l(2,3) lim_done [OF l(4,5)] show ?thesis by blast
qed

lemma CopyN_good:
  assumes "io_writer wr out good" "good w" "inv s" "fin s = ErrEOF" "0 < k" "n \<le> length (stream s)"
  obtains w' s' where "io_CopyN wr rd k (int n) w s = Some (n, None, w', s')"
    "good w'" "out w' = out w @ take n (stream s)" "inv s'" "fin s' = ErrEOF" "stream s' = drop n (stream s)"
proof -
  let ?l = "\<lparr>lim_R = s, lim_N = int n\<rparr>"
  have i: "(inv (lim_R ?l) \<and> fin (lim_R ?l) = ErrEOF) \<and> lim_at inv stream (stream s) n ?l"
    using assms by (simp add: lim_at_def)
  from io_pipe.Copy_spec [OF io_pipe.intro [OF lim_source assms(1)] i assms(5), of 0 w] assms(2,6)
  obtain w' l where
    l: "io_Copy wr (limited_Read rd) k 0 w ?l = Some (n, None, w', l)"
    "inv (lim_R l)" "fin (lim_R l) = ErrEOF" "lim_at inv stream (stream s) n l"
    "take (nat (lim_N l)) (stream (lim_R l)) = []" "good w'" "out w' = out w @ take n (stream s)"
    by (auto simp: min_def)
  from l(1) have "io_CopyN wr rd k (int n) w s = Some (n, None, w', lim_R l)"
    by (simp add: io_CopyN_def)
  with that l(2,3,6,7) lim_done [OF l(4,5)] show ?thesis by blast
qed

end

section \<open>Copying an entry\<close>

locale filter_run = limited_source rd inv stream fin rank + dst: io_writer wr out good
  for rd :: "'s read_fn" and inv :: "'s \<Rightarrow> bool" and stream :: "'s \<Rightarrow> byte list"
    and fin :: "'s \<Rightarrow> zip_error" and rank :: "'s \<Rightarrow> nat"
    and wr :: "'w write_fn" and out :: "'w \<Rightarrow> byte list" and good :: "'w \<Rightarrow> bool"
  + fixes A :: "byte list" and base :: "byte list"
begin

text \<open>
  The stream of \<open>A\<close> stands at \<open>p\<close>, the locals say \<open>a\<close> and \<open>b\<close>, and \<open>B\<close> has been written.
\<close>

definition at :: "nat \<Rightarrow> nat \<Rightarrow> byte list \<Rightarrow> nat \<Rightarrow> ('s, 'w) filter_state \<Rightarrow> bool" where
  "at p a B b st \<longleftrightarrow> inv (fs_stream st) \<and> fin (fs_stream st) = ErrEOF \<and> stream (fs_stream st) = drop p A
     \<and> p \<le> length A \<and> length A < 2 ^ 63 \<and> good (fs_w st) \<and> out (fs_w st) = base @ B
     \<and> fs_streamOffset st = int a \<and> fs_outOffset st = int b"

lemma add64_nat: "a + n \<le> length A \<Longrightarrow> length A < 2 ^ 63 \<Longrightarrow> add64 (int a) (int n) = int (a + n)"
  by (subst add64_exact) (simp_all add: in_int64_def)

lemma at_read:
  assumes "at p a B b st" "p + n \<le> length A"
  obtains st' where "filter_read rd n st = Some (Inr (take n (drop p A)), st')" "at (p + n) a B b st'"
proof -
  from assms(1) have i: "inv (fs_stream st)" "fin (fs_stream st) = ErrEOF" "stream (fs_stream st) = drop p A"
    by (simp_all add: at_def)
  obtain s' where s': "io_ReadFull rd n (fs_stream st) = Some (take n (drop p A), readFull_err n (drop p A) ErrEOF, s')"
    "inv s'" "fin s' = ErrEOF" "stream s' = drop n (drop p A)"
    using ReadFull_spec [OF i(1), of n] i(2,3) by metis
  have "readFull_err n (drop p A) ErrEOF = None" using assms(2) by (simp add: readFull_err_def)
  with s' assms that [of "st\<lparr>fs_stream := s'\<rparr>"] show ?thesis
    by (simp add: filter_read_def at_def add.commute)
qed

lemma at_write:
  assumes "at p a B b st"
  obtains st' where "filter_write wr d st = Some (Inr (), st')" "at p a (B @ d) b st'"
proof -
  from assms have g: "good (fs_w st)" by (simp add: at_def)
  obtain n w' where w': "wr (fs_w st) d = (n, None, w')" "good w'" using dst.write_good [OF g] by blast
  with dst.write_ok [OF w'(1)] assms that [of "st\<lparr>fs_w := w'\<rparr>"] show ?thesis
    by (simp add: filter_write_def at_def err_op_def)
qed

lemma at_read_more:
  assumes "at p a B b st" "a + n \<le> length A"
  obtains st' where "read_more (int n) st = Some (Inr (), st')" "at p (a + n) B b st'"
  using assms add64_nat [OF assms(2)] that [of "st\<lparr>fs_streamOffset := add64 (fs_streamOffset st) (int n)\<rparr>"]
  by (simp add: at_def read_more_def)

lemma at_written_more:
  assumes "at p a B b st" "b + n \<le> length A"
  obtains st' where "written_more (int n) st = Some (Inr (), st')" "at p a B (b + n) st'"
  using assms add64_nat [OF assms(2)] that [of "st\<lparr>fs_outOffset := add64 (fs_outOffset st) (int n)\<rparr>"]
  by (simp add: at_def written_more_def)

lemma at_copy:
  assumes "at p a B b st" "p + n \<le> length A" "a + n \<le> length A" "b + n \<le> length A"
  obtains st' where "filter_copy rd wr (int n) st = Some (Inr (), st')"
    "at (p + n) (a + n) (B @ take n (drop p A)) (b + n) st'"
proof -
  from assms(1) have i: "inv (fs_stream st)" "fin (fs_stream st) = ErrEOF" "stream (fs_stream st) = drop p A"
    "good (fs_w st)" "out (fs_w st) = base @ B" and small: "length A < 2 ^ 63" by (simp_all add: at_def)
  have "0 < copy_buffer (int n)" "n \<le> length (stream (fs_stream st))"
    using assms(1,2) i(3) by (simp_all add: copy_buffer_def at_def)
  then obtain w' s' where c: "io_CopyN wr rd (copy_buffer (int n)) (int n) (fs_w st) (fs_stream st) = Some (n, None, w', s')"
    "good w'" "out w' = out (fs_w st) @ take n (stream (fs_stream st))" "inv s'" "fin s' = ErrEOF"
    "stream s' = drop n (stream (fs_stream st))"
    by (rule CopyN_good [OF dst.io_writer_axioms i(4,1,2)])
  have "fs_streamOffset st = int a" "fs_outOffset st = int b" using assms(1) by (simp_all add: at_def)
  with c i small assms(2) add64_nat [OF assms(3) small] add64_nat [OF assms(4) small] that
  show ?thesis by (simp add: filter_copy_def at_def err_op_def add.commute)
qed

lemma at_seek:
  assumes "at p p B b st" "headerOffset f = int q" "p \<le> q" "q \<le> length A"
  obtains st' where "filter_seek rd f st = Some (Inr (), st')" "at q q B b st'"
proof (cases "p = q")
  case True
  with assms that [of st] show ?thesis by (simp add: filter_seek_def at_def)
next
  case False
  from assms(1) have i: "inv (fs_stream st)" "fin (fs_stream st) = ErrEOF" "stream (fs_stream st) = drop p A"
    "fs_streamOffset st = int p" and small: "length A < 2 ^ 63" by (simp_all add: at_def)
  obtain s' where c: "io_CopyN discard_Write rd 8192 (int (q - p)) () (fs_stream st) = Some (q - p, None, (), s')"
    "inv s'" "fin s' = ErrEOF" "stream s' = drop (q - p) (stream (fs_stream st))"
    by (rule CopyN_discard [OF i(1,2), of 8192 "q - p"]) (use i(3) assms(3,4) in auto)
  have "headerOffset f - fs_streamOffset st = int (q - p)" using i(4) assms(2,3) by simp
  moreover have "add64 (int p) (int (q - p)) = int q" using add64_nat [of p "q - p"] assms(3,4) small by simp
  ultimately show ?thesis
    using c i assms False that [of "st\<lparr>fs_stream := s', fs_streamOffset := int q\<rparr>"]
    by (simp add: filter_seek_def at_def err_op_def)
qed

lemma bindF_run: "m st = Some (Inr x, st') \<Longrightarrow> bindF m f st = f x st'"
  by (simp add: bindF_def)

end

interpretation fcr: filter_run creader_Read "\<lambda>_. True" creader_stream cr_end creader_rank
  sink_write sink_data sink_good A base for A base
  by unfold_locales

lemma removeExtraField_join:
  assumes "wfExtra fs"
  shows "removeExtraField (joinExtra fs) i = joinExtra (filter (\<lambda>(t, d). t \<noteq> i) fs)"
  using splitExtra_joinExtra [OF assms, of "[]"] splitExtra_stop [of "[]"]
  by (simp add: removeExtraField_split)

lemma local_header_fields:
  assumes "header_fits h"
  shows "get32 (fileHeader_wire h) = fileHeaderSignature"
    "unat (get16 (drop 26 (fileHeader_wire h))) = length (Name h)"
    "unat (get16 (drop 28 (fileHeader_wire h))) = length (Extra h)"
  using assms by (simp_all add: fileHeader_wire_def header_fits_def)

context filter_run
begin

lemma bindF_step: "m st = Some (Inr x, st') \<Longrightarrow> f x st' = r \<Longrightarrow> bindF m f st = r"
  by (simp add: bindF_run)

lemma filter_local_written:
  assumes "at p p B (length B) st" "drop p A = (fileHeader_wire h @ Name h @ Extra h) @ rest"
    and h: "header_fits h" "removeExtraField (Extra h) zip64ExtraId = Extra h" and "length B \<le> p"
  obtains st' where "filter_local rd wr st = Some (Inr False, st')"
    "at (p + length (fileHeader_wire h @ Name h @ Extra h)) (p + length (fileHeader_wire h @ Name h @ Extra h))
       (B @ fileHeader_wire h @ Name h @ Extra h) (length (B @ fileHeader_wire h @ Name h @ Extra h)) st'"
proof -
  let ?H = "fileHeader_wire h" and ?N = "Name h @ Extra h"
  let ?n = "length (?H @ ?N)"
  have "p \<le> length A" using assms(1) by (simp add: at_def)
  then have len: "p + ?n \<le> length A" using arg_cong [OF assms(2), of length] by simp
  obtain s1 where s1: "filter_read rd 30 st = Some (Inr ?H, s1)" "at (p + 30) p B (length B) s1"
    using at_read [OF assms(1), of 30] len assms(2) by auto
  have d: "drop (p + 30) A = ?N @ rest"
    using arg_cong [OF assms(2), of "drop 30"] by (simp add: add.commute)
  obtain s2 where s2: "filter_read rd (length (Name h) + length (Extra h)) s1 = Some (Inr ?N, s2)"
    "at (p + ?n) p B (length B) s2"
    using at_read [OF s1(2), of "length ?N"] len d by (auto simp: add.assoc)
  obtain s3 where s3: "read_more (int ?n) s2 = Some (Inr (), s3)" "at (p + ?n) (p + ?n) B (length B) s3"
    using at_read_more [OF s2(2) len] by blast
  obtain s4 where s4: "filter_write wr ?H s3 = Some (Inr (), s4)" "at (p + ?n) (p + ?n) (B @ ?H) (length B) s4"
    using at_write [OF s3(2)] by blast
  obtain s5 where s5: "filter_write wr ?N s4 = Some (Inr (), s5)" "at (p + ?n) (p + ?n) ((B @ ?H) @ ?N) (length B) s5"
    using at_write [OF s4(2)] by blast
  have "length B + ?n \<le> length A" using len assms(5) by linarith
  from at_written_more [OF s5(2) this] obtain s6 where
    s6: "written_more (int ?n) s5 = Some (Inr (), s6)" "at (p + ?n) (p + ?n) ((B @ ?H) @ ?N) (length B + ?n) s6"
    by blast
  note f = local_header_fields [OF h(1)]
  have i: "int (length ?H + length ?N) = int ?n" by simp
  have "filter_local rd wr st = Some (Inr False, s6)"
    unfolding filter_local_def fileHeaderLen_def
    by (rule bindF_step, rule s1(1), simp only: f Let_def simp_thms if_False if_True not_False_eq_True,
        rule bindF_step, rule s2(1), simp only: i Let_def,
        rule bindF_step, rule s3(1), rule bindF_step, rule s4(1), rule bindF_step, rule s5(1),
        rule bindF_step, rule s6(1), simp add: returnF_def h(2))
  moreover have "length B + ?n = length (B @ ?H @ ?N)" "(B @ ?H) @ ?N = B @ ?H @ ?N" by simp_all
  ultimately show ?thesis using s6(2) that by metis
qed

lemma filter_descriptor_written:
  assumes "at p p B (length B) st" "drop p A = descriptor aes h @ rest" "aes \<Longrightarrow> CRC32 h = 0"
    and "isZip64 (f_hdr f) = isZip64 h" "length B \<le> p"
  obtains st' where "filter_descriptor rd wr False f st = Some (Inr (), st')"
    "at (p + length (descriptor aes h)) (p + length (descriptor aes h)) (B @ descriptor aes h)
       (length (B @ descriptor aes h)) st'"
proof -
  let ?D = "descriptor aes h"
  let ?sig = "take 4 ?D" and ?m = "(if isZip64 h then 20 else 12) - (if aes then 4 else 0) :: nat"
  have l: "length ?D = 4 + ?m" by (simp add: length_descriptor)
  have "p \<le> length A" using assms(1) by (simp add: at_def)
  then have len: "p + (4 + ?m) \<le> length A" using arg_cong [OF assms(2), of length] l by simp
  obtain s1 where s1: "filter_read rd 4 st = Some (Inr ?sig, s1)" "at (p + 4) p B (length B) s1"
    using at_read [OF assms(1), of 4] len assms(2) l by auto
  obtain s2 where s2: "filter_write wr ?sig s1 = Some (Inr (), s2)" "at (p + 4) p (B @ ?sig) (length B) s2"
    using at_write [OF s1(2)] by blast
  obtain s3 where s3: "read_more (int 4) s2 = Some (Inr (), s3)" "at (p + 4) (p + 4) (B @ ?sig) (length B) s3"
    using at_read_more [OF s2(2), of 4] len by auto
  obtain s4 where s4: "written_more (int 4) s3 = Some (Inr (), s4)" "at (p + 4) (p + 4) (B @ ?sig) (length B + 4) s4"
    using at_written_more [OF s3(2), of 4] len assms(5) by auto
  obtain s5 where s5: "filter_copy rd wr (int ?m) s4 = Some (Inr (), s5)"
    "at (p + 4 + ?m) (p + 4 + ?m) ((B @ ?sig) @ take ?m (drop (p + 4) A)) (length B + 4 + ?m) s5"
    by (rule at_copy [OF s4(2), of ?m]) (use len assms(5) in linarith)+
  have "drop (p + 4) A = drop 4 ?D @ rest" using arg_cong [OF assms(2), of "drop 4"] l by (simp add: add.commute)
  then have t: "take ?m (drop (p + 4) A) = drop 4 ?D" using l by simp
  have sig: "?sig = put32 (if aes then 0 else dataDescriptorSignature)"
    using assms(3) by (cases aes) (simp_all add: descriptor_def)
  have "get32 ?sig = (if aes then 0 else dataDescriptorSignature)" unfolding sig by simp
  then have m: "(if get32 ?sig = dataDescriptorSignature then (if False \<or> isZip64 (f_hdr f) then 16 else 8) + 4
       else (if False \<or> isZip64 (f_hdr f) then 16 else 8)) = int ?m"
    using assms(4) by (simp add: zip_signatures)
  have "filter_descriptor rd wr False f st = Some (Inr (), s5)"
    unfolding filter_descriptor_def
    by (rule bindF_step, rule s1(1), rule bindF_step, rule s2(1), rule bindF_step, rule s3(1) [unfolded of_nat_numeral],
        rule bindF_step, rule s4(1) [unfolded of_nat_numeral], unfold Let_def m, rule s5(1))
  moreover have "p + 4 + ?m = p + length ?D" "length B + 4 + ?m = length (B @ ?D)" "(B @ ?sig) @ drop 4 ?D = B @ ?D"
    using l by simp_all
  ultimately show ?thesis using s5(2) that unfolding t by metis
qed

end

lemma header_plain_extra:
  assumes "header_plain fh"
  obtains fs where "plain_fields fs" "Extra fh = joinExtra fs"
    "Extra (job_header fh) = joinExtra (fs @ aes_field (job_aes fh))" "wfExtra (fs @ aes_field (job_aes fh))"
    "\<forall>(t, d) \<in> set (fs @ aes_field (job_aes fh)). t \<noteq> zip64ExtraId \<and> t \<noteq> xxh3ExtraId"
proof -
  obtain fs where fs: "plain_fields fs" "Extra fh = joinExtra fs" using assms by (auto simp: header_plain_def)
  moreover have "wfExtra (aes_field (job_aes fh))" by (auto simp: aes_field_def wfExtra_def split: option.splits)
  moreover have "\<forall>(t, d) \<in> set (aes_field (job_aes fh)). t \<noteq> zip64ExtraId \<and> t \<noteq> xxh3ExtraId"
    by (auto simp: aes_field_def zip_ids split: option.splits)
  ultimately show ?thesis using that [of fs] by (auto simp: plain_fields_def)
qed

lemma filter_tags_id: "\<forall>(t, d) \<in> set fs. t \<noteq> i \<Longrightarrow> filter (\<lambda>(t, d). t \<noteq> i) fs = fs"
  by (induction fs) auto

context filter_run
begin

lemma filter_entry_written:
  fixes V :: "('z, 'c) writer_env"
  assumes st: "at p p B (length B) st" "length B \<le> p" "p \<le> length pre"
    and A: "A = pre @ job_image V j fh enc @ post"
    and fh: "header_fits (job_header fh)" "header_plain fh"
    and f: "headerOffset f = int (length pre)" "f_hdr f = read_header (job_final V j fh enc) off aes"
  obtains st' where "filter_entry rd wr f st = Some (Inr (int (length B)), st')"
    "at (length pre + length (job_image V j fh enc)) (length pre + length (job_image V j fh enc))
       (B @ job_image V j fh enc) (length (B @ job_image V j fh enc)) st'"
proof -
  let ?h = "job_header fh" and ?P = "job_payload V j fh enc" and ?l = "job_final V j fh enc"
  let ?L = "fileHeader_wire ?h @ Name ?h @ Extra ?h" and ?D = "descriptor (writesAES fh) ?l"
  have I: "job_image V j fh enc = ?L @ ?P @ ?D"
    by (simp add: job_image_def entry_image_def job_payload_def kind_is_aes_job)
  have q: "drop (length pre) A = ?L @ ?P @ ?D @ post" by (simp add: A I)
  have len: "length A = length pre + length ?L + length ?P + length ?D + length post" by (simp add: A I)
  have small: "length A < 2 ^ 63" using st(1) by (simp add: at_def)
  obtain s1 where s1: "filter_seek rd f st = Some (Inr (), s1)" "at (length pre) (length pre) B (length B) s1"
    by (rule at_seek [OF st(1) f(1) st(3)]) (simp_all add: A)
  obtain fs where fs: "Extra ?h = joinExtra (fs @ aes_field (job_aes fh))" "wfExtra (fs @ aes_field (job_aes fh))"
    "\<forall>(t, d) \<in> set (fs @ aes_field (job_aes fh)). t \<noteq> zip64ExtraId \<and> t \<noteq> xxh3ExtraId"
    by (rule header_plain_extra [OF fh(2)])
  have "filter (\<lambda>(t, d). t \<noteq> zip64ExtraId) (fs @ aes_field (job_aes fh)) = fs @ aes_field (job_aes fh)"
    by (rule filter_tags_id) (use fs(3) in auto)
  then have x: "removeExtraField (Extra ?h) zip64ExtraId = Extra ?h"
    unfolding fs(1) by (simp only: removeExtraField_join [OF fs(2)])
  have Bl: "length B \<le> length pre" using st(2,3) by simp
  obtain s2 where s2: "filter_local rd wr s1 = Some (Inr False, s2)"
    "at (length pre + length ?L) (length pre + length ?L) (B @ ?L) (length (B @ ?L)) s2"
    by (rule filter_local_written [OF s1(2) q fh(1) x Bl])
  have sz: "CompressedSize64 (f_hdr f) = of_nat (length ?P)" "isZip64 (f_hdr f) = isZip64 ?l"
    "hasDataDescriptor (f_hdr f)" "writesAES fh \<Longrightarrow> CRC32 ?l = 0"
    using flag_or_eight(2)
    by (simp_all add: f(2) read_header_fields final_fields [OF refl] isZip64_def hasDataDescriptor_def)
  have i: "int64_of (CompressedSize64 (f_hdr f)) = int (length ?P)"
    by (rule int64_of_length [OF sz(1)]) (use small len in simp)
  have d2: "drop (length pre + length ?L) A = ?P @ ?D @ post"
    using arg_cong [OF q, of "drop (length ?L)"] by (simp add: add.commute)
  obtain s3 where s3: "filter_copy rd wr (int (length ?P)) s2 = Some (Inr (), s3)"
    "at (length pre + length ?L + length ?P) (length pre + length ?L + length ?P)
      ((B @ ?L) @ take (length ?P) (drop (length pre + length ?L) A)) (length (B @ ?L) + length ?P) s3"
    by (rule at_copy [OF s2(2), of "length ?P"]) (use len Bl in simp_all)
  have t: "take (length ?P) (drop (length pre + length ?L) A) = ?P" unfolding d2 by simp
  have "length (B @ ?L) + length ?P = length ((B @ ?L) @ ?P)" by simp
  note s3' = s3(2) [unfolded t this]
  have d3: "drop (length pre + length ?L + length ?P) A = ?D @ post"
    using arg_cong [OF d2, of "drop (length ?P)"] by (simp add: add.commute add.left_commute)
  have Bl2: "length ((B @ ?L) @ ?P) \<le> length pre + length ?L + length ?P" using Bl by simp
  obtain s4 where s4: "filter_descriptor rd wr False f s3 = Some (Inr (), s4)"
    "at (length pre + length ?L + length ?P + length ?D) (length pre + length ?L + length ?P + length ?D)
      (((B @ ?L) @ ?P) @ ?D) (length (((B @ ?L) @ ?P) @ ?D)) s4"
    by (rule filter_descriptor_written [OF s3' d3 sz(4,2) Bl2])
  have o: "fs_outOffset s1 = int (length B)" using s1(2) by (simp add: at_def)
  have "filter_entry rd wr f st = Some (Inr (int (length B)), s4)"
    unfolding filter_entry_def
    by (rule bindF_step, rule s1(1), simp only: Let_def o i, rule bindF_step, rule s2(1), rule bindF_step, rule s3(1),
        simp only: sz(3) if_True, rule bindF_step, rule s4(1), simp add: returnF_def)
  moreover have "length pre + length ?L + length ?P + length ?D = length pre + length (job_image V j fh enc)"
    "((B @ ?L) @ ?P) @ ?D = B @ job_image V j fh enc" by (simp_all add: I)
  ultimately show ?thesis using s4(2) that by metis
qed

text \<open>The loop over the selected entries, whatever is skipped in between.\<close>

lemma filter_loop_written:
  fixes V :: "('z, 'c) writer_env"
  assumes "A = pre @ images V hs ds @ post" "at p p B (length B) st" "length B \<le> p" "p \<le> length pre"
    and "\<forall>d \<in> set ds. header_fits (job_header (hs ! j_hdr (fst d))) \<and> header_plain (hs ! j_hdr (fst d))"
    and "es = entries_of V hs (of_nat (length pre)) ds"
    and "ks = filter (\<lambda>(d, e). keep (read_entry r sz e)) (zip ds es)"
  shows "\<exists>st'. filter_loop rd wr (map (read_entry r sz \<circ> snd) ks) offs st =
      Some (Inr (offs @ map (\<lambda>(h, off, aes). int64_of off) (entries_of V hs (of_nat (length B)) (map fst ks))), st')
    \<and> (\<exists>q. at q q (B @ images V hs (map fst ks)) (length (B @ images V hs (map fst ks))) st')"
  using assms
proof (induction ds arbitrary: pre p B st offs es ks)
  case Nil
  then show ?case by (auto simp: returnF_def)
next
  case (Cons d ds)
  obtain j enc where d: "d = (j, enc)" by (cases d)
  let ?fh = "hs ! j_hdr j" and ?I = "image_of V hs d"
  let ?e = "(final_of V hs d, of_nat (length pre) :: u64, job_aes (hs ! j_hdr (fst d)))"
  let ?f = "read_entry r sz ?e"
  have A: "A = (pre @ ?I) @ images V hs ds @ post" using Cons.prems(1) by simp
  have es: "es = ?e # entries_of V hs (of_nat (length (pre @ ?I))) ds"
    using Cons.prems(6) by simp
  let ?ks = "filter (\<lambda>(d, e). keep (read_entry r sz e)) (zip ds (entries_of V hs (of_nat (length (pre @ ?I))) ds))"
  have small: "length A < 2 ^ 63" using Cons.prems(2) by (simp add: at_def)
  show ?case
  proof (cases "keep ?f")
    case False
    then have "ks = ?ks" using Cons.prems(7) es by simp
    with Cons.IH [OF A Cons.prems(2,3) _ _ refl refl] Cons.prems(4,5) show ?thesis by simp
  next
    case True
    then have ks: "ks = (d, ?e) # ?ks" using Cons.prems(7) es by simp
    have "length pre < 2 ^ 63" using small Cons.prems(1) by simp
    from int64_of_length [OF refl this] have o: "headerOffset ?f = int (length pre)" by (simp add: read_entry_def)
    have h: "f_hdr ?f = read_header (job_final V j ?fh enc) (of_nat (length pre)) (job_aes ?fh)"
      by (simp add: read_entry_def final_of_def d)
    have A1: "A = pre @ job_image V j ?fh enc @ (images V hs ds @ post)"
      using Cons.prems(1) by (simp add: image_of_def d)
    have fits: "header_fits (job_header ?fh)" "header_plain ?fh" using Cons.prems(5) d by auto
    obtain s1 where s1: "filter_entry rd wr ?f st = Some (Inr (int (length B)), s1)"
      "at (length (pre @ ?I)) (length (pre @ ?I)) (B @ ?I) (length (B @ ?I)) s1"
      by (rule filter_entry_written [OF Cons.prems(2-4) A1 fits o h]) (simp add: image_of_def d)
    have l: "length (B @ ?I) \<le> length (pre @ ?I)" using Cons.prems(3,4) by simp
    have "\<forall>d \<in> set ds. header_fits (job_header (hs ! j_hdr (fst d))) \<and> header_plain (hs ! j_hdr (fst d))"
      using Cons.prems(5) by simp
    from Cons.IH [OF A s1(2) l order_refl this refl refl, of "offs @ [int (length B)]"]
    obtain st' q where st': "filter_loop rd wr (map (read_entry r sz \<circ> snd) ?ks) (offs @ [int (length B)]) s1 =
        Some (Inr ((offs @ [int (length B)]) @ map (\<lambda>(h, off, aes). int64_of off)
          (entries_of V hs (of_nat (length (B @ ?I))) (map fst ?ks))), st')"
      "at q q ((B @ ?I) @ images V hs (map fst ?ks)) (length ((B @ ?I) @ images V hs (map fst ?ks))) st'"
      by blast
    have "length B < 2 ^ 63" using Cons.prems(3,4) small Cons.prems(1) by simp
    then have b: "int64_of (of_nat (length B)) = int (length B)" by (rule int64_of_length [OF refl])
    have "filter_loop rd wr (map (read_entry r sz \<circ> snd) ks) offs st
        = filter_loop rd wr (map (read_entry r sz \<circ> snd) ?ks) (offs @ [int (length B)]) s1"
      by (simp only: ks list.map o_apply snd_conv filter_loop.simps bindF_run [where m = "filter_entry rd wr ?f", OF s1(1)])
    moreover have "entries_of V hs (of_nat (length B)) (map fst ks) =
        (final_of V hs d, of_nat (length B), job_aes (hs ! j_hdr (fst d))) # entries_of V hs (of_nat (length (B @ ?I))) (map fst ?ks)"
      by (simp add: ks)
    moreover have "images V hs (map fst ks) = ?I @ images V hs (map fst ?ks)" by (simp add: ks)
    ultimately show ?thesis using st' b by (simp only: list.map case_prod_conv append_assoc append_Cons append_Nil) blast
  qed
qed

end

section \<open>The new directory\<close>

text \<open>
  Undoing what the reader and the directory did to a header gives a header with the same record.
\<close>

lemma filtered_extra:
  assumes "header_plain fh" "Extra h = Extra (job_header fh)"
  shows "removeExtraField (removeExtraField (directory_extra h off) zip64ExtraId) xxh3ExtraId = Extra h"
proof -
  obtain K where K: "Extra (job_header fh) = joinExtra K" "wfExtra K"
    "\<forall>(t, d) \<in> set K. t \<noteq> zip64ExtraId \<and> t \<noteq> xxh3ExtraId"
    by (rule header_plain_extra [OF assms(1)])
  have "filter (\<lambda>(t, d). t \<noteq> zip64ExtraId) K = K" "filter (\<lambda>(t, d). t \<noteq> xxh3ExtraId) K = K"
    by (rule filter_tags_id; use K(3) in auto)+
  then have f: "filter (\<lambda>(t, d). t \<noteq> zip64ExtraId) (K @ xxh3_field h @ zip64_field h off) = K @ xxh3_field h"
    "filter (\<lambda>(t, d). t \<noteq> xxh3ExtraId) (K @ xxh3_field h) = K"
    by (auto simp: xxh3_field_def zip64_field_def zip_ids)
  have w: "wfExtra (K @ xxh3_field h @ zip64_field h off)" "wfExtra (K @ xxh3_field h)"
    using K(2) by (auto simp: wfExtra_def xxh3_field_def zip64_field_def)
  have "directory_extra h off = joinExtra (K @ xxh3_field h @ zip64_field h off)"
    by (simp add: directory_extra_def assms(2) K(1) del: job_header_frame)
  then show ?thesis
    by (simp only: removeExtraField_join [OF w(1)] f removeExtraField_join [OF w(2)] assms(2) K(1))
qed

lemma directory_record_cong:
  assumes "Name g = Name h" "Extra g = Extra h" "Comment g = Comment h" "XXH3 g = XXH3 h"
    "CreatorVersion g = CreatorVersion h" "ReaderVersion g = ReaderVersion h" "Flags g = Flags h" "Method g = Method h"
    "ModifiedTime g = ModifiedTime h" "ModifiedDate g = ModifiedDate h" "CRC32 g = CRC32 h" "ExternalAttrs g = ExternalAttrs h"
    "CompressedSize64 g = CompressedSize64 h" "UncompressedSize64 g = UncompressedSize64 h"
    "\<not> isZip64 h \<Longrightarrow> CompressedSize g = CompressedSize h \<and> UncompressedSize g = UncompressedSize h"
  shows "directory_record g off = directory_record h off" "directory_fits g off = directory_fits h off"
proof -
  have z: "isZip64 g = isZip64 h" using assms by (simp add: isZip64_def)
  then have d: "directory_zip64 g off = directory_zip64 h off" by (simp add: directory_zip64_def)
  have x: "directory_extra g off = directory_extra h off"
    using assms d by (simp add: directory_extra_def xxh3_field_def zip64_field_def)
  have "\<not> directory_zip64 h off \<Longrightarrow> \<not> isZip64 h" by (simp add: directory_zip64_def)
  then show "directory_record g off = directory_record h off" "directory_fits g off = directory_fits h off"
    using assms d x by (auto simp: directory_record_def directoryHeader_wire_def directory_fits_def)
qed

lemma filtered_record:
  fixes V :: "('z, 'c) writer_env"
  assumes "header_plain fh" and h_def: "h = job_final V j fh enc"
    and g_def: "g = filtered_header (read_entry r sz (h, off, job_aes fh))"
  shows "directory_record g off' = directory_record h off'" "directory_fits g off' = directory_fits h off'"
proof -
  have E: "Extra h = Extra (job_header fh)" by (simp add: h_def job_final_def)
  have M: "Method h = (if writesAES fh then winzipAesMethod else Method fh)" by (simp add: h_def final_fields [OF refl])
  have s: "sizes_agree h" by (simp add: h_def job_final_def closed_header_sizes)
  have z: "\<not> isZip64 h \<Longrightarrow> min (CompressedSize64 h) uint32max = CompressedSize64 h
      \<and> min (UncompressedSize64 h) uint32max = UncompressedSize64 h"
    by (auto simp: isZip64_def min_def)
  note d = g_def filtered_header_def read_entry_def read_header_def read_aes_def job_aes_def Let_def zeroFileHeader_def
  have g: "g = (read_header h off (job_aes fh))\<lparr>Extra := Extra h,
      CompressedSize := ucast (min (CompressedSize64 h) uint32max),
      UncompressedSize := ucast (min (UncompressedSize64 h) uint32max), Method := Method h\<rparr>"
    using filtered_extra [OF assms(1) E, of off] M
    by (cases "writesAES fh") (simp_all add: d)
  have "\<not> isZip64 h \<Longrightarrow> CompressedSize g = CompressedSize h \<and> UncompressedSize g = UncompressedSize h"
    using s z by (simp add: g sizes_agree_def)
  then show "directory_record g off' = directory_record h off'" "directory_fits g off' = directory_fits h off'"
    by (intro directory_record_cong;
        simp add: g read_header_def read_aes_def zeroFileHeader_def split: option.split)+
qed

lemma uint64_int64 [simp]: "uint64_of (int64_of w) = w"
  by (simp add: uint64_of_def int64_of_def)

lemma filter_headers_written:
  fixes V :: "('z, 'c) writer_env"
  assumes "\<forall>(d, e) \<in> set ks. header_plain (hs ! j_hdr (fst d))
      \<and> (\<exists>off. e = (final_of V hs d, off, job_aes (hs ! j_hdr (fst d))))"
    and "sink_good buf"
  shows "\<exists>buf'. filter_headers (map (read_entry r sz \<circ> snd) ks)
      (map (\<lambda>(h, off, aes). int64_of off) (entries_of V hs pos (map fst ks))) buf = (None, buf')
    \<and> sink_good buf' \<and> sink_data buf' = sink_data buf @ directory_bytes (entries_of V hs pos (map fst ks))"
  using assms
proof (induction ks arbitrary: pos buf)
  case (Cons k ks)
  obtain d off where k: "k = (d, final_of V hs d, off, job_aes (hs ! j_hdr (fst d)))" "header_plain (hs ! j_hdr (fst d))"
    using Cons.prems(1) by auto
  let ?g = "filtered_header (read_entry r sz (snd k))" and ?h = "final_of V hs d"
  have g: "directory_record ?g pos = directory_record ?h pos" "directory_fits ?g pos = directory_fits ?h pos"
    using filtered_record [OF k(2) final_of_def refl] by (simp_all add: k(1))
  have "directory_fits ?g pos" unfolding g(2) by (rule final_fits [OF k(2)])
  then obtain b where b: "writeDirectoryHeader sink_write ?g pos buf = (None, b)" "sink_good b"
    "sink_data b = sink_data buf @ directory_record ?g pos"
    using snk.write_seq_good [OF Cons.prems(2), of "[directoryHeader_wire ?g pos, Name ?g, directory_extra ?g pos, Comment ?g]"]
    by (auto simp: writeDirectoryHeader_fits directory_record_def)
  have "\<forall>(d, e) \<in> set ks. header_plain (hs ! j_hdr (fst d))
      \<and> (\<exists>off. e = (final_of V hs d, off, job_aes (hs ! j_hdr (fst d))))" using Cons.prems(1) by simp
  from Cons.IH [OF this b(2), of "pos + of_nat (length (image_of V hs d))"]
  obtain buf' where "filter_headers (map (read_entry r sz \<circ> snd) ks)
      (map (\<lambda>(h, off, aes). int64_of off) (entries_of V hs (pos + of_nat (length (image_of V hs d))) (map fst ks))) b = (None, buf')"
    "sink_good buf'" "sink_data buf' = sink_data b
      @ directory_bytes (entries_of V hs (pos + of_nat (length (image_of V hs d))) (map fst ks))" by blast
  then show ?case using b g(1) by (simp add: k(1) comp_def)
qed simp

lemma entries_of_shape:
  "\<forall>(d, e) \<in> set (zip ds (entries_of V hs pos ds)). \<exists>off. e = (final_of V hs d, off, job_aes (hs ! j_hdr (fst d)))"
  by (induction ds arbitrary: pos) auto

lemma entries_of_sorted:
  "n + length (images V hs ds) < 2 ^ 63 \<Longrightarrow>
     sorted (map headerOffset (map (read_entry r sz) (entries_of V hs (of_nat n) ds)))
     \<and> (\<forall>f \<in> set (map (read_entry r sz) (entries_of V hs (of_nat n) ds)). int n \<le> headerOffset f)"
proof (induction ds arbitrary: n)
  case (Cons d ds)
  have "(of_nat n :: u64) + of_nat (length (image_of V hs d)) = of_nat (n + length (image_of V hs d))" by simp
  moreover have "n + length (image_of V hs d) + length (images V hs ds) < 2 ^ 63" using Cons.prems by simp
  note IH = Cons.IH [OF this]
  have "n < 2 ^ 63" using Cons.prems by simp
  from int64_of_length [OF refl this] have "int64_of (of_nat n) = int n" .
  ultimately show ?case using IH by (auto simp: read_entry_def)
qed simp

lemma filter_zip_map:
  "length es = length ds \<Longrightarrow>
     filter keep (map f es) = map (f \<circ> snd) (filter (\<lambda>(d, e). keep (f e)) (zip ds es))"
  by (induction ds es rule: list_induct2') auto

context filter_run
begin

lemma FilterZipStream_run:
  fixes V :: "('z, 'c) writer_env"
  assumes A: "A = images V hs ds @ post" "length A < 2 ^ 63"
    and s: "inv s" "stream s = A" "fin s = ErrEOF" and w: "good w" "out w = base"
    and ok: "\<forall>d \<in> set ds. header_fits (job_header (hs ! j_hdr (fst d))) \<and> header_plain (hs ! j_hdr (fst d))"
    and r: "rdr_File r = map (read_entry ra sz) (entries_of V hs 0 ds)"
    and ks: "ks = map fst (filter (\<lambda>(d, e). keep (read_entry ra sz e)) (zip ds (entries_of V hs 0 ds)))"
  shows "\<exists>s' w'. FilterZipStream rd wr keep r s w = Some (None, s', w')
    \<and> out w' = base @ images V hs ks @ directory_bytes (entries_of V hs 0 ks)
      @ directory_end (of_nat (length ks)) (of_nat (length (directory_bytes (entries_of V hs 0 ks))))
          (of_nat (length (images V hs ks)))"
proof -
  let ?es = "entries_of V hs (of_nat (length ([] :: byte list))) ds"
  let ?ks = "filter (\<lambda>(d, e). keep (read_entry ra sz e)) (zip ds ?es)"
  let ?st = "\<lparr>fs_stream = s, fs_w = w, fs_streamOffset = 0, fs_outOffset = 0\<rparr>"
  have k: "ks = map fst ?ks" using ks by simp
  have st: "at 0 0 [] (length ([] :: byte list)) ?st" using s w A(2) by (simp add: at_def)
  have A1: "A = [] @ images V hs ds @ post" using A(1) by simp
  from filter_loop_written [OF A1 st _ _ ok refl refl, where offs = "[]" and r = ra and sz = sz and keep = keep]
  obtain st' q where l: "filter_loop rd wr (map (read_entry ra sz \<circ> snd) ?ks) [] ?st =
      Some (Inr (map (\<lambda>(h, off, aes). int64_of off) (entries_of V hs 0 ks)), st')"
    "at q q (images V hs ks) (length (images V hs ks)) st'"
    unfolding k by auto
  have f: "filter keep (rdr_File r) = map (read_entry ra sz \<circ> snd) ?ks"
    using r filter_zip_map [of ?es ds keep "read_entry ra sz"] by simp
  have "0 + length (images V hs ds) < 2 ^ 63" using A by simp
  from entries_of_sorted [OF this] have "sorted (map headerOffset (rdr_File r))" by (simp add: r)
  then have "sorted (map headerOffset (filter keep (rdr_File r)))" by (rule sorted_filter)
  then have m: "sort_key headerOffset (filter keep (rdr_File r)) = map (read_entry ra sz \<circ> snd) ?ks"
    unfolding f by (rule sort_key_id_if_sorted)
  have shape: "\<forall>(d, e) \<in> set ?ks. header_plain (hs ! j_hdr (fst d))
      \<and> (\<exists>off. e = (final_of V hs d, off, job_aes (hs ! j_hdr (fst d))))"
  proof clarify
    fix d e
    assume m: "(d, e) \<in> set ?ks"
    then have "d \<in> set ds" by (auto dest: set_zip_leftD)
    then show "header_plain (hs ! j_hdr (fst d))
      \<and> (\<exists>off. e = (final_of V hs d, off, job_aes (hs ! j_hdr (fst d))))"
      using ok bspec [OF entries_of_shape [of ds V hs 0], of "(d, e)"] m by simp
  qed
  have "sink_good empty_sink" by simp
  from filter_headers_written [OF shape this, of ra sz 0, folded k] obtain buf where
    b: "filter_headers (map (read_entry ra sz \<circ> snd) ?ks)
        (map (\<lambda>(h, off, aes). int64_of off) (entries_of V hs 0 ks)) empty_sink = (None, buf)"
    "sink_good buf" "sink_data buf = directory_bytes (entries_of V hs 0 ks)" by auto
  have o: "uint64_of (fs_outOffset st') = of_nat (length (images V hs ks))"
    and g: "good (fs_w st')" "out (fs_w st') = base @ images V hs ks"
    using l(2) by (simp_all add: at_def uint64_of_def)
  let ?n = "of_nat (length ks) :: u64" and ?D = "of_nat (length (directory_bytes (entries_of V hs 0 ks))) :: u64"
    and ?o = "of_nat (length (images V hs ks)) :: u64"
  obtain b2 where b2: "writeDirectoryEnd sink_write ?n ?D ?o buf = (None, b2)"
    "sink_data b2 = directory_bytes (entries_of V hs 0 ks) @ directory_end ?n ?D ?o"
    using snk.write_seq_good [OF b(2)] b(3) unfolding writeDirectoryEnd_seq concat_directory_end [symmetric] by metis
  obtain n w' where w': "wr (fs_w st') (sink_data b2) = (n, None, w')" using dst.write_good [OF g(1)] by blast
  have "out w' = out (fs_w st') @ sink_data b2" using dst.write_ok [OF w'] by simp
  moreover have "length (map (read_entry ra sz \<circ> snd) ?ks) = length ks" by (simp add: k)
  ultimately show ?thesis
    using l(1) b(1,3) b2 w' g(2) unfolding FilterZipStream_def Let_def m
    by (simp add: o)
qed

end

text \<open>What \<open>FilterZipStream\<close> makes of an archive of the writer.\<close>

lemma FilterZipStream_kept:
  fixes V :: "(sink archive_writer, 'c) writer_env"
  assumes w: "NewWriter [empty_sink] = Inr w"
    and ok: "\<forall>j \<in> set js. job_ok V codec j (hs ! j_hdr j) \<and> header_plain (hs ! j_hdr j) \<and> j_hdr j < length hs"
    and dist: "distinct (map j_hdr js)"
    and jobs: "write_jobs V sink_write js w hs = (e1, w1, hs1)"
    and close: "Writer_Close V sink_write w1 hs1 = (e2, w2, hs2)"
    and A: "A = archive_data w2" "length A < 2 ^ 63" "locator_ok A"
    and r: "NewReader (file_at A) (int (length A)) = Some (Inr r)"
    and s: "delivers rd s A ErrEOF"
    and kept: "kept = map fst (filter (\<lambda>(j, f). keep f) (zip js (rdr_File r)))"
  obtains s' w' ks where "FilterZipStream rd sink_write keep r s empty_sink = Some (None, s', w')"
    "map fst ks = kept" "encoded codec hs ks" "set ks \<subseteq> {d. fst d \<in> set js}" "distinct (map j_hdr kept)"
    "sink_data w' = images V hs ks @ directory_bytes (entries_of V hs 0 ks)
      @ directory_end (of_nat (length ks)) (of_nat (length (directory_bytes (entries_of V hs 0 ks))))
          (of_nat (length (images V hs ks)))"
proof -
  obtain ds where ds: "map fst ds = js" "encoded codec hs ds"
    "A = images V hs ds @ directory_bytes (entries_of V hs 0 ds)
      @ directory_end (of_nat (length ds)) (of_nat (length (directory_bytes (entries_of V hs 0 ds))))
          (of_nat (length (images V hs ds)))"
    unfolding A(1) by (rule archive_written [OF w ok dist jobs close])
  let ?es = "entries_of V hs 0 ds" and ?re = "read_entry (file_at A) (int (length A))"
  have "\<forall>j \<in> set (map fst ds). header_fits (job_header (hs ! j_hdr j)) \<and> header_plain (hs ! j_hdr j)"
    using ok ds(1) by (simp add: job_ok_def)
  then have h: "\<forall>d \<in> set ds. header_fits (job_header (hs ! j_hdr (fst d))) \<and> header_plain (hs ! j_hdr (fst d))" by simp
  then have "\<forall>d \<in> set ds. header_plain (hs ! j_hdr (fst d))" by simp
  from NewReader_images [OF ds(3) A(2,3) this] r have R: "rdr_File r = map ?re ?es" by simp
  obtain I stream fin rank where src: "io_reader rd I stream fin rank" "I s" "stream s = A" "fin s = ErrEOF"
    using s by (rule deliversE)
  have F: "filter_run rd I stream fin rank sink_write sink_data sink_good"
    by (intro filter_run.intro limited_source.intro src(1) snk.io_writer_axioms)
  define ks where "ks = map fst (filter (\<lambda>(d, e). keep (?re e)) (zip ds ?es))"
  have g: "sink_good empty_sink" "sink_data empty_sink = []" by simp_all
  obtain s' w' where out: "FilterZipStream rd sink_write keep r s empty_sink = Some (None, s', w')"
    "sink_data w' = [] @ images V hs ks @ directory_bytes (entries_of V hs 0 ks)
      @ directory_end (of_nat (length ks)) (of_nat (length (directory_bytes (entries_of V hs 0 ks))))
          (of_nat (length (images V hs ks)))"
    using filter_run.FilterZipStream_run [OF F ds(3) A(2) src(2-4) g h R ks_def] by blast
  have z: "filter (\<lambda>(j, f). keep f) (zip (map fst ds) (map ?re es))
      = map (\<lambda>(d, e). (fst d, ?re e)) (filter (\<lambda>(d, e). keep (?re e)) (zip ds es))" for es
    by (induction ds es rule: list_induct2') auto
  have m: "map fst ks = kept"
    unfolding kept R ks_def ds(1) [symmetric] z by (simp add: comp_def case_prod_beta)
  have sub: "set ks \<subseteq> set ds" by (auto simp: ks_def dest: set_zip_leftD)
  then have "encoded codec hs ks" "set ks \<subseteq> {d. fst d \<in> set js}"
    using ds(2) by (auto simp: encoded_def ds(1) [symmetric])
  moreover have "distinct (map j_hdr (map fst (filter P (zip js fs))))" for P and fs :: "File list"
    using dist by (induction js fs rule: list_induct2') (auto dest: set_zip_leftD)
  ultimately show ?thesis using that [OF out(1) m] out(2) unfolding kept by simp
qed

text \<open>
  C3. Filtering an archive keeps what the filter keeps. Given an archive of the writer, the reader
  \<open>NewReader\<close> made of it and a stream of the same bytes, however it hands them out,
  \<open>FilterZipStream\<close> succeeds, and \<open>NewReader\<close> on what it wrote lists the entries the filter kept, in
  order, and each opens to the contents it had.
\<close>

theorem FilterZipStream_contents:
  fixes V :: "(sink archive_writer, 'c) writer_env"
  assumes "NewWriter [empty_sink] = Inr w"
    and "\<forall>j \<in> set js. job_ok V codec j (hs ! j_hdr j) \<and> header_plain (hs ! j_hdr j) \<and> j_hdr j < length hs"
    and "distinct (map j_hdr js)"
    and "write_jobs V sink_write js w hs = (e1, w1, hs1)"
    and "Writer_Close V sink_write w1 hs1 = (e2, w2, hs2)"
    and "A = archive_data w2" and "length A < 2 ^ 63" and "locator_ok A"
    and "NewReader (file_at A) (int (length A)) = Some (Inr r)" and "delivers rd s A ErrEOF"
    and "kept = map fst (filter (\<lambda>(j, f). keep f) (zip js (rdr_File r)))"
    and "\<forall>j \<in> set kept. can_read R V codec (hs ! j_hdr j)"
  shows "\<exists>s' w'. FilterZipStream rd sink_write keep r s empty_sink = Some (None, s', w')
    \<and> (let B = sink_data w' in length B < 2 ^ 63 \<and> locator_ok B \<longrightarrow>
        (\<exists>r'. NewReader (file_at B) (int (length B)) = Some (Inr r') \<and> length (rdr_File r') = length kept
          \<and> (\<forall>i<length kept. \<forall>plain. contents codec (kept ! i) (hs ! j_hdr (kept ! i)) plain \<longrightarrow>
               opens_to R (with_password (hs ! j_hdr (kept ! i)) (rdr_File r' ! i)) plain)))"
proof -
  obtain s' w' ks where k: "FilterZipStream rd sink_write keep r s empty_sink = Some (None, s', w')"
    "map fst ks = kept" "encoded codec hs ks" "set ks \<subseteq> {d. fst d \<in> set js}"
    "sink_data w' = images V hs ks @ directory_bytes (entries_of V hs 0 ks)
      @ directory_end (of_nat (length ks)) (of_nat (length (directory_bytes (entries_of V hs 0 ks))))
          (of_nat (length (images V hs ks)))"
    by (rule FilterZipStream_kept [OF assms(1-11)])
  have "\<forall>j \<in> set (map fst ks). can_read R V codec (hs ! j_hdr j)" using assms(12) k(2) by simp
  then have ok: "\<forall>d \<in> set ks. job_ok V codec (fst d) (hs ! j_hdr (fst d)) \<and> header_plain (hs ! j_hdr (fst d))
      \<and> can_read R V codec (hs ! j_hdr (fst d))" using k(4) assms(2) by auto
  have "length ks = length kept" "\<And>i. i < length kept \<Longrightarrow> fst (ks ! i) = kept ! i"
    using k(2) by auto
  with archive_opens [OF k(5) _ _ k(3) ok] k(1) show ?thesis by (simp add: Let_def)
qed

lemma encoded_unique:
  assumes "\<And>m enc enc' bs. codec m enc bs \<Longrightarrow> codec m enc' bs \<Longrightarrow> enc = enc'"
    and "encoded codec hs ds" "encoded codec hs ks" "map fst ds = map fst ks"
  shows "ds = ks"
  using assms(2-)
proof (induction ds ks rule: list_induct2')
  case (4 d ds k ks)
  then have "snd d = snd k" using assms(1) by (auto simp: encoded_def job_codes_def split: if_splits)
  with 4 show ?case by (auto simp: encoded_def prod_eq_iff)
qed auto

lemma FilterZipStream_unique:
  fixes V :: "(sink archive_writer, 'c) writer_env"
  assumes w: "NewWriter [empty_sink] = Inr w"
    and ok: "\<forall>j \<in> set js. job_ok V codec j (hs ! j_hdr j) \<and> header_plain (hs ! j_hdr j) \<and> j_hdr j < length hs"
    and dist: "distinct (map j_hdr js)"
    and jobs: "write_jobs V sink_write js w hs = (e1, w1, hs1)"
    and close: "Writer_Close V sink_write w1 hs1 = (e2, w2, hs2)"
    and A: "A = archive_data w2" "length A < 2 ^ 63" "locator_ok A"
    and r: "NewReader (file_at A) (int (length A)) = Some (Inr r)"
    and s: "delivers rd s A ErrEOF"
    and kept: "kept = map fst (filter (\<lambda>(j, f). keep f) (zip js (rdr_File r)))"
    and codec: "\<And>m enc enc' bs. codec m enc bs \<Longrightarrow> codec m enc' bs \<Longrightarrow> enc = enc'"
    and jobs': "write_jobs V sink_write kept w hs = (e3, w3, hs3)"
    and close': "Writer_Close V sink_write w3 hs3 = (e4, w4, hs4)"
  shows "\<exists>s' w'. FilterZipStream rd sink_write keep r s empty_sink = Some (None, s', w')
    \<and> sink_data w' = archive_data w4"
proof -
  obtain s' w' ks where k: "FilterZipStream rd sink_write keep r s empty_sink = Some (None, s', w')"
    "map fst ks = kept" "encoded codec hs ks" "set ks \<subseteq> {d. fst d \<in> set js}" "distinct (map j_hdr kept)"
    "sink_data w' = images V hs ks @ directory_bytes (entries_of V hs 0 ks)
      @ directory_end (of_nat (length ks)) (of_nat (length (directory_bytes (entries_of V hs 0 ks))))
          (of_nat (length (images V hs ks)))"
    by (rule FilterZipStream_kept [OF w ok dist jobs close A r s kept])
  have ok': "\<forall>j \<in> set kept. job_ok V codec j (hs ! j_hdr j) \<and> header_plain (hs ! j_hdr j) \<and> j_hdr j < length hs"
    using ok k(4) unfolding k(2) [symmetric] by auto
  obtain ds where ds: "map fst ds = kept" "encoded codec hs ds"
    "archive_data w4 = images V hs ds @ directory_bytes (entries_of V hs 0 ds)
      @ directory_end (of_nat (length ds)) (of_nat (length (directory_bytes (entries_of V hs 0 ds))))
          (of_nat (length (images V hs ds)))"
    by (rule archive_written [OF w ok' k(5) jobs' close'])
  have "map fst ds = map fst ks" using ds(1) k(2) by simp
  have "ds = ks" by (rule encoded_unique [OF _ ds(2) k(3) \<open>map fst ds = map fst ks\<close>]) (rule codec)
  with k(1,6) ds(3) show ?thesis by simp
qed

text \<open>
  C4. Filtering commutes with writing. With compressors whose output depends only on the contents,
  \<open>FilterZipStream\<close> writes, byte for byte, the archive the writer makes when it is given the kept
  entries only: the copied local headers, payloads and descriptors, the rebuilt directory with its
  new offsets, and the end record.
\<close>

theorem FilterZipStream_commutes:
  fixes V :: "(sink archive_writer, 'c) writer_env"
  assumes "NewWriter [empty_sink] = Inr w"
    and "\<forall>j \<in> set js. job_ok V codec j (hs ! j_hdr j) \<and> header_plain (hs ! j_hdr j) \<and> j_hdr j < length hs"
    and "distinct (map j_hdr js)"
    and "write_jobs V sink_write js w hs = (e1, w1, hs1)"
    and "Writer_Close V sink_write w1 hs1 = (e2, w2, hs2)"
    and "A = archive_data w2" and "length A < 2 ^ 63" and "locator_ok A"
    and "NewReader (file_at A) (int (length A)) = Some (Inr r)" and "delivers rd s A ErrEOF"
    and "kept = map fst (filter (\<lambda>(j, f). keep f) (zip js (rdr_File r)))"
    and "\<And>m enc enc' bs. codec m enc bs \<Longrightarrow> codec m enc' bs \<Longrightarrow> enc = enc'"
    and "write_jobs V sink_write kept w hs = (e3, w3, hs3)"
    and "Writer_Close V sink_write w3 hs3 = (e4, w4, hs4)"
  shows "\<exists>s' w'. FilterZipStream rd sink_write keep r s empty_sink = Some (None, s', w')
    \<and> sink_data w' = archive_data w4"
  by (rule FilterZipStream_unique [OF assms(1-11) _ assms(13,14)]) (rule assms(12))

section \<open>Examples\<close>

text \<open>The archive of one entry, and what \<open>NewReader\<close> makes of it.\<close>

lemma toy_archive_read:
  defines "V \<equiv> toy_env :: (sink archive_writer, int) writer_env"
  obtains w e1 w1 hs1 e2 w2 hs2 r where "NewWriter [empty_sink] = (Inr w :: (sink, int) Writer result)"
    "\<forall>j' \<in> set [toy_job]. job_ok V (\<lambda>_. (=)) j' ([toy_entry] ! j_hdr j') \<and> header_plain ([toy_entry] ! j_hdr j')
      \<and> j_hdr j' < length [toy_entry]"
    "distinct (map j_hdr [toy_job])"
    "write_jobs V sink_write [toy_job] w [toy_entry] = (e1, w1, hs1)"
    "Writer_Close V sink_write w1 hs1 = (e2, w2, hs2)"
    "length (archive_data w2) < 2 ^ 63" "locator_ok (archive_data w2)"
    "NewReader (file_at (archive_data w2)) (int (length (archive_data w2))) = Some (Inr r)" "length (rdr_File r) = 1"
proof -
  obtain w :: "(sink, int) Writer" and e1 w1 hs1 e2 w2 hs2 where T: "NewWriter [empty_sink] = Inr w"
    "\<forall>j' \<in> set [toy_job]. job_ok V (\<lambda>_. (=)) j' ([toy_entry] ! j_hdr j') \<and> header_plain ([toy_entry] ! j_hdr j')
      \<and> j_hdr j' < length [toy_entry]"
    "distinct (map j_hdr [toy_job])"
    "write_jobs V sink_write [toy_job] w [toy_entry] = (e1, w1, hs1)"
    "Writer_Close V sink_write w1 hs1 = (e2, w2, hs2)"
    "length (archive_data w2) < 2 ^ 63" "locator_ok (archive_data w2)"
    unfolding V_def by (rule toy_archive)
  obtain ds where ds: "map fst ds = [toy_job]"
    "archive_data w2 = images V [toy_entry] ds @ directory_bytes (entries_of V [toy_entry] 0 ds)
      @ directory_end (of_nat (length ds)) (of_nat (length (directory_bytes (entries_of V [toy_entry] 0 ds))))
          (of_nat (length (images V [toy_entry] ds)))"
    by (rule archive_written [OF T(1-5)])
  have "length ds = 1" using arg_cong [OF ds(1), of length] by simp
  moreover have "\<forall>j \<in> set (map fst ds). header_plain ([toy_entry] ! j_hdr j)" using toy_entry_job unfolding ds(1) by (simp add: toy_job_def)
  then have "\<forall>d \<in> set ds. header_plain ([toy_entry] ! j_hdr (fst d))" by simp
  note NewReader_images [OF ds(2) T(6,7) this]
  ultimately show ?thesis using that [OF T] by simp
qed

lemma FilterZipStream_contents_witness:
  "\<exists>A r s' w' r'. NewReader (file_at A) (int (length A)) = Some (Inr r)
     \<and> FilterZipStream creader_Read sink_write (\<lambda>_. True) r (byte_creader A) empty_sink = Some (None, s', w')
     \<and> NewReader (file_at (sink_data w')) (int (length (sink_data w'))) = Some (Inr r')
     \<and> opens_to toy_reader (File_SetPassword [112, 119] (rdr_File r' ! 0)) [1, 2, 3]"
proof -
  let ?V = "toy_env :: (sink archive_writer, int) writer_env"
  obtain w :: "(sink, int) Writer" and e1 w1 hs1 e2 w2 hs2 r where T: "NewWriter [empty_sink] = Inr w"
    "\<forall>j' \<in> set [toy_job]. job_ok ?V (\<lambda>_. (=)) j' ([toy_entry] ! j_hdr j') \<and> header_plain ([toy_entry] ! j_hdr j')
      \<and> j_hdr j' < length [toy_entry]"
    "distinct (map j_hdr [toy_job])"
    "write_jobs ?V sink_write [toy_job] w [toy_entry] = (e1, w1, hs1)"
    "Writer_Close ?V sink_write w1 hs1 = (e2, w2, hs2)"
    "length (archive_data w2) < 2 ^ 63" "locator_ok (archive_data w2)"
    "NewReader (file_at (archive_data w2)) (int (length (archive_data w2))) = Some (Inr r)" "length (rdr_File r) = 1"
    by (rule toy_archive_read)
  have s: "delivers creader_Read (byte_creader (archive_data w2)) (archive_data w2) ErrEOF"
    by (rule delivers_byte_creader)
  obtain f where "rdr_File r = [f]" using T(9) by (auto simp: length_Suc_conv)
  then have k: "[toy_job] = map fst (filter (\<lambda>(j, f). True) (zip [toy_job] (rdr_File r)))" by simp
  have j: "j_hdr toy_job = 0" by (simp add: toy_job_def)
  have c: "\<forall>j \<in> set [toy_job]. can_read toy_reader ?V (\<lambda>_. (=)) ([toy_entry] ! j_hdr j)"
    using toy_entry_reads(5) by (simp add: j)
  from FilterZipStream_unique [OF T(1-5) refl T(6-8) s k _ T(4,5)] obtain s' w' where
    u: "FilterZipStream creader_Read sink_write (\<lambda>_. True) r (byte_creader (archive_data w2)) empty_sink
        = Some (None, s', w')" "sink_data w' = archive_data w2" by auto
  from FilterZipStream_contents [OF T(1-5) refl T(6-8) s k c] u T(6,7) j toy_entry_reads(2,6)
  obtain r' where "NewReader (file_at (sink_data w')) (int (length (sink_data w'))) = Some (Inr r')"
    "opens_to toy_reader (File_SetPassword [112, 119] (rdr_File r' ! 0)) [1, 2, 3]"
    by (auto simp: Let_def with_password_def)
  with T(8) u(1) show ?thesis by blast
qed

lemma FilterZipStream_commutes_witness:
  "\<exists>w e1 w1 hs1 e2 w2 hs2 r s' w'. NewWriter [empty_sink] = Inr w
     \<and> write_jobs (toy_env :: (sink archive_writer, int) writer_env) sink_write [toy_job] w [toy_entry] = (e1, w1, hs1)
     \<and> Writer_Close toy_env sink_write w1 hs1 = (e2, w2, hs2)
     \<and> FilterZipStream creader_Read sink_write (\<lambda>_. True) r (byte_creader (archive_data w2)) empty_sink
         = Some (None, s', w') \<and> sink_data w' = archive_data w2"
proof -
  let ?V = "toy_env :: (sink archive_writer, int) writer_env"
  obtain w :: "(sink, int) Writer" and e1 w1 hs1 e2 w2 hs2 r where T: "NewWriter [empty_sink] = Inr w"
    "\<forall>j' \<in> set [toy_job]. job_ok ?V (\<lambda>_. (=)) j' ([toy_entry] ! j_hdr j') \<and> header_plain ([toy_entry] ! j_hdr j')
      \<and> j_hdr j' < length [toy_entry]"
    "distinct (map j_hdr [toy_job])"
    "write_jobs ?V sink_write [toy_job] w [toy_entry] = (e1, w1, hs1)"
    "Writer_Close ?V sink_write w1 hs1 = (e2, w2, hs2)"
    "length (archive_data w2) < 2 ^ 63" "locator_ok (archive_data w2)"
    "NewReader (file_at (archive_data w2)) (int (length (archive_data w2))) = Some (Inr r)" "length (rdr_File r) = 1"
    by (rule toy_archive_read)
  have s: "delivers creader_Read (byte_creader (archive_data w2)) (archive_data w2) ErrEOF"
    by (rule delivers_byte_creader)
  obtain f where "rdr_File r = [f]" using T(9) by (auto simp: length_Suc_conv)
  then have k: "[toy_job] = map fst (filter (\<lambda>(j, f). True) (zip [toy_job] (rdr_File r)))" by simp
  from FilterZipStream_commutes [OF T(1-5) refl T(6-8) s k _ T(4,5)] obtain s' w' where
    u: "FilterZipStream creader_Read sink_write (\<lambda>_. True) r (byte_creader (archive_data w2)) empty_sink
        = Some (None, s', w')" "sink_data w' = archive_data w2" by auto
  with T(1,4,5) show ?thesis by blast
qed

end
