(* ===== verification/Zip_Raw.thy ===== *)
theory Zip_Raw
  imports Zip_Strip Zip_Filter
begin

text \<open>
  \<open>CopyRawPart\<close> of raw_writer.go: the copy of a part into an archive under another password, without
  decompressing it. What it makes of a part of the package is an entry with the same contents; what
  it cannot copy it refuses before it writes anything.
\<close>

section \<open>\<open>CopyRawPart\<close>\<close>

record OverridableFileHeader =
  ov_Name :: "byte list"
  ov_ModifiedTime :: u16
  ov_ModifiedDate :: u16
  ov_Comment :: "byte list"
  ov_XXH3 :: u64
  ov_CreatorVersion :: u16
  ov_ReaderVersion :: u16
  ov_ExternalAttrs :: u32
  ov_Extra :: "byte list"

text \<open>What the callback (\<open>None\<close> is nil) may change, applied to the header.\<close>

definition overridden ::
  "(OverridableFileHeader \<Rightarrow> OverridableFileHeader) option \<Rightarrow> FileHeader \<Rightarrow> FileHeader" where
  "overridden modifyHeader fh =
     (let override = \<lparr>ov_Name = Name fh, ov_ModifiedTime = ModifiedTime fh, ov_ModifiedDate = ModifiedDate fh,
            ov_Comment = Comment fh, ov_XXH3 = XXH3 fh, ov_CreatorVersion = CreatorVersion fh,
            ov_ReaderVersion = ReaderVersion fh, ov_ExternalAttrs = ExternalAttrs fh, ov_Extra = Extra fh\<rparr>;
          override = (case modifyHeader of Some f \<Rightarrow> f override | None \<Rightarrow> override)
      in fh\<lparr>Name := ov_Name override, ModifiedTime := ov_ModifiedTime override,
           ModifiedDate := ov_ModifiedDate override, Comment := ov_Comment override, XXH3 := ov_XXH3 override,
           CreatorVersion := ov_CreatorVersion override, ReaderVersion := ov_ReaderVersion override,
           ExternalAttrs := ov_ExternalAttrs override, Extra := ov_Extra override\<rparr>)"

definition rekeyed :: "byte list \<Rightarrow> bool \<Rightarrow> FileHeader \<Rightarrow> FileHeader" where
  "rekeyed newPassword sourceEncrypted fh =
     (if newPassword \<noteq> [] \<and> sourceEncrypted
      then SetEncryptionMethod StandardEncryption (SetPassword newPassword fh)
      else fh\<lparr>Flags := Flags fh AND NOT 0x1, password := None, encryption := NoEncryption\<rparr>)"

text \<open>The \<open>payload\<close> of the source, and what is copied: the payload itself or its decryption.\<close>

datatype 's raw_payload = Stripped "'s descriptorStripper" | LimitedTo "'s limited"

fun raw_payload_Read :: "'s read_fn \<Rightarrow> 's raw_payload read_fn" where
  "raw_payload_Read rd (Stripped ds) n =
     map_option (\<lambda>(d, e, ds). (d, e, Stripped ds)) (descriptorStripper_Read rd ds n)"
| "raw_payload_Read rd (LimitedTo l) n = map_option (\<lambda>(d, e, l). (d, e, LimitedTo l)) (limited_Read rd l n)"

fun raw_payload_src :: "'s raw_payload \<Rightarrow> 's" where
  "raw_payload_src (Stripped ds) = ds_r ds"
| "raw_payload_src (LimitedTo l) = lim_R l"

datatype 's raw_source = RawPlain "'s raw_payload" | RawDecrypted "'s raw_payload zipCryptoDecryptReader"

fun raw_source_Read :: "'s read_fn \<Rightarrow> 's raw_source read_fn" where
  "raw_source_Read rd (RawPlain p) n = map_option (\<lambda>(d, e, p). (d, e, RawPlain p)) (raw_payload_Read rd p n)"
| "raw_source_Read rd (RawDecrypted z) n =
     map_option (\<lambda>(d, e, z). (d, e, RawDecrypted z)) (zipCryptoDecryptReader_Read (raw_payload_Read rd) z n)"

fun raw_source_payload :: "'s raw_source \<Rightarrow> 's raw_payload" where
  "raw_source_payload (RawPlain p) = p"
| "raw_source_payload (RawDecrypted z) = zd_r z"

text \<open>The buffer of \<open>io.Copy\<close>, which is no larger than the limit of a limited reader.\<close>

definition raw_copy_buffer :: "'s raw_source \<Rightarrow> nat" where
  "raw_copy_buffer source = (case source of RawPlain (LimitedTo l) \<Rightarrow> copy_buffer (lim_N l) | _ \<Rightarrow> 32 * 1024)"

text \<open>What becomes of the header once the payload is copied.\<close>

definition raw_copied :: "'s raw_payload \<Rightarrow> FileHeader \<Rightarrow> FileHeader result" where
  "raw_copied p fh = (case p of
     LimitedTo l \<Rightarrow> if lim_N l \<noteq> 0 then Inl ErrUnexpectedEOF else Inr fh
   | Stripped ds \<Rightarrow> (case ds_desc ds of
       None \<Rightarrow> Inl ErrNoDescriptor
     | Some d \<Rightarrow> Inr (fh\<lparr>CRC32 := dd_CRC32 d, CompressedSize64 := dd_CompressedSize64 d,
         UncompressedSize64 := dd_UncompressedSize64 d\<rparr>)))"

text \<open>
  The new header is appended to the headers of the program. The final \<open>w.last.Close()\<close> closes the
  file \<open>CreateRaw\<close> has just opened.
\<close>

definition CopyRawPart ::
  "('w archive_writer, 'c) writer_env \<Rightarrow> 'w write_fn \<Rightarrow> 's read_fn \<Rightarrow> (nat \<Rightarrow> byte list result)
     \<Rightarrow> byte list \<Rightarrow> byte list \<Rightarrow> (OverridableFileHeader \<Rightarrow> OverridableFileHeader) option
     \<Rightarrow> 's \<Rightarrow> ('w, 'c) Writer \<Rightarrow> FileHeader list
     \<Rightarrow> (zip_error option \<times> 's \<times> ('w, 'c) Writer \<times> FileHeader list) option" where
  "CopyRawPart V wr rd rnd oldPassword newPassword modifyHeader src w hs = do {
     (r, src) \<leftarrow> ReadLocalFileHeader rd src;
     (case r of Inl e \<Rightarrow> Some (Some e, src, w, hs) | Inr fh \<Rightarrow>
       let sourceEncrypted = (Flags fh AND 0x1 \<noteq> 0); hasDescriptor = (Flags fh AND 0x8 \<noteq> 0) in
       if sourceEncrypted \<and> Method fh = winzipAesMethod then Some (Some ErrRawAES, src, w, hs)
       else if sourceEncrypted \<and> oldPassword = [] then Some (Some ErrPassword, src, w, hs)
       else
         let check = snd (zipCryptoCheckBytes (Flags fh) (ModifiedTime fh) (CRC32 fh));
             fh = fh\<lparr>Extra := removeExtraField (Extra fh) zip64ExtraId\<rparr>;
             fh = rekeyed newPassword sourceEncrypted (overridden modifyHeader fh) in
         if \<not> hasDescriptor \<and> 2 ^ 63 \<le> unat (CompressedSize64 fh) then Some (Some ErrFormat, src, w, hs)
         else
           let payload = (if hasDescriptor then Stripped (newDescriptorStripper src True)
                          else LimitedTo \<lparr>lim_R = src, lim_N = int64_of (CompressedSize64 fh)\<rparr>) in do {
             (err, source) \<leftarrow>
               (if sourceEncrypted
                then map_option (\<lambda>(err, dr). (err, RawDecrypted dr))
                  (zipCryptoDecryptReader_readHeader (raw_payload_Read rd) (newZipCryptoDecryptReader payload oldPassword check True))
                else Some (None, RawPlain payload));
             (case err of Some e \<Rightarrow> Some (Some e, raw_payload_src (raw_source_payload source), w, hs) | None \<Rightarrow>
               (case CreateRaw V wr rnd (length hs) w (hs @ [fh]) of
                  (Some e, w, hs') \<Rightarrow> Some (Some e, raw_payload_src (raw_source_payload source), w, hs')
                | (None, w, hs') \<Rightarrow> do {
                    (n, err, w, source) \<leftarrow>
                      io_Copy (Writer_Write wr hs') (raw_source_Read rd) (raw_copy_buffer source) 0 w source;
                    (let src = raw_payload_src (raw_source_payload source) in
                     case err of Some e \<Rightarrow> Some (Some e, src, w, hs') | None \<Rightarrow>
                       (case raw_copied (raw_source_payload source) (hs' ! length hs) of
                          Inl e \<Rightarrow> Some (Some e, src, w, hs')
                        | Inr fh \<Rightarrow> (case Writer_closeLast V wr w (hs'[length hs := fh]) of
                            (err, w, hs') \<Rightarrow> Some (err, src, w, hs')))) })) }) }"

section \<open>Copying a part the package wrote\<close>

text \<open>The entries of an archive depend on their own headers only.\<close>

lemma images_cong:
  assumes "\<forall>d \<in> set ds. hs ! j_hdr (fst d) = hs' ! j_hdr (fst d)"
  shows "images V hs ds = images V hs' ds" "dir_of V hs pos ds = dir_of V hs' pos ds"
    "encoded codec hs ds = encoded codec hs' ds"
proof -
  have "\<forall>d \<in> set ds. image_of V hs d = image_of V hs' d" using assms by (simp add: image_of_def)
  then show "images V hs ds = images V hs' ds" "dir_of V hs pos ds = dir_of V hs' pos ds"
    by (induction ds arbitrary: pos) auto
  show "encoded codec hs ds = encoded codec hs' ds" using assms by (simp add: encoded_def)
qed

lemma headers_at_append:
  assumes "headers_at V hs0 ds hs"
  shows "headers_at V (hs0 @ [x]) ds (hs @ [x])" "\<forall>d \<in> set ds. hs0 ! j_hdr (fst d) = (hs0 @ [x]) ! j_hdr (fst d)"
    "length hs = length hs0"
proof -
  have a: "\<forall>d \<in> set ds. j_hdr (fst d) < length hs0" "length hs = length hs0" using assms by (auto simp: headers_at_def)
  then show "\<forall>d \<in> set ds. hs0 ! j_hdr (fst d) = (hs0 @ [x]) ! j_hdr (fst d)" "length hs = length hs0"
    by (simp_all add: nth_append)
  then show "headers_at V (hs0 @ [x]) ds (hs @ [x])"
    using assms a by (auto simp: headers_at_def nth_append final_of_def less_Suc_eq)
qed

context archive
begin

lemma closed_state_append:
  assumes "closed_state V hs0 \<delta> base ds w hs"
  shows "closed_state V (hs0 @ [x]) \<delta> base ds w (hs @ [x])"
proof -
  have h: "headers_at V hs0 ds hs" using assms by (simp add: closed_state_def)
  note c = images_cong [OF headers_at_append(2) [OF h, of x]]
  show ?thesis using assms headers_at_append(1) [OF h, of x] by (simp add: closed_state_def c [symmetric])
qed

lemma open_state_append:
  assumes "open_state V codec hs0 \<delta> base ds j acc w hs"
  shows "open_state V codec (hs0 @ [x]) \<delta> base ds j acc w (hs @ [x])"
proof -
  have h: "headers_at V hs0 ds (hs[j_hdr j := hs0 ! j_hdr j])" and j: "j_hdr j < length hs0"
    using assms by (simp_all add: open_state_def)
  have l: "length hs = length hs0" using headers_at_append(3) [OF h] by simp
  have u: "hs[j_hdr j := hs0 ! j_hdr j] @ [x] = (hs @ [x])[j_hdr j := (hs0 @ [x]) ! j_hdr j]"
    using j l by (simp add: list_update_append nth_append)
  have n: "(hs0 @ [x]) ! j_hdr j = hs0 ! j_hdr j" "(hs @ [x]) ! j_hdr j = hs ! j_hdr j"
    using j l by (simp_all add: nth_append)
  note c = images_cong [OF headers_at_append(2) [OF h, of x]]
  have "headers_at V (hs0 @ [x]) ds ((hs @ [x])[j_hdr j := hs0 ! j_hdr j])"
    using headers_at_append(1) [OF h, of x] u n(1) by simp
  then show ?thesis using assms by (simp add: open_state_def n c [symmetric])
qed

lemma complete_append:
  assumes "complete V codec hs0 \<delta> base js w hs"
  shows "complete V codec (hs0 @ [x]) \<delta> base js w (hs @ [x])" "length hs = length hs0"
proof -
  have "complete V codec (hs0 @ [x]) \<delta> base js w (hs @ [x]) \<and> length hs = length hs0"
    using assms unfolding complete_def
  proof (elim disjE exE conjE)
    fix ds
    assume a: "map fst ds = js" "encoded codec hs0 ds" "closed_state V hs0 \<delta> base ds w hs"
    then have h: "headers_at V hs0 ds hs" by (simp add: closed_state_def)
    show "((\<exists>ds. map fst ds = js \<and> encoded codec (hs0 @ [x]) ds \<and> closed_state V (hs0 @ [x]) \<delta> base ds w (hs @ [x]))
       \<or> (\<exists>ds j. js = map fst ds @ [j] \<and> encoded codec (hs0 @ [x]) ds
          \<and> open_state V codec (hs0 @ [x]) \<delta> base ds j (job_plain j) w (hs @ [x]))) \<and> length hs = length hs0"
      using a closed_state_append [OF a(3), of x] images_cong(3) [OF headers_at_append(2) [OF h, of x], of codec]
        headers_at_append(3) [OF h] by blast
  next
    fix ds j
    assume a: "js = map fst ds @ [j]" "encoded codec hs0 ds" "open_state V codec hs0 \<delta> base ds j (job_plain j) w hs"
    then have h: "headers_at V hs0 ds (hs[j_hdr j := hs0 ! j_hdr j])" by (simp add: open_state_def)
    show "((\<exists>ds. map fst ds = js \<and> encoded codec (hs0 @ [x]) ds \<and> closed_state V (hs0 @ [x]) \<delta> base ds w (hs @ [x]))
       \<or> (\<exists>ds j. js = map fst ds @ [j] \<and> encoded codec (hs0 @ [x]) ds
          \<and> open_state V codec (hs0 @ [x]) \<delta> base ds j (job_plain j) w (hs @ [x]))) \<and> length hs = length hs0"
      using a open_state_append [OF a(3), of x] images_cong(3) [OF headers_at_append(2) [OF h, of x], of codec]
        headers_at_append(3) [OF h] by auto
  qed
  then show "complete V codec (hs0 @ [x]) \<delta> base js w (hs @ [x])" "length hs = length hs0" by auto
qed

end

text \<open>The sizes and the checksum in the header of an open entry do not matter until it is closed.\<close>

definition measured :: "u32 \<Rightarrow> u64 \<Rightarrow> u64 \<Rightarrow> FileHeader \<Rightarrow> FileHeader" where
  "measured c cs us fh = fh\<lparr>CRC32 := c, CompressedSize64 := cs, UncompressedSize64 := us\<rparr>"

lemma encw_Write_cong:
  assumes "zcw_checkBytes (Some h) = zcw_checkBytes (Some h')"
  shows "encw_Write h wr = encw_Write h' wr"
proof (intro ext)
  fix e p
  have "zipCryptoWriter_writeHeader wr' (Some h) z = zipCryptoWriter_writeHeader wr' (Some h') z"
    for wr' :: "'a countWriter write_fn" and z
    by (simp only: zipCryptoWriter_writeHeader_def assms)
  then show "encw_Write h wr e p = encw_Write h' wr e p"
    by (cases e) (simp_all add: zipCryptoWriter_Write_def)
qed

lemma job_header_measured:
  "job_header (measured c cs us fh) = measured c cs us (job_header fh)"
  "zcw_checkBytes (Some (measured c cs us (job_header fh))) = zcw_checkBytes (Some (job_header fh))"
  "fileHeader_wire (measured c cs us h) = fileHeader_wire h" "Name (measured c cs us h) = Name h"
  "Extra (measured c cs us h) = Extra h" "Method (measured c cs us h) = Method h"
  "header_fits (measured c cs us h) = header_fits h"
  using flag_or_eight(2) [of "Flags fh"]
  by (simp_all add: job_header_def enc_header_def streamed_header_def writesAES_def measured_def fileHeader_wire_def
      zcw_checkBytes_def zipCryptoCheckBytes_def header_fits_def)

lemma job_kind_measured: "job_kind V j (measured c cs us fh) = job_kind V j fh"
  using flag_or_eight(2) [of "Flags fh"]
  by (cases "password fh"; cases "encryption fh = StandardEncryption")
    (simp_all add: job_kind_def enc_kind_of_def streamed_header_def measured_def zcw_checkBytes_def zipCryptoCheckBytes_def)

lemma job_ok_measured: "job_ok V codec j (measured c cs us fh) = job_ok V codec j fh"
proof -
  have "streamed_header (measured c cs us fh) = measured c cs us (streamed_header fh)"
    by (simp add: streamed_header_def measured_def)
  moreover have "enc_ready S rnd (measured c cs us h) = enc_ready S rnd h" for S rnd h
    by (cases "password h"; cases "encryption h = StandardEncryption") (simp_all add: enc_ready_def measured_def)
  moreover have "CompressionLevel (measured c cs us fh) = CompressionLevel fh" by (simp add: measured_def)
  ultimately show ?thesis by (simp add: job_ok_def job_header_measured)
qed

context archive
begin

lemma open_state_measured:
  assumes o: "open_state V codec (hs0 @ [fh]) \<delta> base ds j acc w hs" and j: "j_hdr j = length hs0"
    and ds: "\<forall>d \<in> set ds. j_hdr (fst d) < length hs0"
  shows "open_state V codec (hs0 @ [measured c cs us fh]) \<delta> base ds j acc w
    (hs[length hs0 := measured c cs us (hs ! length hs0)])"
proof -
  let ?m = "measured c cs us" and ?hs0 = "hs0 @ [fh]" and ?hs1 = "hs0 @ [measured c cs us fh]"
  have eq: "\<forall>d \<in> set ds. ?hs0 ! j_hdr (fst d) = ?hs1 ! j_hdr (fst d)" using ds by (simp add: nth_append)
  note im = images_cong [OF eq]
  from o obtain fw C where f: "wr_cw w = Some (zipw (fw_enc fw))" "wr_last w = Some (j_hdr j, fw)"
    "arc.opened \<delta> C (job_codes codec j fh) (j_raw j)
        (base @ images V ?hs0 ds @ fileHeader_wire (job_header fh) @ Name (job_header fh) @ Extra (job_header fh))
        (job_kind V j fh) (job_header fh) fw acc"
    unfolding open_state_def by (auto simp: j)
  have h: "hs ! length hs0 = job_header fh" "headers_at V ?hs0 ds (hs[length hs0 := fh])" "j_hdr j \<notin> (j_hdr \<circ> fst) ` set ds"
    using o by (simp_all add: open_state_def j)
  have l: "length hs = Suc (length hs0)" using h(2) by (simp add: headers_at_def)
  note J = job_header_measured
  have k: "kind_ok (?m (job_header fh)) K = kind_ok (job_header fh) K" for K by (cases K) (simp_all add: J(2))
  have oc: "arc.opened \<delta> C codes raw b K (?m (job_header fh)) fw acc = arc.opened \<delta> C codes raw b K (job_header fh) fw acc"
    for codes raw b K by (simp only: arc.opened_def k encw_Write_cong [OF J(2)])
  have jc: "job_codes codec j (?m fh) = job_codes codec j fh" by (simp add: job_codes_def J)
  have "arc.opened \<delta> C (job_codes codec j (?m fh)) (j_raw j)
        (base @ images V ?hs1 ds @ fileHeader_wire (job_header (?m fh)) @ Name (job_header (?m fh)) @ Extra (job_header (?m fh)))
        (job_kind V j (?m fh)) (job_header (?m fh)) fw acc"
    using f(3) by (simp only: jc J job_kind_measured im(1) oc)
  moreover have "headers_at V ?hs1 ds (hs[length hs0 := ?m fh])"
  proof -
    have "\<forall>d \<in> set ds. final_of V ?hs0 d = final_of V ?hs1 d" using eq by (simp add: final_of_def)
    with h(2) ds l show ?thesis
      by (auto simp: headers_at_def nth_append nth_list_update less_Suc_eq)
  qed
  ultimately show ?thesis
    using o f(1,2) h l by (auto simp: open_state_def j im J)
qed

end

text \<open>The header of the copy, before the sizes and the checksum of the descriptor are put in.\<close>

definition copied_header ::
  "byte list \<Rightarrow> (OverridableFileHeader \<Rightarrow> OverridableFileHeader) option \<Rightarrow> FileHeader \<Rightarrow> FileHeader" where
  "copied_header newPassword modifyHeader fh = rekeyed newPassword (Flags fh AND 0x1 \<noteq> 0)
     (overridden modifyHeader (fh\<lparr>Extra := removeExtraField (Extra fh) zip64ExtraId\<rparr>))"

text \<open>The parts \<open>CopyRawPart\<close> can copy with the password \<open>old\<close>.\<close>

definition copyable :: "('z, 'c) writer_env \<Rightarrow> (u16 \<Rightarrow> byte list \<Rightarrow> byte list \<Rightarrow> bool) \<Rightarrow> job \<Rightarrow> FileHeader
    \<Rightarrow> byte list \<Rightarrow> bool" where
  "copyable V codec j fh old \<longleftrightarrow> job_ok V codec j fh \<and> \<not> writesAES fh \<and> password_agrees fh
     \<and> (\<forall>pw. password fh = Some pw \<longrightarrow> old = pw \<and> pw \<noteq> [] \<and> Method fh \<noteq> winzipAesMethod)"

lemma raw_source_written:
  fixes V :: "('z, 'c) writer_env"
  assumes "copyable V codec j fh old" "K = job_kind V j fh" "bs = encrypted K enc @ D"
    and "stripped bs = (encrypted K enc, Some d)" "delivers rd s bs ErrEOF"
    and "check = snd (zipCryptoCheckBytes (Flags (job_header fh)) (ModifiedTime fh) 0)"
  obtains source where
    "(if IsEncrypted fh
      then map_option (\<lambda>(err, dr). (err, RawDecrypted dr)) (zipCryptoDecryptReader_readHeader (raw_payload_Read rd)
             (newZipCryptoDecryptReader (Stripped (newDescriptorStripper s True)) old check True))
      else Some (None, RawPlain (Stripped (newDescriptorStripper s True)))) = Some (None, source)"
    "yields (raw_source_Read rd) source enc
       (\<lambda>t. \<exists>ds. raw_source_payload t = Stripped ds \<and> ds_desc ds = Some d)"
proof -
  have "yields (raw_payload_Read rd) (Stripped (newDescriptorStripper s True)) (encrypted K enc)
      (\<lambda>t. ds_desc (case t of Stripped ds \<Rightarrow> ds) = Some d \<and> t = Stripped (case t of Stripped ds \<Rightarrow> ds))"
    using yields_map [OF yields_strip [OF assms(5)], where g = Stripped and f = "\<lambda>t. case t of Stripped ds \<Rightarrow> ds"]
      assms(4) by simp
  note p = this
  show ?thesis
  proof (cases "password fh")
    case None
    then have K: "K = KPlain" "\<not> IsEncrypted fh"
      using assms(1,2) by (simp_all add: job_kind_def enc_kind_of_def streamed_header_def copyable_def password_agrees_def)
    have "yields (raw_source_Read rd) (RawPlain (Stripped (newDescriptorStripper s True))) enc
       (\<lambda>t. \<exists>ds. raw_source_payload t = Stripped ds \<and> ds_desc ds = Some d)"
      by (rule yields_weaken [OF yields_map [OF p, where g = RawPlain and f = "\<lambda>t. case t of RawPlain p \<Rightarrow> p"], unfolded K encrypted.simps])
        (auto split: raw_source.splits raw_payload.splits)
    with K that show ?thesis by simp
  next
    case (Some pw)
    then have e: "IsEncrypted fh" "encryption fh = StandardEncryption" "old = pw"
      using assms(1) by (auto simp: copyable_def password_agrees_def writesAES_def)
    have "enc_ready (env_suite V) (j_rnd j) (streamed_header fh)" using assms(1) by (simp add: copyable_def job_ok_def)
    then obtain r where r: "j_rnd j 10 = Inr r" "length r = 10"
      using Some e by (auto simp: enc_ready_def streamed_header_def)
    let ?chk = "zcw_checkBytes (Some (streamed_header fh))"
    have K: "K = KZip pw r ?chk"
      using Some e r by (simp add: assms(2) job_kind_def enc_kind_of_def) (simp add: streamed_header_def)
    have c: "check = snd ?chk"
      using flag_or_eight(2) [of "Flags fh"]
      by (simp add: assms(6) zcw_checkBytes_def zipCryptoCheckBytes_def streamed_header_def)
    have v: "zd_view (encrypted K enc) ErrEOF (newZipCryptoDecryptReader (Stripped (newDescriptorStripper s True)) old check True)
        = (enc, ErrEOF)"
      using zd_view_written [OF r(2), of True check "snd ?chk" pw "fst ?chk" enc ErrEOF] by (simp add: K c e(3))
    obtain zd where zd: "zipCryptoDecryptReader_readHeader (raw_payload_Read rd)
        (newZipCryptoDecryptReader (Stripped (newDescriptorStripper s True)) old check True) = Some (None, zd)"
      "yields (zipCryptoDecryptReader_Read (raw_payload_Read rd)) zd enc
        (\<lambda>z. ds_desc (case zd_r z of Stripped ds \<Rightarrow> ds) = Some d \<and> zd_r z = Stripped (case zd_r z of Stripped ds \<Rightarrow> ds))"
      by (rule yields_zip [OF p v]) simp
    have "yields (raw_source_Read rd) (RawDecrypted zd) enc
       (\<lambda>t. \<exists>ds. raw_source_payload t = Stripped ds \<and> ds_desc ds = Some d)"
      by (rule yields_weaken [OF yields_map [OF zd(2), where g = RawDecrypted and f = "\<lambda>t. case t of RawDecrypted p \<Rightarrow> p"]])
        (auto split: raw_source.splits raw_payload.splits)
    with e zd(1) that show ?thesis by simp
  qed
qed

lemma CopyRawPart_begin:
  assumes "header_fits (job_header fh)" "delivers rd s (job_image V0 j fh enc) ErrEOF"
  obtains s1 where "ReadLocalFileHeader rd s = Some (Inr (local_of (job_header fh)), s1)"
    "delivers rd s1 (job_payload V0 j fh enc @ descriptor (writesAES fh) (job_final V0 j fh enc)) ErrEOF"
proof -
  let ?H = "job_header fh"
  have "job_image V0 j fh enc = fileHeader_wire ?H @ Name ?H @ Extra ?H
      @ (job_payload V0 j fh enc @ descriptor (writesAES fh) (job_final V0 j fh enc))"
    by (simp add: job_image_def entry_image_def job_payload_def kind_is_aes_job)
  from ReadLocalFileHeader_written [OF assms(2) [unfolded this] assms(1)] that show ?thesis by blast
qed

lemma local_flags:
  "(Flags (local_of (job_header fh)) AND 1 \<noteq> 0) = IsEncrypted fh" "Flags (local_of (job_header fh)) AND 8 \<noteq> 0"
proof -
  have "y AND 1 = 0 \<or> y AND 1 = (1 :: u16)" for y by (simp add: and_one_eq mod2_eq_if)
  from this [of "Flags fh OR 8"] flag_or_eight [of "Flags fh"]
  show "(Flags (local_of (job_header fh)) AND 1 \<noteq> 0) = IsEncrypted fh"
    "Flags (local_of (job_header fh)) AND 8 \<noteq> 0" by (auto simp: IsEncrypted_def local_of_def)
qed

lemma stripped_written:
  fixes V :: "('z, 'c) writer_env"
  assumes "\<not> writesAES fh" "L = job_final V j fh enc" "descriptor_clear (job_payload V j fh enc) L"
  shows "stripped (job_payload V j fh enc @ descriptor False L) = (job_payload V j fh enc, Some \<lparr>dd_CRC32 = CRC32 L,
    dd_CompressedSize64 = CompressedSize64 L, dd_UncompressedSize64 = UncompressedSize64 L\<rparr>)"
  using final_fields(4) [OF assms(2)] assms(3)
  by (intro stripped_descriptor) (simp_all add: assms(2) job_final_def closed_header_sizes)

lemma raw_copy_buffer_pos: "0 < raw_copy_buffer source"
  by (auto simp: raw_copy_buffer_def copy_buffer_def less_max_iff_disj split: raw_source.splits raw_payload.splits)

context archive
begin

lemma complete_headers:
  assumes "complete V codec hs0 \<delta> base js w hs"
  shows "\<forall>j \<in> set js. j_hdr j < length hs0"
  using assms unfolding complete_def
  by (fastforce simp: closed_state_def open_state_def headers_at_def)

text \<open>Copying the contents of an open entry from a source that ends with the descriptor \<open>d\<close>, and closing it.\<close>

lemma copy_and_close:
  fixes V :: "('w archive_writer, 'c) writer_env"
  assumes o: "open_state V codec (hs0 @ [fh]) \<delta> base ds j [] w hs" and j: "j_hdr j = length hs0"
    and ds: "\<forall>d \<in> set ds. j_hdr (fst d) < length hs0"
    and src: "yields (raw_source_Read rd) source (job_plain j)
       (\<lambda>t. \<exists>ds. raw_source_payload t = Stripped ds \<and> ds_desc ds = Some d)" and k: "0 < k"
    and fh': "fh' = measured (dd_CRC32 d) (dd_CompressedSize64 d) (dd_UncompressedSize64 d) fh"
  obtains n w1 source' h w' hs' enc where
    "io_Copy (Writer_Write wr hs) (raw_source_Read rd) k 0 w source = Some (n, None, w1, source')"
    "raw_copied (raw_source_payload source') (hs ! length hs0) = Inr h"
    "Writer_closeLast V wr w1 (hs[length hs0 := h]) = (None, w', hs')"
    "closed_state V (hs0 @ [fh']) \<delta> base (ds @ [(j, enc)]) w' hs'" "job_codes codec j fh' enc (job_plain j)"
proof -
  have W: "\<exists>w'. Writer_Write wr hs w p = (length p, None, w') \<and> open_state V codec (hs0 @ [fh]) \<delta> base ds j (acc @ p) w' hs"
    if "open_state V codec (hs0 @ [fh]) \<delta> base ds j acc w hs" for w acc p
    by (rule Write_open [OF that, of p]) blast
  obtain n w1 source' where c: "io_Copy (Writer_Write wr hs) (raw_source_Read rd) k 0 w source = Some (n, None, w1, source')"
    "open_state V codec (hs0 @ [fh]) \<delta> base ds j ([] @ job_plain j) w1 hs"
    "\<exists>ds. raw_source_payload source' = Stripped ds \<and> ds_desc ds = Some d"
    by (rule yields_Copy [OF src, where R = "\<lambda>w acc. open_state V codec (hs0 @ [fh]) \<delta> base ds j acc w hs", OF W o k])
  let ?h = "measured (dd_CRC32 d) (dd_CompressedSize64 d) (dd_UncompressedSize64 d) (hs ! length hs0)"
  have h: "raw_copied (raw_source_payload source') (hs ! length hs0) = Inr ?h"
    using c(3) by (auto simp: raw_copied_def measured_def)
  from open_state_measured [OF c(2) j ds]
  have "open_state V codec (hs0 @ [fh']) \<delta> base ds j (job_plain j) w1 (hs[length hs0 := ?h])" by (simp add: fh')
  then obtain w' hs' enc where "Writer_closeLast V wr w1 (hs[length hs0 := ?h]) = (None, w', hs')"
    "job_codes codec j ((hs0 @ [fh']) ! j_hdr j) enc (job_plain j)"
    "closed_state V (hs0 @ [fh']) \<delta> base (ds @ [(j, enc)]) w' hs'"
    by (rule closeLast_open)
  with that [OF c(1) h] show ?thesis by (simp add: j)
qed

lemma CopyRawPart_complete:
  fixes V :: "('w archive_writer, 'c) writer_env" and V0 :: "('z, 'e) writer_env"
  assumes c: "complete V codec hs0 \<delta> base js w hs"
    and src: "copyable V0 codec0 j fh old" "L = job_final V0 j fh enc"
      "descriptor_clear (job_payload V0 j fh enc) L" "delivers rd s (job_image V0 j fh enc) ErrEOF"
    and fh': "fh' = copied_header new modifyHeader (local_of (job_header fh))"
    and j': "j' = \<lparr>j_raw = True, j_rnd = rnd, j_hdr = length hs0, j_writes = [enc]\<rparr>"
    and ok: "job_ok V codec j' fh'"
    and fh1: "fh1 = measured (CRC32 L) (CompressedSize64 L) (UncompressedSize64 L) fh'"
  shows "\<exists>s' w' hs'. CopyRawPart V wr rd rnd old new modifyHeader s w hs = Some (None, s', w', hs')
    \<and> complete V codec (hs0 @ [fh1]) \<delta> base (js @ [j']) w' hs'"
proof -
  let ?H = "job_header fh" and ?K = "job_kind V0 j fh" and ?P = "job_payload V0 j fh enc"
  let ?d = "\<lparr>dd_CRC32 = CRC32 L, dd_CompressedSize64 = CompressedSize64 L, dd_UncompressedSize64 = UncompressedSize64 L\<rparr>"
  have na: "\<not> writesAES fh" using src(1) by (simp add: copyable_def)
  have "\<not> kind_is_aes ?K" using na by (simp add: kind_is_aes_job)
  then have P: "?P = encrypted ?K enc" by (cases ?K) (simp_all add: job_payload_def kind_is_aes_def)
  have fits: "header_fits ?H" using src(1) by (simp add: copyable_def job_ok_def)
  obtain s1 where s1: "ReadLocalFileHeader rd s = Some (Inr (local_of ?H), s1)"
    "delivers rd s1 (encrypted ?K enc @ descriptor False L) ErrEOF"
    by (rule CopyRawPart_begin [OF fits src(4)]) (simp add: na P src(2))
  have st: "stripped (encrypted ?K enc @ descriptor False L) = (encrypted ?K enc, Some ?d)"
    using stripped_written [OF na src(2,3)] by (simp only: P)
  define check where "check = snd (zipCryptoCheckBytes (Flags ?H) (ModifiedTime fh) 0)"
  obtain source where source:
    "(if IsEncrypted fh
      then map_option (\<lambda>(err, dr). (err, RawDecrypted dr)) (zipCryptoDecryptReader_readHeader (raw_payload_Read rd)
             (newZipCryptoDecryptReader (Stripped (newDescriptorStripper s1 True)) old check True))
      else Some (None, RawPlain (Stripped (newDescriptorStripper s1 True)))) = Some (None, source)"
    "yields (raw_source_Read rd) source enc (\<lambda>t. \<exists>ds. raw_source_payload t = Stripped ds \<and> ds_desc ds = Some ?d)"
    by (rule raw_source_written [OF src(1) refl refl st s1(2) check_def])
  have l: "length hs = length hs0" by (rule complete_append(2) [OF c])
  obtain w1 hs1 ds where cl: "Writer_closeLast V wr w (hs @ [fh']) = (None, w1, hs1)" "map fst ds = js"
    "encoded codec (hs0 @ [fh']) ds" "closed_state V (hs0 @ [fh']) \<delta> base ds w1 hs1" "wr_detached w1 = wr_detached w"
    by (rule complete_closeLast [OF complete_append(1) [OF c, of fh']])
  have ds: "\<forall>d \<in> set ds. j_hdr (fst d) < length hs0" using complete_headers [OF c] unfolding cl(2) [symmetric] by simp
  have hj: "j_hdr j' = length hs0" "job_plain j' = enc" "j_raw j'" by (simp_all add: j' job_plain_def)
  have new: "job_ok V codec j' ((hs0 @ [fh']) ! j_hdr j')" "j_hdr j' < length (hs0 @ [fh'])"
    "j_hdr j' \<notin> (j_hdr \<circ> fst) ` set ds" using ok ds by (auto simp: hj)
  obtain w2 hs2 where o: "create_job V wr j' w1 hs1 = (None, w2, hs2)"
    "open_state V codec (hs0 @ [fh']) \<delta> base ds j' [] w2 hs2"
    by (rule create_closed [OF cl(4) new])
  have "create_job V wr j' w (hs @ [fh']) = (None, w2, hs2)"
    using create_after_closeLast [OF cl(1,5) _ closeLast_closed [OF cl(4)]] o(1) cl(4)
    by (simp add: closed_state_def)
  then have cr: "CreateRaw V wr rnd (length hs0) w (hs @ [fh']) = (None, w2, hs2)"
    by (simp add: create_job_def j')
  note y = source(2) [folded hj(2)]
  obtain n w3 source' h w4 hs4 enc' where f:
    "io_Copy (Writer_Write wr hs2) (raw_source_Read rd) (raw_copy_buffer source) 0 w2 source = Some (n, None, w3, source')"
    "raw_copied (raw_source_payload source') (hs2 ! length hs0) = Inr h"
    "Writer_closeLast V wr w3 (hs2[length hs0 := h]) = (None, w4, hs4)"
    "closed_state V (hs0 @ [fh1]) \<delta> base (ds @ [(j', enc')]) w4 hs4" "job_codes codec j' fh1 enc' (job_plain j')"
    by (rule copy_and_close [OF o(2) hj(1) ds y raw_copy_buffer_pos]) (simp_all add: fh1)
  have old: "IsEncrypted fh \<Longrightarrow> old \<noteq> [] \<and> Method fh \<noteq> winzipAesMethod"
    using src(1) by (auto simp: copyable_def password_agrees_def)
  have lo: "Flags (local_of ?H) = Flags fh OR 8" "Method (local_of ?H) = Method fh" "CRC32 (local_of ?H) = 0"
    "ModifiedTime (local_of ?H) = ModifiedTime fh"
    using na by (simp_all add: local_of_def zeroFileHeader_def)
  note fl = local_flags [of fh, unfolded lo(1)]
  have fh'': "rekeyed new (IsEncrypted fh) (overridden modifyHeader
      ((local_of ?H)\<lparr>Extra := removeExtraField (Extra (local_of ?H)) zip64ExtraId\<rparr>)) = fh'"
    by (simp only: fh' copied_header_def lo(1) fl(1))
  have ck: "snd (zipCryptoCheckBytes (Flags fh OR 8) (ModifiedTime fh) 0) = check" by (simp add: check_def)
  have g: "(IsEncrypted fh \<and> Method fh = winzipAesMethod) = False" "(IsEncrypted fh \<and> old = []) = False"
    using old by auto
  have "CopyRawPart V wr rd rnd old new modifyHeader s w hs
      = Some (None, raw_payload_src (raw_source_payload source'), w4, hs4)"
    unfolding CopyRawPart_def
    by (simp only: s1(1) Option.bind.bind_lunit case_prod_conv sum.case Let_def lo fl fh'' ck g simp_thms if_False if_True
        source(1) option.case cr l f(1-3))
  moreover have "closed_state V (hs0 @ [fh1]) \<delta> base (ds @ [(j', enc')]) w4 hs4" by (rule f(4))
  moreover have "encoded codec (hs0 @ [fh1]) (ds @ [(j', enc')])"
  proof -
    have "\<forall>d \<in> set ds. (hs0 @ [fh']) ! j_hdr (fst d) = (hs0 @ [fh1]) ! j_hdr (fst d)" using ds by (simp add: nth_append)
    from images_cong(3) [OF this, of codec] cl(3) f(5) show ?thesis by (simp add: encoded_def hj)
  qed
  ultimately have "CopyRawPart V wr rd rnd old new modifyHeader s w hs
      = Some (None, raw_payload_src (raw_source_payload source'), w4, hs4)
    \<and> complete V codec (hs0 @ [fh1]) \<delta> base (js @ [j']) w4 hs4"
    using cl(2) unfolding complete_def by auto
  then show ?thesis by blast
qed

end

lemma copied_header_fields:
  assumes "h = copied_header new modifyHeader fh"
  shows "password_agrees h" "\<not> writesAES h" "Method h = Method fh"
    "password h = (if new \<noteq> [] \<and> Flags fh AND 0x1 \<noteq> 0 then Some new else None)"
proof -
  have "(x OR 1) AND 1 = (1 :: u16)" for x by (rule bit_word_eqI) (auto simp: bit_simps)
  moreover have "(x AND - 2) AND 1 \<noteq> (1 :: u16)" for x by (simp add: and.assoc)
  ultimately show "password_agrees h"
    by (simp add: assms copied_header_def rekeyed_def password_agrees_def IsEncrypted_def SetPassword_def
        SetEncryptionMethod_def setEncryptionBit_def Let_def)
  show "\<not> writesAES h" "Method h = Method fh"
    "password h = (if new \<noteq> [] \<and> Flags fh AND 0x1 \<noteq> 0 then Some new else None)"
    by (simp_all add: assms copied_header_def rekeyed_def overridden_def writesAES_def SetPassword_def
        SetEncryptionMethod_def setEncryptionBit_def Let_def)
qed

lemma measured_fields [simp]:
  "password (measured c cs us h) = password h" "Method (measured c cs us h) = Method h"
  "writesAES (measured c cs us h) = writesAES h" "password_agrees (measured c cs us h) = password_agrees h"
  "header_plain (measured c cs us h) = header_plain h"
  "CRC32 (measured c cs us h) = c" "UncompressedSize64 (measured c cs us h) = us"
  by (simp_all add: measured_def writesAES_def password_agrees_def IsEncrypted_def header_plain_def)

text \<open>The copy has the contents of its source.\<close>

lemma contents_copied:
  fixes V :: "('z, 'c) writer_env"
  assumes j: "job_codes codec j fh enc (job_plain j)" "contents codec j fh plain" and na: "\<not> writesAES fh"
    and L: "L = job_final V j fh enc" and h: "Method h = Method fh"
    and j': "j' = \<lparr>j_raw = True, j_rnd = rnd, j_hdr = a, j_writes = [enc]\<rparr>"
  shows "contents codec j' (measured (CRC32 L) (CompressedSize64 L) (UncompressedSize64 L) h) plain"
  using j na by (auto simp: contents_def job_codes_def j' h final_fields(5,6) [OF L] job_plain_def [of "\<lparr>j_raw = True, j_rnd = rnd, j_hdr = a, j_writes = [enc]\<rparr>"] split: if_splits)

text \<open>
  C5. Copying a part keeps its contents under the new password. Given an archive with entries already
  written, and a part of the package, plain or encrypted with ZipCrypto under \<open>old\<close>, in any chunks,
  \<open>CopyRawPart\<close> succeeds without decompressing it; closed and read back, the archive has one entry
  more, which opens, with the new password if the part was encrypted and a new one was given, to the
  contents of the part, and the entries written before still open to theirs.
\<close>

theorem CopyRawPart_contents:
  fixes V :: "(sink archive_writer, 'c) writer_env" and V0 :: "('z, 'e) writer_env"
  assumes "NewWriter [empty_sink] = Inr w"
    and "\<forall>j \<in> set js. job_ok V codec j (hs ! j_hdr j) \<and> header_plain (hs ! j_hdr j) \<and> j_hdr j < length hs"
    and "distinct (map j_hdr js)" and "write_jobs V sink_write js w hs = (e1, w1, hs1)"
    and "copyable V0 codec j fh old" and "job_codes codec j fh enc (job_plain j)" and "contents codec j fh plain"
    and "descriptor_clear (job_payload V0 j fh enc) (job_final V0 j fh enc)"
    and "delivers rd s (job_image V0 j fh enc) ErrEOF"
    and "fh' = copied_header new modifyHeader (local_of (job_header fh))" and "header_plain fh'"
    and "j' = \<lparr>j_raw = True, j_rnd = rnd, j_hdr = length hs, j_writes = [enc]\<rparr>" and "job_ok V codec j' fh'"
    and "\<forall>j \<in> set js. can_read R V codec (hs ! j_hdr j)" and "renv_suite R = env_suite V" and "decomps_ok R codec (Method fh)"
  shows "\<exists>s' w2 hs2 e w3 hs3. CopyRawPart V sink_write rd rnd old new modifyHeader s w1 hs1 = Some (None, s', w2, hs2)
    \<and> Writer_Close V sink_write w2 hs2 = (e, w3, hs3) \<and> e = None
    \<and> (let A = archive_data w3 in length A < 2 ^ 63 \<and> locator_ok A \<longrightarrow>
        (\<exists>r. NewReader (file_at A) (int (length A)) = Some (Inr r) \<and> length (rdr_File r) = Suc (length js)
          \<and> opens_to R (with_password fh' (rdr_File r ! length js)) plain
          \<and> (\<forall>i<length js. \<forall>p. contents codec (js ! i) (hs ! j_hdr (js ! i)) p \<longrightarrow>
               opens_to R (with_password (hs ! j_hdr (js ! i)) (rdr_File r ! i)) p)))"
proof -
  let ?L = "job_final V0 j fh enc"
  define fh1 where "fh1 = measured (CRC32 ?L) (CompressedSize64 ?L) (UncompressedSize64 ?L) fh'"
  let ?hs = "hs @ [fh1]" and ?js = "js @ [j']"
  note W = write_jobs_new [OF assms(1-4)]
  obtain s' w2 hs2 where c: "CopyRawPart V sink_write rd rnd old new modifyHeader s w1 hs1 = Some (None, s', w2, hs2)"
    "ar.complete V codec ?hs 0 [] ?js w2 hs2"
    using ar.CopyRawPart_complete [OF W(2) assms(5) refl assms(8-10,12,13) fh1_def] by blast
  obtain e w3 hs3 where cl: "Writer_Close V sink_write w2 hs2 = (e, w3, hs3)" by (metis prod_cases3)
  have na: "\<not> writesAES fh" using assms(5) by (simp add: copyable_def)
  note F = copied_header_fields [OF assms(10)]
  have m: "Method fh' = Method fh" using F(3) na by (simp add: local_of_def)
  have j': "j_hdr j' = length hs" by (simp add: assms(12))
  have ok: "\<forall>k \<in> set ?js. job_ok V codec k (?hs ! j_hdr k) \<and> header_plain (?hs ! j_hdr k) \<and> can_read R V codec (?hs ! j_hdr k)"
    using assms(2,11,13-16) F(1) m by (auto simp: nth_append j' fh1_def job_ok_measured can_read_def)
  then have pl: "\<forall>k \<in> set ?js. header_plain (?hs ! j_hdr k)" by simp
  obtain ds where ds: "e = None" "map fst ds = ?js" "encoded codec ?hs ds"
    "archive_data w3 = images V ?hs ds @ directory_bytes (entries_of V ?hs 0 ds)
      @ directory_end (of_nat (length ds)) (of_nat (length (directory_bytes (entries_of V ?hs 0 ds))))
          (of_nat (length (images V ?hs ds)))"
    by (rule archive_closed [OF c(2) pl cl])
  have "\<forall>k \<in> set (map fst ds). job_ok V codec k (?hs ! j_hdr k) \<and> header_plain (?hs ! j_hdr k) \<and> can_read R V codec (?hs ! j_hdr k)"
    using ok unfolding ds(2) .
  then have okd: "\<forall>d \<in> set ds. job_ok V codec (fst d) (?hs ! j_hdr (fst d)) \<and> header_plain (?hs ! j_hdr (fst d))
      \<and> can_read R V codec (?hs ! j_hdr (fst d))" by simp
  have len: "length ds = Suc (length js)" using arg_cong [OF ds(2), of length] by simp
  have nth: "fst (ds ! i) = ?js ! i" if "i < length ds" for i
    using arg_cong [OF ds(2), of "\<lambda>xs. xs ! i"] that by simp
  have plain: "contents codec j' (?hs ! j_hdr j') plain"
    using contents_copied [OF assms(6,7) na refl m assms(12)] by (simp add: j' fh1_def)
  have wp: "with_password (?hs ! j_hdr j') f = with_password fh' f" for f by (simp add: j' fh1_def with_password_def)
  have old: "?hs ! j_hdr (js ! i) = hs ! j_hdr (js ! i)" if "i < length js" for i
    using assms(2) nth_mem [OF that] by (simp add: nth_append)
  have "\<exists>r. NewReader (file_at A) (int (length A)) = Some (Inr r) \<and> length (rdr_File r) = Suc (length js)
      \<and> opens_to R (with_password fh' (rdr_File r ! length js)) plain
      \<and> (\<forall>i<length js. \<forall>p. contents codec (js ! i) (hs ! j_hdr (js ! i)) p \<longrightarrow>
           opens_to R (with_password (hs ! j_hdr (js ! i)) (rdr_File r ! i)) p)"
    if A: "A = archive_data w3" "length A < 2 ^ 63" "locator_ok A" for A
  proof -
    obtain r where r: "NewReader (file_at A) (int (length A)) = Some (Inr r)" "length (rdr_File r) = length ds"
      "\<forall>i<length ds. \<forall>p. contents codec (fst (ds ! i)) (?hs ! j_hdr (fst (ds ! i))) p \<longrightarrow>
         opens_to R (with_password (?hs ! j_hdr (fst (ds ! i))) (rdr_File r ! i)) p"
      using archive_opens [OF ds(4) [folded A(1)] A(2,3) ds(3) okd] by blast
    have "fst (ds ! length js) = j'" using nth [of "length js"] len by (simp add: nth_append)
    with r(3) [rule_format, of "length js" plain] len plain wp
    have "opens_to R (with_password fh' (rdr_File r ! length js)) plain" by simp
    moreover have "opens_to R (with_password (hs ! j_hdr (js ! i)) (rdr_File r ! i)) p"
      if i: "i < length js" and "contents codec (js ! i) (hs ! j_hdr (js ! i)) p" for i p
    proof -
      have "fst (ds ! i) = js ! i" using nth [of i] len i by (simp add: nth_append)
      with r(3) [rule_format, of i p] len that old [OF i] show ?thesis by simp
    qed
    ultimately show ?thesis using r(1,2) len by auto
  qed
  then show ?thesis using c(1) cl ds(1) by (auto simp: Let_def)
qed

lemma locator_ok_single:
  fixes V :: "('z, 'c) writer_env"
  assumes A: "A = images V hs ds @ directory_bytes (entries_of V hs 0 ds)
      @ directory_end (of_nat (length ds)) (of_nat (length (directory_bytes (entries_of V hs 0 ds))))
          (of_nat (length (images V hs ds)))"
    and ds: "ds = [d]" and h: "h = final_of V hs d"
    and c: "Comment h = replicate 20 0" "length (Name h) \<le> 1000" "length (Extra h) \<le> 1000"
    and im: "length (image_of V hs d) \<le> 1000"
  shows "locator_ok A" "length A < 2 ^ 63"
proof -
  have D: "directory_bytes (entries_of V hs 0 ds) = directory_record h 0" by (simp add: ds h)
  then obtain Y where Y: "images V hs ds @ directory_bytes (entries_of V hs 0 ds) = Y @ replicate 20 0"
    using c(1) by (simp add: ds directory_record_def)
  from A show "locator_ok A"
    by (intro locator_ok_written [of _ "Y @ replicate 20 0"] no_locator_zeros) (simp add: Y [symmetric])
  have e: "length (directory_end n s off) \<le> 98" for n s off by (simp add: directory_end_def)
  have "length (directory_record h 0) \<le> 3000" using c length_directory_extra [of h 0] by (simp add: length_directory_record)
  with im e [of "of_nat (length ds)" "of_nat (length (directory_record h 0))" "of_nat (length (images V hs ds))"]
  have "length A \<le> 5000" unfolding A D by (simp add: ds)
  then show "length A < 2 ^ 63" by simp
qed

section \<open>Examples\<close>

text \<open>A part encrypted with ZipCrypto, and what the callback does to its header.\<close>

definition zip_entry :: FileHeader where
  "zip_entry = zeroFileHeader\<lparr>Name := [97], Flags := 1, password := Some [112, 119], encryption := StandardEncryption\<rparr>"

definition toy_override :: "OverridableFileHeader \<Rightarrow> OverridableFileHeader" where
  "toy_override ov = ov\<lparr>ov_Comment := replicate 20 0\<rparr>"

definition toy_copy_header :: FileHeader where
  "toy_copy_header = copied_header [110] (Some toy_override) (local_of (job_header zip_entry))"

definition toy_copy_job :: job where
  "toy_copy_job = \<lparr>j_raw = True, j_rnd = toy_rand, j_hdr = 0, j_writes = [[1, 2, 3]]\<rparr>"

lemma zip_entry_facts:
  defines "V \<equiv> toy_env :: (sink archive_writer, int) writer_env"
  shows "copyable V (\<lambda>_. (=)) toy_job zip_entry [112, 119]" "contents (\<lambda>_. (=)) toy_job zip_entry [1, 2, 3]"
    "job_codes (\<lambda>_. (=)) toy_job zip_entry [1, 2, 3] (job_plain toy_job)" "Method zip_entry = Store"
    "length (job_payload V toy_job zip_entry [1, 2, 3]) = 15" "IsEncrypted zip_entry"
proof -
  show z: "IsEncrypted zip_entry" "Method zip_entry = Store"
    by (simp_all add: zip_entry_def zeroFileHeader_def IsEncrypted_def Store_def)
  have w: "\<not> writesAES zip_entry" by (simp add: writesAES_def zip_entry_def)
  have p: "password zip_entry = Some [112, 119]" "encryption zip_entry = StandardEncryption"
    by (simp_all add: zip_entry_def)
  have "header_fits (job_header zip_entry)"
    by (simp add: header_fits_def job_header_def enc_header_def streamed_header_def writesAES_def p)
       (simp add: zip_entry_def zeroFileHeader_def)
  moreover have "enc_ready (env_suite V) toy_rand (streamed_header zip_entry)"
    by (simp add: enc_ready_def streamed_header_def p toy_rand_def)
  moreover have "compressor (env_flate V) (env_comps V) Store l = Some nop_compressor" for l by (simp add: compressor_def)
  ultimately have "job_ok V (\<lambda>_. (=)) toy_job zip_entry"
    using nop_compressor_ok z by (auto simp: job_ok_def toy_job_def)
  then show "copyable V (\<lambda>_. (=)) toy_job zip_entry [112, 119]"
    using w z p by (simp add: copyable_def password_agrees_def zip_methods)
  show "contents (\<lambda>_. (=)) toy_job zip_entry [1, 2, 3]"
    "job_codes (\<lambda>_. (=)) toy_job zip_entry [1, 2, 3] (job_plain toy_job)"
    by (simp_all add: contents_def job_codes_def toy_job_def job_plain_def)
  have "job_kind V toy_job zip_entry = KZip [112, 119] (replicate 10 5) (zcw_checkBytes (Some (streamed_header zip_entry)))"
    by (simp add: job_kind_def enc_kind_of_def toy_job_def toy_rand_def) (simp add: streamed_header_def p toy_rand_def)
  then show "length (job_payload V toy_job zip_entry [1, 2, 3]) = 15" by (simp add: job_payload_def length_zc_encrypt)
qed

lemma toy_copy_facts:
  defines "V \<equiv> toy_env :: (sink archive_writer, int) writer_env"
  shows "job_ok V (\<lambda>_. (=)) toy_copy_job toy_copy_header" "header_plain toy_copy_header"
    "Comment toy_copy_header = replicate 20 0" "Name toy_copy_header = [97]" "Extra toy_copy_header = []"
    "password toy_copy_header = Some [110]" "\<not> writesAES toy_copy_header"
proof -
  have fl: "Flags (local_of (job_header zip_entry)) AND 1 \<noteq> 0" by (simp add: local_of_def zip_entry_def)
  note F = copied_header_fields [OF toy_copy_header_def]
  show w: "\<not> writesAES toy_copy_header" by (rule F(2))
  show p: "password toy_copy_header = Some [110]" using F(4) fl by simp
  have x: "removeExtraField [] i = []" for i
    by (simp add: removeExtraField_def removeExtraField_loop.simps)
  have "\<not> writesAES zip_entry" by (simp add: writesAES_def zip_entry_def)
  then have l: "Name (local_of (job_header zip_entry)) = [97]" "Extra (local_of (job_header zip_entry)) = []"
    by (simp_all add: local_of_def job_header_def enc_header_def streamed_header_def writesAES_def)
       (simp_all add: zip_entry_def zeroFileHeader_def)
  show f: "Comment toy_copy_header = replicate 20 0" "Name toy_copy_header = [97]" "Extra toy_copy_header = []"
    by (simp_all add: toy_copy_header_def copied_header_def rekeyed_def overridden_def toy_override_def
      SetPassword_def SetEncryptionMethod_def setEncryptionBit_def Let_def l x)
  have "plain_fields []" by (simp add: plain_fields_def wfExtra_def)
  then show "header_plain toy_copy_header" by (auto simp: header_plain_def f intro!: exI [of _ "[]"])
  have "encryption toy_copy_header = StandardEncryption"
    using fl by (simp add: toy_copy_header_def copied_header_def rekeyed_def SetEncryptionMethod_def)
  note e = this
  then have "enc_ready (env_suite V) toy_rand (streamed_header toy_copy_header)"
    by (simp add: enc_ready_def streamed_header_def p toy_rand_def)
  moreover have "header_fits (job_header toy_copy_header)"
    by (simp add: header_fits_def job_header_def enc_header_def streamed_header_def writesAES_def f e)
  ultimately show "job_ok V (\<lambda>_. (=)) toy_copy_job toy_copy_header" by (simp add: job_ok_def toy_copy_job_def)
qed

lemma CopyRawPart_contents_witness:
  "\<exists>s' w w2 hs2 w3 hs3 A r. NewWriter [empty_sink] = Inr w
     \<and> CopyRawPart (toy_env :: (sink archive_writer, int) writer_env) sink_write creader_Read toy_rand
         [112, 119] [110] (Some toy_override)
         (byte_creader (job_image (toy_env :: (sink archive_writer, int) writer_env) toy_job zip_entry [1, 2, 3])) w []
       = Some (None, s', w2, hs2)
     \<and> Writer_Close toy_env sink_write w2 hs2 = (None, w3, hs3) \<and> A = archive_data w3
     \<and> NewReader (file_at A) (int (length A)) = Some (Inr r) \<and> length (rdr_File r) = 1
     \<and> opens_to toy_reader (File_SetPassword [110] (rdr_File r ! 0)) [1, 2, 3]"
proof -
  let ?V = "toy_env :: (sink archive_writer, int) writer_env" and ?c = "\<lambda>_ :: u16. (=) :: byte list \<Rightarrow> byte list \<Rightarrow> bool"
  let ?L = "job_final ?V toy_job zip_entry [1, 2, 3]"
  define fh1 where "fh1 = measured (CRC32 ?L) (CompressedSize64 ?L) (UncompressedSize64 ?L) toy_copy_header"
  note z = zip_entry_facts and t = toy_copy_facts
  obtain w where w: "NewWriter [empty_sink] = (Inr w :: (sink, int) Writer result)" by (simp add: NewWriter_def)
  have j: "write_jobs ?V sink_write [] w [] = (None, w, [])" by simp
  have no: "\<forall>j \<in> set []. job_ok ?V ?c j ([] ! j_hdr j) \<and> header_plain ([] ! j_hdr j) \<and> j_hdr j < length ([] :: FileHeader list)"
    "distinct (map j_hdr [])" by simp_all
  have cl: "descriptor_clear (job_payload ?V toy_job zip_entry [1, 2, 3]) ?L"
    by (rule descriptor_clear_small) (simp add: z(5))
  have s: "delivers creader_Read (byte_creader (job_image ?V toy_job zip_entry [1, 2, 3]))
      (job_image ?V toy_job zip_entry [1, 2, 3]) ErrEOF" by (rule delivers_byte_creader)
  have jj: "toy_copy_job = \<lparr>j_raw = True, j_rnd = toy_rand, j_hdr = length ([] :: FileHeader list), j_writes = [[1, 2, 3]]\<rparr>"
    by (simp add: toy_copy_job_def)
  have c: "ar.complete ?V ?c [] 0 [] [] w []" using NewWriter_complete [OF w] .
  obtain s' w2 hs2 where run: "CopyRawPart ?V sink_write creader_Read toy_rand [112, 119] [110] (Some toy_override)
      (byte_creader (job_image ?V toy_job zip_entry [1, 2, 3])) w [] = Some (None, s', w2, hs2)"
    "ar.complete ?V ?c [fh1] 0 [] [toy_copy_job] w2 hs2"
    using ar.CopyRawPart_complete [OF c z(1) refl cl s toy_copy_header_def jj t(1) fh1_def] by auto
  obtain e w3 hs3 where e: "Writer_Close ?V sink_write w2 hs2 = (e, w3, hs3)" by (metis prod_cases3)
  have hd: "j_hdr toy_copy_job = 0" by (simp add: toy_copy_job_def)
  have pl: "\<forall>j \<in> set [toy_copy_job]. header_plain ([fh1] ! j_hdr j)" using t(2) by (simp add: hd fh1_def)
  obtain ds where ds: "e = None" "map fst ds = [toy_copy_job]"
    "encoded ?c [fh1] ds" "archive_data w3 = images ?V [fh1] ds @ directory_bytes (entries_of ?V [fh1] 0 ds)
      @ directory_end (of_nat (length ds)) (of_nat (length (directory_bytes (entries_of ?V [fh1] 0 ds))))
          (of_nat (length (images ?V [fh1] ds)))"
    by (rule archive_closed [OF run(2) pl e])
  then have d: "ds = [(toy_copy_job, [1, 2, 3])]"
    by (auto simp: encoded_def job_codes_def job_plain_def toy_copy_job_def)
  let ?h = "final_of ?V [fh1] (toy_copy_job, [1, 2, 3])"
  have m: "job_aes fh1 = None" "Name fh1 = [97]" "Extra fh1 = []" "Comment fh1 = replicate 20 0"
    using t by (simp_all add: job_aes_def fh1_def) (simp_all add: measured_def)
  have h: "Comment ?h = replicate 20 0" "length (Name ?h) \<le> 1000" "length (Extra ?h) \<le> 1000"
    by (simp_all add: final_of_def job_final_def hd m aes_field_def)
  have K: "job_kind ?V toy_copy_job fh1 = KZip [110] (replicate 10 5) (zcw_checkBytes (Some (streamed_header fh1)))"
    using t(6,7) by (simp add: fh1_def job_kind_def enc_kind_of_def writesAES_def toy_copy_job_def toy_rand_def)
      (simp add: streamed_header_def measured_def toy_rand_def)
  have "length (descriptor False x) \<le> 24" for x by (simp add: length_descriptor)
  from this [of ?h] have im: "length (image_of ?V [fh1] (toy_copy_job, [1, 2, 3])) \<le> 1000"
    by (simp add: image_of_def job_image_def entry_image_def hd K kind_is_aes_def m aes_field_def length_zc_encrypt final_of_def)
  note A = locator_ok_single [OF ds(4) d refl h im]
  have "\<forall>j \<in> set []. can_read toy_reader ?V ?c ([] ! j_hdr j)" by simp
  note C = CopyRawPart_contents [OF w no j z(1,3,2) cl s toy_copy_header_def t(2) jj t(1) this toy_entry_reads(4)]
  have "decomps_ok toy_reader ?c (Method zip_entry)" using toy_decomps(1) by (simp add: z(4))
  from C [OF this] run(1) e A ds(1) w t(6) show ?thesis by (auto simp: Let_def with_password_def)
qed

text \<open>
  C13. What \<open>CopyRawPart\<close> cannot copy it refuses before it touches the archive: a part encrypted with AES,
  an encrypted part without a password, and one with a password that the check byte of the part
  tells from the right one. The writer and the headers of the program are as before.
\<close>

theorem CopyRawPart_refused:
  fixes V0 :: "('z, 'e) writer_env"
  assumes "job_ok V0 codec j fh" and "IsEncrypted fh" and "delivers rd s (job_image V0 j fh enc) ErrEOF"
    and "writesAES fh \<or> Method fh \<noteq> winzipAesMethod \<and> (old = [] \<or> password fh \<noteq> None
      \<and> descriptor_clear (job_payload V0 j fh enc) (job_final V0 j fh enc)
      \<and> fst (zc_decrypt (NewZipCrypto old) (take 12 (job_payload V0 j fh enc))) ! 11 \<noteq> ucast (drop_bit 8 (ModifiedTime fh)))"
  shows "\<exists>s'. CopyRawPart V wr rd rnd old new modifyHeader s w hs
    = Some (Some (if writesAES fh then ErrRawAES else ErrPassword), s', w, hs)"
proof -
  let ?H = "job_header fh" and ?P = "job_payload V0 j fh enc" and ?L = "job_final V0 j fh enc"
  have fits: "header_fits ?H" using assms(1) by (simp add: job_ok_def)
  obtain s1 where s1: "ReadLocalFileHeader rd s = Some (Inr (local_of ?H), s1)"
    "delivers rd s1 (?P @ descriptor (writesAES fh) ?L) ErrEOF"
    by (rule CopyRawPart_begin [OF fits assms(3)])
  have m: "Method (local_of ?H) = (if writesAES fh then winzipAesMethod else Method fh)" by (simp add: local_of_def)
  note fl = local_flags [of fh]
  consider (aes) "writesAES fh" | (none) "\<not> writesAES fh" "Method fh \<noteq> winzipAesMethod" "old = []"
    | (wrong) "\<not> writesAES fh" "Method fh \<noteq> winzipAesMethod" "old \<noteq> []" "password fh \<noteq> None" "descriptor_clear ?P ?L"
      "fst (zc_decrypt (NewZipCrypto old) (take 12 ?P)) ! 11 \<noteq> ucast (drop_bit 8 (ModifiedTime fh))"
    using assms(4) by blast
  then show ?thesis
  proof cases
    case aes
    then show ?thesis using s1(1) m fl assms(2) by (simp add: CopyRawPart_def Let_def)
  next
    case none
    then show ?thesis using s1(1) m fl assms(2) by (simp add: CopyRawPart_def Let_def)
  next
    case wrong
    define check where "check = snd (zipCryptoCheckBytes (Flags (local_of ?H)) (ModifiedTime (local_of ?H)) (CRC32 (local_of ?H)))"
    have c: "check = ucast (drop_bit 8 (ModifiedTime fh))"
      using flag_or_eight(2) [of "Flags fh"] by (simp add: check_def zipCryptoCheckBytes_def local_of_def)
    have "enc_ready (env_suite V0) (j_rnd j) (streamed_header fh)" using assms(1) by (simp add: job_ok_def)
    then obtain r where r: "j_rnd j 10 = Inr r" "length r = 10"
      using wrong(1,4) by (auto simp: enc_ready_def streamed_header_def writesAES_def)
    then have "12 \<le> length ?P"
      using wrong(1,4) by (auto simp: job_payload_def job_kind_def enc_kind_of_def streamed_header_def writesAES_def length_zc_encrypt)
    then have v: "zd_view ?P ErrEOF (newZipCryptoDecryptReader (Stripped (newDescriptorStripper s1 True)) old check True) = ([], ErrPassword)"
      using wrong(6) by (simp add: zd_view_def newZipCryptoDecryptReader_def zipCryptoHeaderLen_def c split_beta)
    have d: "delivers rd s1 (?P @ descriptor False ?L) ErrEOF" using s1(2) wrong(1) by simp
    have y: "yields (raw_payload_Read rd) (Stripped (newDescriptorStripper s1 True)) ?P (\<lambda>_. True)"
      by (rule yields_weaken [OF yields_map [OF yields_strip [OF d], where g = Stripped and f = "\<lambda>t. case t of Stripped ds \<Rightarrow> ds"],
            unfolded stripped_written [OF wrong(1) refl wrong(5)] fst_conv]) simp_all
    obtain zd where "zipCryptoDecryptReader_readHeader (raw_payload_Read rd)
        (newZipCryptoDecryptReader (Stripped (newDescriptorStripper s1 True)) old check True) = Some (Some ErrPassword, zd)"
      by (rule yields_zip [OF y v]) simp
    then show ?thesis
      using s1(1) m fl assms(2) wrong(1-3) by (simp add: CopyRawPart_def Let_def flip: check_def)
  qed
qed

text \<open>
  C39. The new password is ignored for a part that is not encrypted: the copy is made as if none had been
  given, and its contents are stored without encryption.
\<close>

theorem CopyRawPart_plain_source:
  fixes V0 :: "('z, 'e) writer_env"
  assumes "job_ok V0 codec j fh" and "\<not> IsEncrypted fh" and "delivers rd s (job_image V0 j fh enc) ErrEOF"
  shows "CopyRawPart V wr rd rnd old new modifyHeader s w hs = CopyRawPart V wr rd rnd old [] modifyHeader s w hs
    \<and> password (copied_header new modifyHeader (local_of (job_header fh))) = None"
proof -
  have fits: "header_fits (job_header fh)" using assms(1) by (simp add: job_ok_def)
  obtain s1 where s1: "ReadLocalFileHeader rd s = Some (Inr (local_of (job_header fh)), s1)"
    by (rule CopyRawPart_begin [OF fits assms(3)])
  have "rekeyed new False h = rekeyed [] False h" for h by (simp add: rekeyed_def)
  with s1 assms(2) local_flags [of fh] show ?thesis
    by (simp add: CopyRawPart_def Let_def copied_header_fields(4) [OF refl])
qed

lemma CopyRawPart_refused_witness:
  "\<forall>(w :: (sink, int) Writer) hs.
     (\<exists>s'. CopyRawPart (toy_env :: (sink archive_writer, int) writer_env) sink_write creader_Read toy_rand [112, 119] [110] None
        (byte_creader (job_image (toy_env :: (sink archive_writer, int) writer_env) toy_job toy_entry [1, 2, 3])) w hs
        = Some (Some ErrRawAES, s', w, hs))
   \<and> (\<exists>s'. CopyRawPart (toy_env :: (sink archive_writer, int) writer_env) sink_write creader_Read toy_rand [] [110] None
        (byte_creader (job_image (toy_env :: (sink archive_writer, int) writer_env) toy_job zip_entry [1, 2, 3])) w hs
        = Some (Some ErrPassword, s', w, hs))"
proof -
  let ?V = "toy_env :: (sink archive_writer, int) writer_env"
  have a: "job_ok ?V (\<lambda>_. (=)) toy_job toy_entry" "IsEncrypted toy_entry" "writesAES toy_entry"
    using toy_entry_job toy_entry_reads(1,2) by (simp_all add: password_agrees_def)
      (simp add: toy_entry_def writesAES_def)
  have z: "job_ok ?V (\<lambda>_. (=)) toy_job zip_entry" "IsEncrypted zip_entry" "\<not> writesAES zip_entry" "Method zip_entry \<noteq> winzipAesMethod"
    using zip_entry_facts(1,4,6) by (simp_all add: copyable_def zip_methods)
  show ?thesis
    using CopyRawPart_refused [OF a(1,2) delivers_byte_creader, where V = ?V and wr = sink_write and rnd = toy_rand
        and old = "[112, 119]" and new = "[110]" and modifyHeader = None] a(3)
      CopyRawPart_refused [OF z(1,2) delivers_byte_creader, where V = ?V and wr = sink_write and rnd = toy_rand
        and old = "[]" and new = "[110]" and modifyHeader = None] z(3,4) by simp
qed

lemma CopyRawPart_plain_source_witness:
  "\<forall>(w :: (sink, int) Writer) hs.
     CopyRawPart (toy_env :: (sink archive_writer, int) writer_env) sink_write creader_Read toy_rand [] [110] None
        (byte_creader (job_image (toy_env :: (sink archive_writer, int) writer_env) toy_job plain_entry [1, 2, 3])) w hs
     = CopyRawPart (toy_env :: (sink archive_writer, int) writer_env) sink_write creader_Read toy_rand [] [] None
        (byte_creader (job_image (toy_env :: (sink archive_writer, int) writer_env) toy_job plain_entry [1, 2, 3])) w hs"
  using CopyRawPart_plain_source [OF plain_entry_facts(1,2) delivers_byte_creader] by blast

end
