(* ===== verification/Zip_Mode.thy ===== *)
theory Zip_Mode
  imports Zip_Struct
begin

text \<open>
  File modes (struct.go): Unix and MS-DOS attribute words, \<open>os.FileMode\<close>, \<open>FileHeader.Mode\<close> and
  \<open>FileHeader.SetMode\<close>.
\<close>

section \<open>File modes\<close>

text \<open>The bits of \<open>os.FileMode\<close> the package uses.\<close>

definition ModeDir :: u32 where "ModeDir = 0x80000000"
definition ModeSymlink :: u32 where "ModeSymlink = 0x08000000"
definition ModeDevice :: u32 where "ModeDevice = 0x04000000"
definition ModeNamedPipe :: u32 where "ModeNamedPipe = 0x02000000"
definition ModeSocket :: u32 where "ModeSocket = 0x01000000"
definition ModeSetuid :: u32 where "ModeSetuid = 0x00800000"
definition ModeSetgid :: u32 where "ModeSetgid = 0x00400000"
definition ModeCharDevice :: u32 where "ModeCharDevice = 0x00200000"
definition ModeSticky :: u32 where "ModeSticky = 0x00100000"
definition ModeIrregular :: u32 where "ModeIrregular = 0x00080000"

definition ModeType :: u32 where
  "ModeType = ModeDir OR ModeSymlink OR ModeNamedPipe OR ModeSocket OR ModeDevice
     OR ModeCharDevice OR ModeIrregular"

lemmas file_modes =
  ModeDir_def ModeSymlink_def ModeDevice_def ModeNamedPipe_def ModeSocket_def ModeSetuid_def
  ModeSetgid_def ModeCharDevice_def ModeSticky_def ModeIrregular_def ModeType_def

definition s_IFMT :: u32 where "s_IFMT = 0xf000"
definition s_IFSOCK :: u32 where "s_IFSOCK = 0xc000"
definition s_IFLNK :: u32 where "s_IFLNK = 0xa000"
definition s_IFREG :: u32 where "s_IFREG = 0x8000"
definition s_IFBLK :: u32 where "s_IFBLK = 0x6000"
definition s_IFDIR :: u32 where "s_IFDIR = 0x4000"
definition s_IFCHR :: u32 where "s_IFCHR = 0x2000"
definition s_IFIFO :: u32 where "s_IFIFO = 0x1000"
definition s_ISUID :: u32 where "s_ISUID = 0x800"
definition s_ISGID :: u32 where "s_ISGID = 0x400"
definition s_ISVTX :: u32 where "s_ISVTX = 0x200"

lemmas unix_modes =
  s_IFMT_def s_IFSOCK_def s_IFLNK_def s_IFREG_def s_IFBLK_def s_IFDIR_def s_IFCHR_def s_IFIFO_def
  s_ISUID_def s_ISGID_def s_ISVTX_def

definition msdosDir :: u32 where "msdosDir = 0x10"
definition msdosReadOnly :: u32 where "msdosReadOnly = 0x01"

text \<open>Go's \<open>0777\<close> is \<open>0x1ff\<close>, \<open>0666\<close> is \<open>0x1b6\<close>, \<open>0222\<close> is \<open>0x92\<close> and \<open>0200\<close> is \<open>0x80\<close>.\<close>

definition msdosModeToFileMode :: "u32 \<Rightarrow> u32" where
  "msdosModeToFileMode m =
     (let mode = (if m AND msdosDir \<noteq> 0 then ModeDir OR 0x1ff else 0x1b6)
      in if m AND msdosReadOnly \<noteq> 0 then mode AND NOT 0x92 else mode)"

definition fileModeToUnixMode :: "u32 \<Rightarrow> u32" where
  "fileModeToUnixMode mode =
     (let t = mode AND ModeType;
          m = (if t = ModeDir then s_IFDIR
               else if t = ModeSymlink then s_IFLNK
               else if t = ModeNamedPipe then s_IFIFO
               else if t = ModeSocket then s_IFSOCK
               else if t = ModeDevice then
                 (if mode AND ModeCharDevice \<noteq> 0 then s_IFCHR else s_IFBLK)
               else s_IFREG);
          m = (if mode AND ModeSetuid \<noteq> 0 then m OR s_ISUID else m);
          m = (if mode AND ModeSetgid \<noteq> 0 then m OR s_ISGID else m);
          m = (if mode AND ModeSticky \<noteq> 0 then m OR s_ISVTX else m)
      in m OR (mode AND 0x1ff))"

definition unixModeToFileMode :: "u32 \<Rightarrow> u32" where
  "unixModeToFileMode m =
     (let mode = m AND 0x1ff;
          t = m AND s_IFMT;
          mode = (if t = s_IFBLK then mode OR ModeDevice
                  else if t = s_IFCHR then mode OR (ModeDevice OR ModeCharDevice)
                  else if t = s_IFDIR then mode OR ModeDir
                  else if t = s_IFIFO then mode OR ModeNamedPipe
                  else if t = s_IFLNK then mode OR ModeSymlink
                  else if t = s_IFREG then mode
                  else if t = s_IFSOCK then mode OR ModeSocket
                  else mode);
          mode = (if m AND s_ISGID \<noteq> 0 then mode OR ModeSetgid else mode);
          mode = (if m AND s_ISUID \<noteq> 0 then mode OR ModeSetuid else mode)
      in if m AND s_ISVTX \<noteq> 0 then mode OR ModeSticky else mode)"

text \<open>\<open>FileHeader.Mode\<close> and \<open>FileHeader.SetMode\<close>; 47 is \<open>'/'\<close>.\<close>

definition Mode :: "FileHeader \<Rightarrow> u32" where
  "Mode h =
     (let c = drop_bit 8 (CreatorVersion h);
          mode = (if c = creatorUnix \<or> c = creatorMacOSX
                  then unixModeToFileMode (drop_bit 16 (ExternalAttrs h))
                  else if c = creatorNTFS \<or> c = creatorVFAT \<or> c = creatorFAT
                  then msdosModeToFileMode (ExternalAttrs h)
                  else 0)
      in if 0 < length (Name h) \<and> Name h ! (length (Name h) - 1) = 47
         then mode OR ModeDir else mode)"

definition SetMode :: "u32 \<Rightarrow> FileHeader \<Rightarrow> FileHeader" where
  "SetMode mode h =
     (let h = h\<lparr>CreatorVersion := (CreatorVersion h AND 0xff) OR push_bit 8 creatorUnix,
                ExternalAttrs := push_bit 16 (fileModeToUnixMode mode)\<rparr>;
          h = (if mode AND ModeDir \<noteq> 0
               then h\<lparr>ExternalAttrs := ExternalAttrs h OR msdosDir\<rparr> else h)
      in if mode AND 0x80 = 0
         then h\<lparr>ExternalAttrs := ExternalAttrs h OR msdosReadOnly\<rparr> else h)"

section \<open>Round trips\<close>


lemma and_single: "(m :: u32) AND push_bit k 1 = 0 \<or> m AND push_bit k 1 = push_bit k 1"
  by (cases "bit m k") (auto intro!: bit_word_eqI simp: bit_simps)

definition unixBits :: u32 where
  "unixBits = ModeType OR ModeSetuid OR ModeSetgid OR ModeSticky OR 0x1ff"

lemma mode_parts:
  assumes "m AND NOT unixBits = 0"
  shows "m = (m AND ModeType) OR (m AND ModeSetuid) OR (m AND ModeSetgid) OR (m AND ModeSticky)
    OR (m AND 0x1ff)"
proof -
  have "m = (m AND unixBits) OR (m AND NOT unixBits)"
    by (rule bit_word_eqI) (auto simp: bit_simps)
  with assms have "m = m AND unixBits" by simp
  then show ?thesis
    by (simp add: unixBits_def bit.conj_disj_distrib or.assoc)
qed

definition unixTypes :: "u32 list" where
  "unixTypes = [0, ModeDir, ModeSymlink, ModeNamedPipe, ModeSocket, ModeDevice]"

lemma and_flag:
  "m AND ModeSetuid = 0 \<or> m AND ModeSetuid = ModeSetuid"
  "m AND ModeSetgid = 0 \<or> m AND ModeSetgid = ModeSetgid"
  "m AND ModeSticky = 0 \<or> m AND ModeSticky = ModeSticky"
  using and_single [of m 23] and_single [of m 22] and_single [of m 20] by (simp_all add: file_modes)

lemma perm_masks:
  assumes "(p :: u32) AND 0x1ff = p"
  shows "p AND 0x8F280000 = 0" "p AND 0x80000000 = 0" "p AND 0x800000 = 0" "p AND 0x400000 = 0"
    "p AND 0x100000 = 0" "p AND 0x200000 = 0" "p AND 0xf000 = 0" "p AND 0x800 = 0" "p AND 0x400 = 0"
    "p AND 0x200 = 0"
proof -
  have *: "p AND c = p AND (0x1ff AND c)" for c
    by (metis assms and.assoc)
  show "p AND 0x8F280000 = 0" by (subst *) simp
  show "p AND 0x80000000 = 0" by (subst *) simp
  show "p AND 0x800000 = 0" by (subst *) simp
  show "p AND 0x400000 = 0" by (subst *) simp
  show "p AND 0x100000 = 0" by (subst *) simp
  show "p AND 0x200000 = 0" by (subst *) simp
  show "p AND 0xf000 = 0" by (subst *) simp
  show "p AND 0x800 = 0" by (subst *) simp
  show "p AND 0x400 = 0" by (subst *) simp
  show "p AND 0x200 = 0" by (subst *) simp
qed

definition unixFlags :: "u32 list" where
  "unixFlags = [0, 0x100000, 0x400000, 0x500000, 0x800000, 0x900000, 0xC00000, 0xD00000]"

lemma mode_roundtrip_parts:
  fixes p :: u32
  assumes t: "t \<in> set unixTypes" and f: "f \<in> set unixFlags" and p: "p AND 0x1ff = p"
  shows "unixModeToFileMode (fileModeToUnixMode (t OR f OR p)) = t OR f OR p"
proof -
  note masks = perm_masks [OF p] p
  from t f show ?thesis
    unfolding unixTypes_def unixFlags_def file_modes unix_modes unixModeToFileMode_def
      fileModeToUnixMode_def
    apply (simp only: list.set insert_iff empty_iff simp_thms)
    apply (elim disjE)
    apply (simp_all add: masks bit.conj_disj_distrib2)
    apply (simp_all add: or.assoc or.commute [of p])
    apply (simp_all add: or.assoc [symmetric])
    done
qed

lemma unixFlags_mem: "m AND 0xD00000 \<in> set unixFlags"
proof -
  have "m AND 0xD00000 = (m AND 0x800000) OR (m AND 0x400000) OR (m AND 0x100000)"
    by (simp add: bit.conj_disj_distrib [symmetric])
  moreover have "m AND 0x800000 \<in> {0, 0x800000}" "m AND 0x400000 \<in> {0, 0x400000}"
    "m AND 0x100000 \<in> {0, 0x100000}"
    using and_single [of m 23] and_single [of m 22] and_single [of m 20] by simp_all
  ultimately show ?thesis by (auto simp: unixFlags_def)
qed

lemma unix_mode_roundtrip:
  assumes "m AND ModeType \<in> set unixTypes" and "m AND NOT unixBits = 0"
  shows "unixModeToFileMode (fileModeToUnixMode m) = m"
proof -
  have "m = (m AND unixBits) OR (m AND NOT unixBits)"
    by (rule bit_word_eqI) (auto simp: bit_simps)
  then have "m = m AND unixBits" using assms(2) by simp
  also have "\<dots> = (m AND ModeType) OR (m AND 0xD00000) OR (m AND 0x1ff)"
    by (simp add: bit.conj_disj_distrib [symmetric] unixBits_def file_modes)
  finally have "m = (m AND ModeType) OR (m AND 0xD00000) OR (m AND 0x1ff)" .
  moreover have "(m AND 0x1ff) AND 0x1ff = m AND 0x1ff"
    by (simp add: and.assoc)
  ultimately show ?thesis
    using mode_roundtrip_parts [OF assms(1) unixFlags_mem [of m]] by metis
qed

lemma fileModeToUnixMode_16: "fileModeToUnixMode m AND 0xFFFF = fileModeToUnixMode m"
proof -
  have "(m AND 0x1ff) AND 0xffff = m AND 0x1ff"
    by (simp add: and.assoc)
  then show ?thesis
    unfolding fileModeToUnixMode_def unix_modes Let_def
    by (simp add: bit.conj_disj_distrib2)
qed

lemma drop_16: "x AND 0xFFFF = x \<Longrightarrow> y AND 0xFFFF = y \<Longrightarrow> drop_bit 16 (push_bit 16 x OR y) = (x :: u32)"
proof (rule bit_word_eqI)
  fix n assume a: "x AND 0xFFFF = x" "y AND 0xFFFF = y" and n: "n < LENGTH(32)"
  have m: "(0xFFFF :: u32) = mask 16" by (simp add: mask_numeral)
  have "bit x n \<Longrightarrow> n < 16" "\<not> bit y (n + 16)"
    using a unfolding m by (metis bit_and_iff bit_mask_iff, metis bit_and_iff bit_mask_iff add_lessD1 less_irrefl_nat add.commute)
  then show "bit (drop_bit 16 (push_bit 16 x OR y)) n = bit x n"
    using n by (auto simp: bit_simps add.commute)
qed

lemma SetMode_ExternalAttrs:
  "drop_bit 16 (ExternalAttrs (SetMode m h)) = fileModeToUnixMode m"
proof -
  have *: "y AND 0xFFFF = y \<Longrightarrow> drop_bit 16 (push_bit 16 (fileModeToUnixMode m) OR y) = fileModeToUnixMode m"
    for y by (rule drop_16 [OF fileModeToUnixMode_16])
  from * [of 0] * [of "0x10"] * [of 1] * [of "0x11"] show ?thesis
    by (simp add: SetMode_def Let_def msdosDir_def msdosReadOnly_def or.assoc del: drop_bit_or)
qed

lemma SetMode_CreatorVersion: "drop_bit 8 (CreatorVersion (SetMode m h)) = creatorUnix"
proof -
  have "drop_bit 8 ((v AND 0xff) OR 0x300) = (3 :: u16)" for v :: u16
  proof (rule bit_word_eqI)
    fix n
    have m: "(0xff :: u16) = mask 8" by (simp add: mask_numeral)
    show "bit (drop_bit 8 ((v AND 0xff) OR 0x300)) n = bit (3 :: u16) n"
      unfolding m by (auto simp: bit_simps bit_numeral_simps)
  qed
  then show ?thesis
    by (simp add: SetMode_def Let_def creatorUnix_def del: drop_bit_or)
qed

lemma SetMode_Name: "Name (SetMode m h) = Name h"
  by (simp add: SetMode_def Let_def)

lemma or_absorb_bits: "m AND c = c \<Longrightarrow> m OR c = (m :: 'a::len word)"
  by (rule bit_word_eqI) (metis bit_and_iff bit_or_iff)

text \<open>Reading back the mode: the name of a directory adds \<open>ModeDir\<close> to what was set.\<close>

lemma Mode_SetMode_unix:
  "Mode (SetMode m h) = (if Name h \<noteq> [] \<and> last (Name h) = 47
     then unixModeToFileMode (fileModeToUnixMode m) OR ModeDir else unixModeToFileMode (fileModeToUnixMode m))"
  unfolding Mode_def Let_def SetMode_CreatorVersion SetMode_ExternalAttrs SetMode_Name
  by (auto simp: last_conv_nth)

lemma Mode_SetMode:
  assumes "m AND ModeType \<in> set unixTypes" and "m AND NOT unixBits = 0"
  shows "Mode (SetMode m h) = (if Name h \<noteq> [] \<and> last (Name h) = 47 then m OR ModeDir else m)"
  unfolding Mode_SetMode_unix unix_mode_roundtrip [OF assms] ..

text \<open>A mode with \<open>ModeCharDevice\<close> is written as one of a regular file with the same flags and permissions.\<close>

lemma fileModeToUnixMode_char:
  assumes "m AND ModeCharDevice \<noteq> 0"
  shows "fileModeToUnixMode m = fileModeToUnixMode (m AND 0xD001FF)"
proof -
  have "m AND ModeType \<noteq> t" if "t AND ModeCharDevice = 0" for t
  proof
    assume "m AND ModeType = t"
    then have "(m AND ModeType) AND ModeCharDevice = 0" using that by simp
    with assms show False by (simp add: and.assoc file_modes)
  qed
  then have t: "m AND ModeType \<noteq> ModeDir" "m AND ModeType \<noteq> ModeSymlink" "m AND ModeType \<noteq> ModeNamedPipe"
    "m AND ModeType \<noteq> ModeSocket" "m AND ModeType \<noteq> ModeDevice" by (simp_all add: file_modes)
  have q: "(m AND 0xD001FF) AND ModeType = 0" "(m AND 0xD001FF) AND ModeSetuid = m AND ModeSetuid"
    "(m AND 0xD001FF) AND ModeSetgid = m AND ModeSetgid" "(m AND 0xD001FF) AND ModeSticky = m AND ModeSticky"
    "(m AND 0xD001FF) AND 0x1ff = m AND 0x1ff" by (simp_all add: and.assoc file_modes)
  have z: "0 \<noteq> ModeDir" "0 \<noteq> ModeSymlink" "0 \<noteq> ModeNamedPipe" "0 \<noteq> ModeSocket" "0 \<noteq> ModeDevice"
    by (simp_all add: file_modes)
  show ?thesis unfolding fileModeToUnixMode_def Let_def q by (simp only: t z if_False)
qed

lemma or_ModeDir: "m AND ModeDir \<noteq> 0 \<Longrightarrow> m OR ModeDir = m"
  using and_single [of m 31] by (intro or_absorb_bits) (simp add: ModeDir_def)

text \<open>
  C36. \<open>SetMode\<close> and \<open>Mode\<close> are a round trip for every mode whose type Unix knows (all but character
  devices), with its set-id, sticky and permission bits, unless the name says directory and the mode
  does not.
\<close>

theorem SetMode_Mode:
  assumes "m AND ModeType \<in> set unixTypes" and "m AND NOT unixBits = 0"
    and "Name h \<noteq> [] \<Longrightarrow> last (Name h) = 47 \<Longrightarrow> m AND ModeDir \<noteq> 0"
  shows "Mode (SetMode m h) = m"
  using assms(3) by (auto simp: Mode_SetMode [OF assms(1,2)] or_ModeDir)

lemma SetMode_Mode_witness:
  "Mode (SetMode (ModeDir OR ModeSticky OR 0x1ff) (zeroFileHeader\<lparr>Name := [97, 47]\<rparr>))
     = ModeDir OR ModeSticky OR 0x1ff"
  by (rule SetMode_Mode) (simp_all add: file_modes unixTypes_def unixBits_def)

text \<open>
  C37. A character device loses its type, whatever the header is called and whatever else the mode says:
  \<open>os.ModeType\<close> contains \<open>ModeCharDevice\<close>, so the \<open>switch\<close> of \<open>fileModeToUnixMode\<close> never reaches \<open>s_IFCHR\<close>.
  The mode read back has the set-id, sticky and permission bits of the one set and no type, which is that
  of a regular file; only a name that ends in a slash makes it a directory.
\<close>

theorem SetMode_char_device:
  assumes "m AND ModeCharDevice \<noteq> 0"
  shows "Mode (SetMode m h) = (m AND (ModeSetuid OR ModeSetgid OR ModeSticky OR 0x1ff))
    OR (if Name h \<noteq> [] \<and> last (Name h) = 47 then ModeDir else 0)"
proof -
  have "(m AND 0xD001FF) AND ModeType \<in> set unixTypes" "(m AND 0xD001FF) AND NOT unixBits = 0"
    by (simp_all add: and.assoc file_modes unixTypes_def unixBits_def)
  note unix_mode_roundtrip [OF this]
  moreover have "m AND (ModeSetuid OR ModeSetgid OR ModeSticky OR 0x1ff) = m AND 0xD001FF"
    by (simp add: file_modes)
  ultimately show ?thesis
    unfolding Mode_SetMode_unix fileModeToUnixMode_char [OF assms] by simp
qed

lemma SetMode_char_device_witness:
  "Mode (SetMode (ModeDevice OR ModeCharDevice OR ModeSticky OR 0x1b6) (zeroFileHeader\<lparr>Name := [116, 116, 121]\<rparr>))
      = ModeSticky OR 0x1b6
    \<and> Mode (SetMode (ModeDevice OR ModeCharDevice OR 0x1b6) zeroFileHeader) = 0x1b6"
  using SetMode_char_device [of "ModeDevice OR ModeCharDevice OR ModeSticky OR 0x1b6" "zeroFileHeader\<lparr>Name := [116, 116, 121]\<rparr>"]
    SetMode_char_device [of "ModeDevice OR ModeCharDevice OR 0x1b6" zeroFileHeader]
  by (simp add: file_modes zeroFileHeader_def)

end
