(* ===== verification/Zip_Time.thy ===== *)
theory Zip_Time
  imports Zip_Struct
begin

text \<open>MS-DOS dates and times (struct.go), \<open>FileHeader.ModTime\<close> and \<open>FileHeader.SetModTime\<close>.\<close>


text \<open>
  \<open>time.Time\<close> in UTC is its civil fields (the package never looks at nanoseconds or at another
  zone). \<open>time_Date\<close> is \<open>time.Date\<close>, whose arguments may be out of range and are then carried
  over: October 32 is November 1.
\<close>

record civil =
  Year :: int
  Month :: int
  Day :: int
  Hour :: int
  Minute :: int
  Second :: int

definition days_in_month :: "int \<Rightarrow> int \<Rightarrow> int" where
  "days_in_month y m =
     (if m = 2 then (if y mod 4 = 0 \<and> (y mod 100 \<noteq> 0 \<or> y mod 400 = 0) then 29 else 28)
      else if m \<in> {4, 6, 9, 11} then 30 else 31)"

lemma days_in_month_bounds: "28 \<le> days_in_month y m" "days_in_month y m \<le> 31"
  by (auto simp: days_in_month_def)

function carry_days :: "int \<Rightarrow> int \<Rightarrow> int \<Rightarrow> int \<times> int \<times> int" where
  "carry_days y m d =
     (if d < 1 then
        let (y', m') = (if m \<le> 1 then (y - 1, 12) else (y, m - 1))
        in carry_days y' m' (d + days_in_month y' m')
      else if days_in_month y m < d then
        let (y', m') = (if 12 \<le> m then (y + 1, 1) else (y, m + 1))
        in carry_days y' m' (d - days_in_month y m)
      else (y, m, d))"
  by pat_completeness auto

termination
proof (relation "measure (\<lambda>(y, m, d). if d < 1 then nat (100 - d) else nat d)", goal_cases)
  case (2 y m d x y' m')
  then show ?case using days_in_month_bounds [of y' m'] by auto
next
  case (3 y m d x y' m')
  then show ?case using days_in_month_bounds [of y m] by auto
qed simp

declare carry_days.simps [simp del]

definition time_Date :: "int \<Rightarrow> int \<Rightarrow> int \<Rightarrow> int \<Rightarrow> int \<Rightarrow> int \<Rightarrow> civil" where
  "time_Date year month day hour minute sec =
     (let year = year + (month - 1) div 12; month = (month - 1) mod 12 + 1;
          minute = minute + sec div 60; sec = sec mod 60;
          hour = hour + minute div 60; minute = minute mod 60;
          day = day + hour div 24; hour = hour mod 24;
          (year, month, day) = carry_days year month day
      in \<lparr>Year = year, Month = month, Day = day, Hour = hour, Minute = minute, Second = sec\<rparr>)"

text \<open>
  Go's \<open>>>\<close>, \<open><<\<close> and \<open>&\<close> bind as tightly as \<open>*\<close> and tighter than \<open>+\<close>.
\<close>

definition msDosTimeToTime :: "u16 \<Rightarrow> u16 \<Rightarrow> civil" where
  "msDosTimeToTime dosDate dosTime =
     time_Date
       (uint (drop_bit 9 dosDate + 1980))
       (uint (drop_bit 5 dosDate AND 0xf))
       (uint (dosDate AND 0x1f))
       (uint (drop_bit 11 dosTime))
       (uint (drop_bit 5 dosTime AND 0x3f))
       (uint ((dosTime AND 0x1f) * 2))"

text \<open>Go's \<open>/\<close> on \<open>int\<close> truncates; \<open>t.Second()\<close> is never negative.\<close>

definition timeToMsDosTime :: "civil \<Rightarrow> u16 \<times> u16" where
  "timeToMsDosTime t =
     (word_of_int (Day t + push_bit 5 (Month t) + push_bit 9 (Year t - 1980)),
      word_of_int (Second t div 2 + push_bit 5 (Minute t) + push_bit 11 (Hour t)))"

definition ModTime :: "FileHeader \<Rightarrow> civil" where
  "ModTime h = msDosTimeToTime (ModifiedDate h) (ModifiedTime h)"

definition SetModTime :: "civil \<Rightarrow> FileHeader \<Rightarrow> FileHeader" where
  "SetModTime t h =
     (let (d, tm) = timeToMsDosTime t in h\<lparr>ModifiedDate := d, ModifiedTime := tm\<rparr>)"

definition valid_civil :: "civil \<Rightarrow> bool" where
  "valid_civil t \<longleftrightarrow> Month t \<in> {1..12} \<and> Day t \<in> {1..days_in_month (Year t) (Month t)}
     \<and> Hour t \<in> {0..23} \<and> Minute t \<in> {0..59} \<and> Second t \<in> {0..59}"

lemma time_Date_valid:
  "valid_civil t \<Longrightarrow> time_Date (Year t) (Month t) (Day t) (Hour t) (Minute t) (Second t) = t"
  by (subst time_Date_def) (simp add: Let_def valid_civil_def carry_days.simps)

lemma dos_fields:
  assumes "0 \<le> a" "a < 2 ^ k" "0 \<le> b" "b < 2 ^ l" "0 \<le> (c :: int)" 
  shows "(a + push_bit k b + push_bit (k + l) c) mod 2 ^ k = a"
    and "(a + push_bit k b + push_bit (k + l) c) div 2 ^ k mod 2 ^ l = b"
    and "(a + push_bit k b + push_bit (k + l) c) div 2 ^ (k + l) = c"
proof -
  have e: "a + push_bit k b + push_bit (k + l) c = a + 2 ^ k * (b + 2 ^ l * c)"
    by (simp add: push_bit_eq_mult power_add algebra_simps)
  show "(a + push_bit k b + push_bit (k + l) c) mod 2 ^ k = a"
    unfolding e using assms by simp
  have d: "(a + 2 ^ k * (b + 2 ^ l * c)) div 2 ^ k = b + 2 ^ l * c" using assms by simp
  show "(a + push_bit k b + push_bit (k + l) c) div 2 ^ k mod 2 ^ l = b"
    unfolding e d using assms by simp
  show "(a + push_bit k b + push_bit (k + l) c) div 2 ^ (k + l) = c"
    unfolding e power_add using assms d by (simp add: zdiv_zmult2_eq)
qed

lemma dos_numerals:
  "(5::nat) + 4 = 9" "(5::nat) + 6 = 11" "(2::int) ^ 4 = 16" "(2::int) ^ 5 = 32"
  "(2::int) ^ 6 = 64" "(2::int) ^ 9 = 512" "(2::int) ^ 11 = 2048"
  by simp_all

lemma dos_range:
  "0 \<le> a \<Longrightarrow> a < 2 ^ 5 \<Longrightarrow> 0 \<le> b \<Longrightarrow> b < 2 ^ 4 \<Longrightarrow> 0 \<le> c \<Longrightarrow> c < 128 \<Longrightarrow>
     0 \<le> a + push_bit 5 b + push_bit 9 c \<and> a + push_bit 5 b + push_bit 9 c < (65536 :: int)"
  by (simp add: push_bit_eq_mult)

lemma dos_range':
  "0 \<le> a \<Longrightarrow> a < 2 ^ 5 \<Longrightarrow> 0 \<le> b \<Longrightarrow> b < 2 ^ 6 \<Longrightarrow> 0 \<le> c \<Longrightarrow> c < 32 \<Longrightarrow>
     0 \<le> a + push_bit 5 b + push_bit 11 c \<and> a + push_bit 5 b + push_bit 11 c < (65536 :: int)"
  by (simp add: push_bit_eq_mult)

lemma dos_split: "x mod 2 ^ k + push_bit k (x div 2 ^ k mod 2 ^ l) + push_bit (k + l) (x div 2 ^ (k + l)) = (x :: int)"
proof -
  have "x div 2 ^ (k + l) = x div 2 ^ k div 2 ^ l" by (simp add: power_add zdiv_zmult2_eq)
  then have "x div 2 ^ k mod 2 ^ l + 2 ^ l * (x div 2 ^ (k + l)) = x div 2 ^ k" by simp
  then have "x mod 2 ^ k + 2 ^ k * (x div 2 ^ k mod 2 ^ l + 2 ^ l * (x div 2 ^ (k + l))) = x" by simp
  then show ?thesis by (simp only: push_bit_eq_mult power_add algebra_simps)
qed

lemma uint_and_mask: "uint ((w :: 'a::len word) AND mask n) = uint w mod 2 ^ n"
  by (simp only: take_bit_eq_mask [symmetric] unsigned_take_bit_eq take_bit_eq_mod [where 'a = int])

lemma uint_drop: "uint (drop_bit n (w :: 'a::len word)) = uint w div 2 ^ n"
  by (simp only: unsigned_drop_bit_eq drop_bit_eq_div [where 'a = int] bintr_uint order_refl)

lemma uint_of_small: "0 \<le> k \<Longrightarrow> k < 65536 \<Longrightarrow> uint (word_of_int k :: u16) = k"
  by (simp add: uint_word_of_int)

text \<open>
  The fields of a date are recovered from its bits, and the other way round.
\<close>

lemma dos_date_bits:
  "uint (drop_bit 9 d + 1980) = uint d div 512 + 1980"
  "uint (drop_bit 5 d AND 0xf) = uint d div 32 mod 16"
  "uint (d AND 0x1f) = uint d mod 32"
  for d :: u16
proof -
  have "0 \<le> uint d" "uint d < 65536" using uint_lt2p [of d] by simp_all
  then have "0 \<le> uint d div 512" "uint d div 512 < 128" by (simp_all add: div_less_iff_less_mult pos_imp_zdiv_nonneg_iff)
  then show "uint (drop_bit 9 d + 1980) = uint d div 512 + 1980"
    by (simp add: uint_word_ariths uint_drop)
  show "uint (drop_bit 5 d AND 0xf) = uint d div 32 mod 16"
    using uint_and_mask [of "drop_bit 5 d" 4] by (simp add: uint_drop mask_numeral)
  show "uint (d AND 0x1f) = uint d mod 32"
    using uint_and_mask [of d 5] by (simp add: mask_numeral)
qed

lemma dos_time_bits:
  "uint (drop_bit 11 t) = uint t div 2048"
  "uint (drop_bit 5 t AND 0x3f) = uint t div 32 mod 64"
  "uint ((t AND 0x1f) * 2) = uint t mod 32 * 2"
  for t :: u16
proof -
  show "uint (drop_bit 11 t) = uint t div 2048" by (simp add: uint_drop)
  show "uint (drop_bit 5 t AND 0x3f) = uint t div 32 mod 64"
    using uint_and_mask [of "drop_bit 5 t" 6] by (simp add: uint_drop mask_numeral)
  show "uint ((t AND 0x1f) * 2) = uint t mod 32 * 2"
    using uint_and_mask [of t 5] by (simp add: mask_numeral uint_word_ariths)
qed

text \<open>Decoding what was encoded.\<close>

lemma msdos_time_decode:
  assumes "valid_civil t" and "1980 \<le> Year t" and "Year t \<le> 2107"
  shows "msDosTimeToTime (fst (timeToMsDosTime t)) (snd (timeToMsDosTime t)) = t\<lparr>Second := Second t div 2 * 2\<rparr>"
proof -
  have v: "valid_civil (t\<lparr>Second := Second t div 2 * 2\<rparr>)"
    using assms(1) by (auto simp: valid_civil_def)
  have r: "0 \<le> Day t" "Day t < 2 ^ 5" "0 \<le> Month t" "Month t < 2 ^ 4" "0 \<le> Year t - 1980"
    "Year t - 1980 < 128" "0 \<le> Second t div 2" "Second t div 2 < 2 ^ 5" "0 \<le> Minute t"
    "Minute t < 2 ^ 6" "0 \<le> Hour t" "Hour t < 32"
    using assms days_in_month_bounds [of "Year t" "Month t"] by (auto simp: valid_civil_def)
  define D where "D = Day t + push_bit 5 (Month t) + push_bit 9 (Year t - 1980)"
  define T where "T = Second t div 2 + push_bit 5 (Minute t) + push_bit 11 (Hour t)"
  have "0 \<le> D" "D < 65536" "0 \<le> T" "T < 65536"
    using dos_range [OF r(1-6)] dos_range' [OF r(7-12)] by (simp_all only: D_def T_def)
  then have u: "uint (word_of_int D :: u16) = D" "uint (word_of_int T :: u16) = T"
    by (simp_all add: uint_of_small)
  have s: "timeToMsDosTime t = (word_of_int D, word_of_int T)"
    by (simp add: timeToMsDosTime_def D_def T_def)
  have "msDosTimeToTime (fst (timeToMsDosTime t)) (snd (timeToMsDosTime t)) = time_Date (D div 512 + 1980) (D div 32 mod 16) (D mod 32)
      (T div 2048) (T div 32 mod 64) (T mod 32 * 2)"
    by (simp add: msDosTimeToTime_def s dos_date_bits dos_time_bits u del: uint_word_of_int)
  moreover have "D div 512 = Year t - 1980" "D div 32 mod 16 = Month t" "D mod 32 = Day t"
    using dos_fields [OF r(1-5)] unfolding D_def
    by (simp_all only: dos_numerals)
  moreover have "T div 2048 = Hour t" "T div 32 mod 64 = Minute t" "T mod 32 = Second t div 2"
    using dos_fields [OF r(7-11)] unfolding T_def by (simp_all only: dos_numerals)
  ultimately have "msDosTimeToTime (fst (timeToMsDosTime t)) (snd (timeToMsDosTime t)) =
      time_Date (Year t - 1980 + 1980) (Month t) (Day t) (Hour t) (Minute t) (Second t div 2 * 2)"
    by (simp only:)
  then show ?thesis using time_Date_valid [OF v] by simp
qed

text \<open>
  C38. From 1980 to 2107, \<open>ModTime\<close> returns what \<open>SetModTime\<close> was given, to the even second below.
\<close>

theorem ModTime_SetModTime:
  assumes "valid_civil t" and "1980 \<le> Year t" and "Year t \<le> 2107"
  shows "ModTime (SetModTime t h) = t\<lparr>Second := Second t div 2 * 2\<rparr>"
  using msdos_time_decode [OF assms] by (simp add: ModTime_def SetModTime_def split_beta)

text \<open>
  Every pair of DOS words that encodes a date and time that exist survives decoding and encoding.
\<close>

theorem msdos_time_roundtrip:
  assumes "valid_civil \<lparr>Year = uint d div 512 + 1980, Month = uint d div 32 mod 16,
    Day = uint d mod 32, Hour = uint t div 2048, Minute = uint t div 32 mod 64,
    Second = uint t mod 32 * 2\<rparr>" (is "valid_civil ?c")
  shows "timeToMsDosTime (msDosTimeToTime d t) = (d, t)"
proof -
  have "msDosTimeToTime d t = ?c"
    using time_Date_valid [OF assms]
    by (simp add: msDosTimeToTime_def dos_date_bits dos_time_bits)
  moreover have "x mod 32 + push_bit 5 (x div 32 mod 16) + push_bit 9 (x div 512) = x" for x :: int
    using dos_split [of x 5 4] by simp
  moreover have "x mod 32 + push_bit 5 (x div 32 mod 64) + push_bit 11 (x div 2048) = x" for x :: int
    using dos_split [of x 5 6] by simp
  ultimately show ?thesis by (simp add: timeToMsDosTime_def)
qed

lemma ModTime_SetModTime_witness:
  "ModTime (SetModTime \<lparr>Year = 2024, Month = 2, Day = 29, Hour = 23, Minute = 59, Second = 59\<rparr>
     zeroFileHeader)
   = \<lparr>Year = 2024, Month = 2, Day = 29, Hour = 23, Minute = 59, Second = 58\<rparr>"
  using ModTime_SetModTime [of "\<lparr>Year = 2024, Month = 2, Day = 29, Hour = 23, Minute = 59, Second = 59\<rparr>"
      zeroFileHeader]
  by (simp add: valid_civil_def days_in_month_def)

lemma msdos_time_roundtrip_witness:
  "timeToMsDosTime (msDosTimeToTime 0x585D 0xBF7D) = (0x585D, 0xBF7D)"
  by (rule msdos_time_roundtrip) (simp add: valid_civil_def days_in_month_def)

end
