(* ===== verification/Zip_FileInfo.thy ===== *)
theory Zip_FileInfo
  imports Zip_Mode Zip_Time
begin

text \<open>
  The adapters between \<open>FileHeader\<close> and \<open>os.FileInfo\<close> (struct.go): \<open>FileHeader.FileInfo\<close> with the methods
  of \<open>headerFileInfo\<close>, and \<open>FileInfoHeader\<close>.
\<close>

section \<open>\<open>path.Base\<close>\<close>

text \<open>
  \<open>path.Base\<close> of the Go library: the part after the last slash that does not end the path (47 is \<open>'/'\<close>),
  \<open>"."\<close> for the empty path and \<open>"/"\<close> for one of slashes only.
\<close>

definition path_Base :: "byte list \<Rightarrow> byte list" where
  "path_Base path =
     (if path = [] then [46]
      else let path = dropWhile (\<lambda>c. c = 47) (rev path);
               path = rev (takeWhile (\<lambda>c. c \<noteq> 47) path)
           in if path = [] then [47] else path)"

section \<open>\<open>headerFileInfo\<close>\<close>

text \<open>
  What a client sees of an \<open>os.FileInfo\<close>: the results of its methods (\<open>Sys\<close>, which returns the header
  itself, left aside).
\<close>

record FileInfo =
  info_Name :: "byte list"
  info_Size :: int
  info_Mode :: u32
  info_ModTime :: civil
  info_IsDir :: bool

definition FileMode_IsDir :: "u32 \<Rightarrow> bool" where
  "FileMode_IsDir m \<longleftrightarrow> m AND ModeDir \<noteq> 0"

definition headerFileInfo_Name :: "FileHeader \<Rightarrow> byte list" where
  "headerFileInfo_Name fh = path_Base (Name fh)"

definition headerFileInfo_Size :: "FileHeader \<Rightarrow> int" where
  "headerFileInfo_Size fh =
     (if 0 < UncompressedSize64 fh then int64_of (UncompressedSize64 fh) else uint (UncompressedSize fh))"

definition headerFileInfo_IsDir :: "FileHeader \<Rightarrow> bool" where
  "headerFileInfo_IsDir fh \<longleftrightarrow> FileMode_IsDir (Mode fh)"

definition FileHeader_FileInfo :: "FileHeader \<Rightarrow> FileInfo" where
  "FileHeader_FileInfo h = \<lparr>info_Name = headerFileInfo_Name h, info_Size = headerFileInfo_Size h,
     info_Mode = Mode h, info_ModTime = ModTime h, info_IsDir = headerFileInfo_IsDir h\<rparr>"

section \<open>\<open>FileInfoHeader\<close>\<close>

definition FileInfoHeader :: "FileInfo \<Rightarrow> FileHeader" where
  "FileInfoHeader fi =
     (let size = info_Size fi;
          fh = zeroFileHeader\<lparr>Name := info_Name fi, UncompressedSize64 := uint64_of size\<rparr>;
          fh = SetModTime (info_ModTime fi) fh;
          fh = SetMode (info_Mode fi) fh
      in if UncompressedSize64 fh > uint32max then fh\<lparr>UncompressedSize := uint32max\<rparr>
         else fh\<lparr>UncompressedSize := ucast (UncompressedSize64 fh)\<rparr>)"

section \<open>The base name of a path\<close>

lemma path_Base_no_slash: "path_Base p = [47] \<or> path_Base p \<noteq> [] \<and> 47 \<notin> set (path_Base p)"
  by (auto simp: path_Base_def Let_def dest: set_takeWhileD)

lemma path_Base_id: "p \<noteq> [] \<Longrightarrow> 47 \<notin> set p \<Longrightarrow> path_Base p = p"
proof -
  assume p: "p \<noteq> []" "47 \<notin> set p"
  then have "dropWhile (\<lambda>c. c = 47) (rev p) = rev p"
    by (cases "rev p") (auto dest!: arg_cong [where f = set])
  moreover have "takeWhile (\<lambda>c. c \<noteq> 47) (rev p) = rev p"
    by (rule takeWhile_eq_all_conv [THEN iffD2]) (use p(2) in auto)
  ultimately show ?thesis unfolding path_Base_def Let_def using p(1) by (simp only: rev_rev_ident if_False)
qed

lemma SetMode_keeps [simp]:
  "Name (SetMode m h) = Name h" "UncompressedSize64 (SetMode m h) = UncompressedSize64 h"
  "CompressedSize64 (SetMode m h) = CompressedSize64 h"
  "ModifiedDate (SetMode m h) = ModifiedDate h" "ModifiedTime (SetMode m h) = ModifiedTime h"
  unfolding SetMode_def Let_def by simp_all

lemma SetModTime_keeps [simp]:
  "Name (SetModTime t h) = Name h" "UncompressedSize64 (SetModTime t h) = UncompressedSize64 h"
  "CompressedSize64 (SetModTime t h) = CompressedSize64 h"
  unfolding SetModTime_def Let_def split_beta by simp_all

lemma FileInfoHeader_fields:
  "Name (FileInfoHeader fi) = info_Name fi"
  "UncompressedSize64 (FileInfoHeader fi) = uint64_of (info_Size fi)"
  "CompressedSize64 (FileInfoHeader fi) = 0"
  "UncompressedSize (FileInfoHeader fi)
     = (if uint64_of (info_Size fi) > uint32max then uint32max else ucast (uint64_of (info_Size fi)))"
  by (simp_all add: FileInfoHeader_def Let_def zeroFileHeader_def)

lemma FileInfoHeader_mode:
  "\<exists>h. Mode (FileInfoHeader fi) = Mode (SetMode (info_Mode fi) h) \<and> Name h = info_Name fi"
  by (rule exI [of _ "SetModTime (info_ModTime fi) (zeroFileHeader\<lparr>Name := info_Name fi, UncompressedSize64 := uint64_of (info_Size fi)\<rparr>)"])
    (simp add: FileInfoHeader_def Let_def Mode_def)

lemma FileInfoHeader_time:
  "ModTime (FileInfoHeader fi)
     = msDosTimeToTime (fst (timeToMsDosTime (info_ModTime fi))) (snd (timeToMsDosTime (info_ModTime fi)))"
  by (simp add: FileInfoHeader_def Let_def ModTime_def) (simp add: SetModTime_def split_beta)

lemma min_size: "(if uint32max < w then uint32max else ucast w) = (uint32max :: u32) \<longleftrightarrow> uint32max \<le> (w :: u64)"
proof -
  have "unat (ucast w :: u32) = unat w" if "unat w < 2 ^ 32"
    using that by (simp add: unsigned_ucast_eq take_bit_nat_eq_self)
  then have "(ucast w = (0xFFFFFFFF :: u32)) = (unat w = 0xFFFFFFFF)" if "unat w < 2 ^ 32"
    using that unfolding word_unat_eq_iff [of "ucast w :: u32"] by simp
  then show ?thesis by (auto simp: word_less_nat_alt word_le_nat_alt)
qed

section \<open>Round trip\<close>

text \<open>
  C40. A header made from the \<open>os.FileInfo\<close> of a file describes it: its own \<open>FileInfo\<close> has the same base name,
  the same size (all of \<open>int64\<close>), the same mode and the same modification time up to the even second
  below, and the 32-bit size of the header is the zip64 marker exactly if the size needs zip64. Files of
  a type or a time the format cannot hold are excluded.
\<close>

theorem FileInfoHeader_FileInfo:
  assumes "info_Name fi \<noteq> []" and "47 \<notin> set (info_Name fi)" and "in_int64 (info_Size fi)"
    and "info_Mode fi AND ModeType \<in> set unixTypes" and "info_Mode fi AND NOT unixBits = 0"
    and "valid_civil (info_ModTime fi)" and "1980 \<le> Year (info_ModTime fi)" and "Year (info_ModTime fi) \<le> 2107"
    and "info_IsDir fi = FileMode_IsDir (info_Mode fi)"
  shows "FileHeader_FileInfo (FileInfoHeader fi)
      = fi\<lparr>info_ModTime := (info_ModTime fi)\<lparr>Second := Second (info_ModTime fi) div 2 * 2\<rparr>\<rparr>
    \<and> (UncompressedSize (FileInfoHeader fi) = uint32max \<longleftrightarrow> isZip64 (FileInfoHeader fi))"
proof -
  let ?h = "FileInfoHeader fi"
  note F = FileInfoHeader_fields [of fi]
  have m: "Mode ?h = info_Mode fi"
    using FileInfoHeader_mode [of fi] Mode_SetMode [OF assms(4,5)] assms(1,2) last_in_set [OF assms(1)] by metis
  have t: "ModTime ?h = (info_ModTime fi)\<lparr>Second := Second (info_ModTime fi) div 2 * 2\<rparr>"
    using msdos_time_decode [OF assms(6-8)] by (simp add: FileInfoHeader_time)
  have s: "headerFileInfo_Size ?h = info_Size fi"
    using int64_uint64_of [OF assms(3)] by (cases "UncompressedSize64 ?h = 0")
      (auto simp: headerFileInfo_Size_def F word_gt_0 int64_of_def)
  have "FileHeader_FileInfo ?h = fi\<lparr>info_ModTime := ModTime ?h\<rparr>"
    using assms(9) s m by (simp add: FileHeader_FileInfo_def headerFileInfo_Name_def headerFileInfo_IsDir_def F(1) path_Base_id [OF assms(1,2)])
  moreover have "UncompressedSize ?h = uint32max \<longleftrightarrow> isZip64 ?h"
    unfolding F min_size isZip64_def by simp
  ultimately show ?thesis using t by simp
qed

lemma FileInfoHeader_FileInfo_witness:
  "FileHeader_FileInfo (FileInfoHeader \<lparr>info_Name = [97], info_Size = 2 ^ 32 + 5, info_Mode = ModeSticky OR 0x1b4,
      info_ModTime = \<lparr>Year = 2024, Month = 2, Day = 29, Hour = 23, Minute = 59, Second = 59\<rparr>, info_IsDir = False\<rparr>)
    = \<lparr>info_Name = [97], info_Size = 2 ^ 32 + 5, info_Mode = ModeSticky OR 0x1b4,
      info_ModTime = \<lparr>Year = 2024, Month = 2, Day = 29, Hour = 23, Minute = 59, Second = 58\<rparr>, info_IsDir = False\<rparr>"
  using FileInfoHeader_FileInfo [of "\<lparr>info_Name = [97], info_Size = 2 ^ 32 + 5, info_Mode = ModeSticky OR 0x1b4,
      info_ModTime = \<lparr>Year = 2024, Month = 2, Day = 29, Hour = 23, Minute = 59, Second = 59\<rparr>, info_IsDir = False\<rparr>"]
  by (simp add: in_int64_def valid_civil_def days_in_month_def FileMode_IsDir_def file_modes unixTypes_def unixBits_def)

end
