(* ===== verification/Zip_ReadCloser.thy ===== *)
theory Zip_ReadCloser
  imports Zip_Reader
begin

text \<open>
  \<open>OpenReader\<close> and \<open>ReadCloser\<close> (reader.go): \<open>NewReader\<close> on a file of the operating system. The file is
  closed on every path that does not hand it to the client.
\<close>

section \<open>The operating system\<close>

text \<open>
  \<open>os.Open\<close>, \<open>File.Stat\<close> (its size), \<open>File.Close\<close> and \<open>File.ReadAt\<close> over a state \<open>'o\<close> of the process's
  files; \<open>'h\<close> is an \<open>*os.File\<close>.
\<close>

record ('o, 'h) os_files =
  os_Open :: "byte list \<Rightarrow> 'o \<Rightarrow> 'h result \<times> 'o"
  os_Stat :: "'h \<Rightarrow> 'o \<Rightarrow> int result \<times> 'o"
  os_Close :: "'h \<Rightarrow> 'o \<Rightarrow> zip_error option \<times> 'o"
  os_ReadAt :: "'h \<Rightarrow> 'o \<Rightarrow> read_at"

text \<open>
  What is relied on: \<open>Open\<close> gives a new open file or changes nothing, \<open>Close\<close> releases an open file even
  if it reports an error, \<open>Stat\<close> gives the size of the file and \<open>ReadAt\<close> its bytes.
\<close>

definition os_ok :: "('o, 'h) os_files \<Rightarrow> ('o \<Rightarrow> 'h set) \<Rightarrow> ('h \<Rightarrow> 'o \<Rightarrow> byte list) \<Rightarrow> bool" where
  "os_ok V opened bytes \<longleftrightarrow>
     (\<forall>name s h s'. os_Open V name s = (Inr h, s') \<longrightarrow> h \<notin> opened s \<and> opened s' = insert h (opened s)) \<and>
     (\<forall>name s e s'. os_Open V name s = (Inl e, s') \<longrightarrow> opened s' = opened s) \<and>
     (\<forall>h s r s'. h \<in> opened s \<longrightarrow> os_Stat V h s = (r, s') \<longrightarrow> opened s' = opened s \<and> bytes h s' = bytes h s
        \<and> (\<forall>n. r = Inr n \<longrightarrow> n = int (length (bytes h s)))) \<and>
     (\<forall>h s e s'. h \<in> opened s \<longrightarrow> os_Close V h s = (e, s') \<longrightarrow> opened s' = opened s - {h}) \<and>
     (\<forall>h s. h \<in> opened s \<longrightarrow> os_ReadAt V h s = file_at (bytes h s))"

section \<open>\<open>OpenReader\<close>\<close>

record 'h ReadCloser =
  rc_f :: 'h
  rc_Reader :: Reader

definition OpenReader ::
  "('o, 'h) os_files \<Rightarrow> byte list \<Rightarrow> 'o \<Rightarrow> ('h ReadCloser result \<times> 'o) option" where
  "OpenReader V name s = (case os_Open V name s of
     (Inl err, s) \<Rightarrow> Some (Inl err, s)
   | (Inr f, s) \<Rightarrow> (case os_Stat V f s of
       (Inl err, s) \<Rightarrow> Some (Inl err, snd (os_Close V f s))
     | (Inr sz, s) \<Rightarrow> do {
         r \<leftarrow> NewReader (os_ReadAt V f s) sz;
         Some (case r of
           Inl err \<Rightarrow> (Inl err, snd (os_Close V f s))
         | Inr r \<Rightarrow> (Inr \<lparr>rc_f = f, rc_Reader = r\<rparr>, s)) }))"

definition ReadCloser_Close :: "('o, 'h) os_files \<Rightarrow> 'h ReadCloser \<Rightarrow> 'o \<Rightarrow> zip_error option \<times> 'o" where
  "ReadCloser_Close V rc s = os_Close V (rc_f rc) s"

section \<open>No file is leaked\<close>

lemma os_okD:
  assumes "os_ok V opened bytes"
  shows "os_Open V name s = (Inr h, s') \<Longrightarrow> h \<notin> opened s \<and> opened s' = insert h (opened s)"
    and "os_Open V name s = (Inl e, s') \<Longrightarrow> opened s' = opened s"
    and "os_Stat V h s = (r, s') \<Longrightarrow> h \<in> opened s \<Longrightarrow> opened s' = opened s \<and> bytes h s' = bytes h s
        \<and> (\<forall>n. r = Inr n \<longrightarrow> n = int (length (bytes h s)))"
    and "os_Close V h s = (err, s') \<Longrightarrow> h \<in> opened s \<Longrightarrow> opened s' = opened s - {h}"
    and "h \<in> opened s \<Longrightarrow> os_ReadAt V h s = file_at (bytes h s)"
proof -
  note c = assms [unfolded os_ok_def]
  note d1 = conjunct2 [OF c] note d2 = conjunct2 [OF d1] note d3 = conjunct2 [OF d2]
  show "os_Open V name s = (Inr h, s') \<Longrightarrow> h \<notin> opened s \<and> opened s' = insert h (opened s)"
    by (rule conjunct1 [OF c, rule_format])
  show "os_Open V name s = (Inl e, s') \<Longrightarrow> opened s' = opened s"
    by (rule conjunct1 [OF d1, rule_format])
  show "os_Stat V h s = (r, s') \<Longrightarrow> h \<in> opened s \<Longrightarrow> opened s' = opened s \<and> bytes h s' = bytes h s
      \<and> (\<forall>n. r = Inr n \<longrightarrow> n = int (length (bytes h s)))"
    using conjunct1 [OF d2, rule_format, of h s r s'] by blast
  show "os_Close V h s = (err, s') \<Longrightarrow> h \<in> opened s \<Longrightarrow> opened s' = opened s - {h}"
    using conjunct1 [OF d3, rule_format, of h s err s'] by blast
  show "h \<in> opened s \<Longrightarrow> os_ReadAt V h s = file_at (bytes h s)"
    by (rule conjunct2 [OF d3, rule_format])
qed

text \<open>
  C20. \<open>OpenReader\<close> returns on every file. If it fails, the files that are open are those that were open
  before; if it succeeds there is one more, the reader is what \<open>NewReader\<close> makes of the bytes of that
  file, and \<open>ReadCloser.Close\<close> closes just this file again.
\<close>

theorem OpenReader_files:
  assumes "os_ok V opened bytes"
  shows "\<exists>r s'. OpenReader V name s = Some (r, s') \<and>
    (case r of
       Inl e \<Rightarrow> opened s' = opened s
     | Inr rc \<Rightarrow> rc_f rc \<notin> opened s \<and> opened s' = insert (rc_f rc) (opened s)
         \<and> NewReader (file_at (bytes (rc_f rc) s')) (int (length (bytes (rc_f rc) s'))) = Some (Inr (rc_Reader rc))
         \<and> opened (snd (ReadCloser_Close V rc s')) = opened s)"
proof (cases "os_Open V name s")
  case (Pair r s1)
  note law = os_okD [OF assms]
  show ?thesis
  proof (cases r)
    case (Inl e)
    with Pair law(2) show ?thesis by (auto simp: OpenReader_def)
  next
    case (Inr h)
    have h: "h \<notin> opened s" "opened s1 = insert h (opened s)" using law(1) Pair Inr by blast+
    obtain q s2 where st: "os_Stat V h s1 = (q, s2)" by fastforce
    have s2: "opened s2 = insert h (opened s)" "\<And>n. q = Inr n \<Longrightarrow> n = int (length (bytes h s2))"
      using law(3) [OF st] h by auto
    then have c: "opened (snd (os_Close V h s2)) = opened s" using law(4) [of h s2] h by (metis Diff_insert_absorb insertI1 prod.collapse)
    have ra: "os_ReadAt V h s2 = file_at (bytes h s2)" using law(5) s2(1) by blast
    show ?thesis
    proof (cases q)
      case (Inl e)
      with Pair Inr st c show ?thesis by (simp add: OpenReader_def)
    next
      case q: (Inr n)
      obtain p where p: "NewReader (file_at (bytes h s2)) n = Some p"
        using fil.NewReader_safe [OF file_at_lawful] by blast
      from Pair Inr st q p ra c h s2 show ?thesis
        by (cases p) (simp_all add: OpenReader_def ReadCloser_Close_def)
    qed
  qed
qed

section \<open>A small system\<close>

text \<open>A disk and the list of the open files with their contents; a handle larger than all others is new.\<close>

definition disk_files :: "(byte list \<rightharpoonup> byte list) \<Rightarrow> ((nat \<times> byte list) list, nat) os_files" where
  "disk_files disk = \<lparr>
     os_Open = (\<lambda>name s. case disk name of
        None \<Rightarrow> (Inl (IOError 2), s)
      | Some d \<Rightarrow> let h = Suc (sum_list (map fst s)) in (Inr h, (h, d) # s)),
     os_Stat = (\<lambda>h s. case map_of s h of None \<Rightarrow> (Inl (IOError 9), s) | Some d \<Rightarrow> (Inr (int (length d)), s)),
     os_Close = (\<lambda>h s. (None, filter (\<lambda>f. fst f \<noteq> h) s)),
     os_ReadAt = (\<lambda>h s. file_at (the (map_of s h)))\<rparr>"

lemma disk_files_ok: "os_ok (disk_files disk) (\<lambda>s. fst ` set s) (\<lambda>h s. the (map_of s h))"
proof -
  have "h \<le> sum_list (map fst s)" if "(h, d) \<in> set s" for h d and s :: "(nat \<times> byte list) list"
    using member_le_sum_list [of h "map fst s"] that by force
  then have new: "Suc (sum_list (map fst s)) \<notin> fst ` set s" for s :: "(nat \<times> byte list) list"
    by fastforce
  have "\<exists>d. map_of s h = Some d" if "h \<in> fst ` set s" for h and s :: "(nat \<times> byte list) list"
    using that by (metis map_of_eq_None_iff not_None_eq)
  with new show ?thesis
    by (auto simp: os_ok_def disk_files_def Let_def split: option.splits)
qed

lemma OpenReader_files_witness:
  "\<exists>r s'. OpenReader (disk_files [[97] \<mapsto> [1, 2, 3]]) [97] [(5, [])] = Some (r, s') \<and>
    (case r of
       Inl e \<Rightarrow> fst ` set s' = {5}
     | Inr rc \<Rightarrow> fst ` set (snd (ReadCloser_Close (disk_files [[97] \<mapsto> [1, 2, 3]]) rc s')) = {5})"
proof -
  obtain r s' where "OpenReader (disk_files [[97] \<mapsto> [1, 2, 3]]) [97] [(5, [])] = Some (r, s')"
    "case r of
       Inl e \<Rightarrow> fst ` set s' = {5}
     | Inr rc \<Rightarrow> fst ` set (snd (ReadCloser_Close (disk_files [[97] \<mapsto> [1, 2, 3]]) rc s')) = {5}"
    using OpenReader_files [OF disk_files_ok, of "[[97] \<mapsto> [1, 2, 3]]" "[97]" "[(5, [])]"] by (fastforce split: sum.splits)
  then show ?thesis by blast
qed

end
